(* ===== verification/Hb_Prelude.thy ===== *)
theory Hb_Prelude
  imports Main "HOL-Library.Word"
begin

text \<open>
  Shared vocabulary of the development: the result type of fallible routines, the C integer
  types, and the generic facts about lists, words and alignment that the component theories
  build on. Nothing in this theory models a particular source file; the component theories
  import it.

  Conventions used by every component.
  \<^item> \<open>'a ptr\<close> is a pointer argument the source compares with NULL: \<open>None\<close> is NULL,
    \<open>Some x\<close> is a pointer to the object \<open>x\<close>.
  \<^item> \<open>('e, 'a) res\<close> is the outcome of a routine that returns a status and, on success,
    fills an out-parameter: \<open>Inl e\<close> is an error status, \<open>Inr v\<close> is success with the value
    written through the out-parameter. The contents of an out-parameter after an error are not
    represented, because no caller in the source reads them.
  \<^item> a C array with a separate length field is a list; a \<open>for\<close> loop over it is structural
    recursion on the list.
  \<^item> \<open>int64_t\<close> values are \<open>int\<close> with their range written out (\<open>in_i64\<close>), and an
    unchecked addition or multiplication that can leave the range is wrapped explicitly
    (\<open>wrap_i64\<close>). \<open>uint32_t\<close>, \<open>uint64_t\<close> and \<open>size_t\<close> values are words where the
    source relies on or guards against wrap-around, and \<open>nat\<close> where a bound checked by the
    source keeps every operation in range.
\<close>

named_theorems res_simps \<open>unfolding of the result monad\<close>
named_theorems hb_bounds \<open>range facts of C integers\<close>

type_synonym 'a ptr = "'a option"
type_synonym ('e, 'a) res = "'e + 'a"
type_synonym u8 = "8 word"
type_synonym u16 = "16 word"
type_synonym u32 = "32 word"
type_synonym u64 = "64 word"

section \<open>Results\<close>

definition rbind :: "('e, 'a) res \<Rightarrow> ('a \<Rightarrow> ('e, 'b) res) \<Rightarrow> ('e, 'b) res" where
  "rbind m f = (case m of Inl e \<Rightarrow> Inl e | Inr x \<Rightarrow> f x)"

lemma rbind_simps [simp]:
  "rbind (Inl e) f = Inl e"
  "rbind (Inr x) f = f x"
  by (simp_all add: rbind_def)

lemma rbind_eq_Inr [res_simps]: "rbind m f = Inr y \<longleftrightarrow> (\<exists>x. m = Inr x \<and> f x = Inr y)"
  by (cases m) auto

lemma rbind_eq_Inl [res_simps]:
  "rbind m f = Inl e \<longleftrightarrow> m = Inl e \<or> (\<exists>x. m = Inr x \<and> f x = Inl e)"
  by (cases m) auto

lemma rbind_cong [fundef_cong]:
  assumes "m = m'" and "\<And>x. m' = Inr x \<Longrightarrow> f x = f' x"
  shows "rbind m f = rbind m' f'"
  using assms by (cases m') auto

section \<open>Signed 64-bit integers\<close>

definition in_i64 :: "int \<Rightarrow> bool" where
  "in_i64 x \<longleftrightarrow> - (2 ^ 63) \<le> x \<and> x < 2 ^ 63"

text \<open>Two's complement value of an \<open>int64_t\<close> expression whose exact value is \<open>x\<close>.\<close>

definition wrap_i64 :: "int \<Rightarrow> int" where
  "wrap_i64 x = (x + 2 ^ 63) mod 2 ^ 64 - 2 ^ 63"

abbreviation INT64_MAX :: int where
  "INT64_MAX \<equiv> 9223372036854775807"

lemma wrap_i64_id: "in_i64 x \<Longrightarrow> wrap_i64 x = x"
  by (simp add: in_i64_def wrap_i64_def)

lemma in_i64_wrap [hb_bounds]: "in_i64 (wrap_i64 x)"
  by (simp add: in_i64_def wrap_i64_def)

lemma in_i64I: "0 \<le> x \<Longrightarrow> x \<le> INT64_MAX \<Longrightarrow> in_i64 x"
  by (simp add: in_i64_def)

lemma in_i64_nonneg_le: "0 \<le> x \<Longrightarrow> x \<le> y \<Longrightarrow> in_i64 y \<Longrightarrow> in_i64 x"
  by (simp add: in_i64_def)

section \<open>Lists\<close>

lemma prod_list_pos: "(\<And>x. x \<in> set xs \<Longrightarrow> (0::int) < x) \<Longrightarrow> 0 < prod_list xs"
  by (induction xs) auto

lemma prod_list_ge_1: "(\<And>x. x \<in> set xs \<Longrightarrow> (1::int) \<le> x) \<Longrightarrow> 1 \<le> prod_list xs"
  using prod_list_pos [of xs] by fastforce

lemma take_update_same: "i < n \<Longrightarrow> take n (xs[i := v]) = (take n xs)[i := v]"
  by (simp add: take_update_swap)

lemma set_update_subset': "set (xs[i := v]) \<subseteq> insert v (set xs)"
  by (rule set_update_subset_insert)

lemma list_eq_map_nth: "map ((!) xs) [0..<length xs] = xs"
  by (rule map_nth)

lemma distinct_card_le:
  assumes "distinct xs" and "set xs \<subseteq> {..<n}"
  shows "length xs \<le> n"
  using card_mono [OF finite_lessThan assms(2)] distinct_card [OF assms(1)] by simp

lemma distinct_full:
  assumes "distinct xs" and "set xs \<subseteq> {..<n}" and "length xs = n"
  shows "set xs = {..<n}"
proof (rule card_subset_eq)
  show "card (set xs) = card {..<n}" using assms by (simp add: distinct_card)
qed (use assms in auto)

lemma length_filter_less_strict:
  assumes "x \<in> set xs" and "P x" and "\<not> Q x" and "\<And>y. Q y \<Longrightarrow> P y"
  shows "length (filter Q xs) < length (filter P xs)"
proof -
  have "filter Q xs = filter Q (filter P xs)" using assms(4) by (auto intro: filter_cong)
  moreover have "x \<in> set (filter P xs)" using assms(1,2) by simp
  ultimately show ?thesis using length_filter_less [of x "filter P xs" Q] assms(3) by metis
qed

section \<open>Totals over finite maps\<close>

text \<open>The sum of an attribute of the entries of a map, in \<open>uint64_t\<close>.\<close>

definition msum :: "('k \<rightharpoonup> 'v) \<Rightarrow> ('v \<Rightarrow> u64) \<Rightarrow> u64" where
  "msum m f = (\<Sum>p \<in> dom m. f (the (m p)))"

lemma msum_empty [simp]: "msum Map.empty f = 0"
  by (simp add: msum_def)

lemma msum_upd:
  assumes "finite (dom m)" and "u \<notin> dom m"
  shows "msum (m(u \<mapsto> h)) f = msum m f + f h"
proof -
  have "(\<Sum>p \<in> dom m. f (the ((m(u \<mapsto> h)) p))) = msum m f"
    unfolding msum_def using assms(2) by (intro sum.cong) auto
  then show ?thesis using assms by (simp add: msum_def add.commute)
qed

lemma msum_del:
  assumes "finite (dom m)" and "m u = Some h"
  shows "msum (m(u := None)) f = msum m f - f h"
proof -
  have "msum m f = msum ((m(u := None))(u \<mapsto> h)) f"
    using assms(2) by (simp add: fun_upd_idem)
  also have "\<dots> = msum (m(u := None)) f + f h"
    using assms(1) by (intro msum_upd) auto
  finally show ?thesis by simp
qed

lemma msum_cong:
  assumes "m p = Some h" and "F h' = F h"
  shows "msum (m(p \<mapsto> h')) F = msum m F"
proof -
  have "dom (m(p \<mapsto> h')) = dom m" using assms(1) by auto
  then show ?thesis unfolding msum_def using assms by (intro sum.cong) auto
qed

lemma msum_card: "msum m (\<lambda>_. 1) = of_nat (card (dom m))"
  by (simp add: msum_def)

unbundle bit_operations_syntax

section \<open>Powers of two and masks on words\<close>

lemma word_and_mask_mod:
  fixes x :: "'a::len word"
  shows "unat (x AND mask k) = unat x mod 2 ^ k"
proof -
  have "unat (x AND mask k) = unat (take_bit k x)" by (simp add: take_bit_eq_mask)
  also have "\<dots> = take_bit k (unat x)" by (rule unsigned_take_bit_eq)
  finally show ?thesis by (simp only: take_bit_eq_mod)
qed

lemma unat_and_not_mask:
  fixes y :: "'a::len word"
  shows "unat (y AND NOT (mask k)) = unat y - unat y mod 2 ^ k"
proof -
  have "(y AND mask k) AND (y AND NOT (mask k)) = 0"
    by (simp add: bit_eq_iff bit_simps)
  then have "(y AND mask k) + (y AND NOT (mask k)) = (y AND mask k) OR (y AND NOT (mask k))"
    by (rule disjunctive_add_eq_or)
  also have "\<dots> = y"
    by (auto simp: bit_eq_iff bit_simps)
  finally have split: "y AND NOT (mask k) = y - (y AND mask k)"
    by (simp add: algebra_simps)
  have "unat (y AND mask k) \<le> unat y"
    by (simp add: word_and_mask_mod)
  then have "unat (y - (y AND mask k)) = unat y - unat (y AND mask k)"
    by (simp add: unat_sub word_le_nat_alt)
  then show ?thesis by (simp only: split word_and_mask_mod)
qed

lemma unat_2p: "k < LENGTH('a) \<Longrightarrow> unat (2 ^ k :: 'a::len word) = 2 ^ k"
proof -
  assume k: "k < LENGTH('a)"
  have "unat (2 ^ k :: 'a word) = unat (word_of_nat (2 ^ k) :: 'a word)" by simp
  also have "\<dots> = 2 ^ k mod 2 ^ LENGTH('a)" by (simp only: unat_of_nat)
  finally show ?thesis using k by simp
qed

lemma bit_nat_top: "2 ^ k \<le> (n::nat) \<Longrightarrow> n < 2 ^ Suc k \<Longrightarrow> bit n k"
proof -
  assume "2 ^ k \<le> n" and "n < 2 ^ Suc k"
  then have "n div 2 ^ k = 1"
    by (intro div_nat_eqI) auto
  then show "bit n k" by (simp add: bit_iff_odd)
qed

lemma word_and_pred_zero_pow2:
  fixes x :: "'a::len word"
  assumes "x \<noteq> 0" and "x AND (x - 1) = 0"
  shows "\<exists>k < LENGTH('a). x = 2 ^ k"
proof -
  have pos: "0 < unat x" using assms(1) by (simp add: unat_gt_0)
  obtain k where k: "2 ^ k \<le> unat x" "unat x < 2 ^ Suc k"
    using ex_power_ivl1 [of 2 "unat x"] pos by auto
  have kl: "k < LENGTH('a)"
    using le_less_trans [OF k(1) unsigned_less] by (rule power_less_imp_less_exp [rotated]) simp
  have "unat x = 2 ^ k"
  proof (rule ccontr)
    assume "unat x \<noteq> 2 ^ k"
    then have "2 ^ k \<le> unat x - 1" "unat x - 1 < 2 ^ Suc k" using k by auto
    then have "bit (unat x - 1) k" by (rule bit_nat_top)
    moreover have "unat (x - 1) = unat x - 1"
      using assms(1) by (simp add: unat_minus_one)
    ultimately have "bit (x - 1) k" by (metis bit_unsigned_iff)
    moreover have "bit x k" using bit_nat_top [OF k] by (simp add: bit_unsigned_iff)
    ultimately have "bit (x AND (x - 1)) k" by (simp add: bit_and_iff)
    then show False using assms(2) by simp
  qed
  then have "x = 2 ^ k" using unat_2p [OF kl] by (simp add: word_unat_eq_iff)
  then show ?thesis using kl by blast
qed

lemma pow2_and_pred: "(2 ^ k :: 'a::len word) AND (2 ^ k - 1) = 0"
  by (rule bit_word_eqI)
    (auto simp: mask_eq_exp_minus_1 [symmetric] bit_and_iff bit_mask_iff bit_exp_iff)

lemma bit_below:
  fixes x :: "'a::len word"
  assumes "unat x < 2 ^ k" and "k \<le> n"
  shows "\<not> bit x n"
proof -
  have "(2 :: nat) ^ k \<le> 2 ^ n" using assms(2) by (rule power_increasing) simp
  then have "unat x div 2 ^ n = 0" using assms(1) by (intro div_less) (rule less_le_trans)
  then have "\<not> bit (unat x) n" by (simp add: bit_iff_odd)
  then show ?thesis by (simp add: bit_unsigned_iff)
qed

lemma unat_push_bit:
  fixes x :: "'a::len word"
  assumes "unat x * 2 ^ k < 2 ^ LENGTH('a)"
  shows "unat (push_bit k x) = unat x * 2 ^ k"
proof -
  have "unat (push_bit k x) = take_bit LENGTH('a) (push_bit k (unat x))" by (rule unsigned_push_bit_eq)
  also have "\<dots> = unat x * 2 ^ k" using assms by (simp only: push_bit_eq_mult take_bit_nat_eq_self)
  finally show ?thesis .
qed

lemma unat_or_disjoint:
  fixes x y :: "'a::len word"
  assumes "\<And>n. \<not> (bit x n \<and> bit y n)" and "unat x + unat y < 2 ^ LENGTH('a)"
  shows "unat (x OR y) = unat x + unat y"
proof -
  have "x AND y = 0" using assms(1) by (simp add: bit_eq_iff bit_simps)
  then have "x OR y = x + y" by (rule disjunctive_add_eq_or [symmetric])
  then show ?thesis using assms(2) by (simp add: unat_word_ariths)
qed

end
