(* ===== verification/Common.thy ===== *)
theory Common
  imports Hb_Prelude
begin

text \<open>
  The \<open>common\<close> module (src/src/common): status codes, the thread-local error record and the
  power-of-two alignment helpers every allocator and planner of the engine uses. The record is
  one per thread, so the model passes it as an explicit state of type \<open>hbi_error\<close>. The other
  component theories report failures by status only and do not thread the diagnostics record
  through their operations.
\<close>

unbundle bit_operations_syntax

section \<open>Status codes\<close>

datatype hbi_status =
    HBI_OK | HBI_ERR_INVALID_ARG | HBI_ERR_OOM | HBI_ERR_IO | HBI_ERR_NOT_FOUND
  | HBI_ERR_UNSUPPORTED | HBI_ERR_CORRUPT | HBI_ERR_STATE | HBI_ERR_AGAIN | HBI_ERR_INTERNAL
  | HBI_STATUS_COUNT

type_synonym 'a outcome = "(hbi_status, 'a) res"

fun hbi_status_str :: "hbi_status \<Rightarrow> string" where
  "hbi_status_str HBI_OK = ''HBI_OK''"
| "hbi_status_str HBI_ERR_INVALID_ARG = ''HBI_ERR_INVALID_ARG''"
| "hbi_status_str HBI_ERR_OOM = ''HBI_ERR_OOM''"
| "hbi_status_str HBI_ERR_IO = ''HBI_ERR_IO''"
| "hbi_status_str HBI_ERR_NOT_FOUND = ''HBI_ERR_NOT_FOUND''"
| "hbi_status_str HBI_ERR_UNSUPPORTED = ''HBI_ERR_UNSUPPORTED''"
| "hbi_status_str HBI_ERR_CORRUPT = ''HBI_ERR_CORRUPT''"
| "hbi_status_str HBI_ERR_STATE = ''HBI_ERR_STATE''"
| "hbi_status_str HBI_ERR_AGAIN = ''HBI_ERR_AGAIN''"
| "hbi_status_str HBI_ERR_INTERNAL = ''HBI_ERR_INTERNAL''"
| "hbi_status_str HBI_STATUS_COUNT = ''HBI_ERR_UNKNOWN''"

lemma hbi_status_str_inj: "hbi_status_str a = hbi_status_str b \<Longrightarrow> a = b"
  by (cases a; cases b) simp_all

section \<open>The error record\<close>

definition HBI_ERROR_MSG_CAP :: nat where
  "HBI_ERROR_MSG_CAP = 256"

record hbi_error =
  err_status :: hbi_status
  os_errno :: int
  err_file :: "string ptr"
  err_line :: int
  err_func :: "string ptr"
  err_message :: string

definition g_error_init :: hbi_error where
  "g_error_init = \<lparr>err_status = HBI_OK, os_errno = 0, err_file = None, err_line = 0, err_func = None,
     err_message = []\<rparr>"

definition hbi_error_clear :: "hbi_error \<Rightarrow> hbi_error" where
  "hbi_error_clear e = e\<lparr>err_status := HBI_OK, os_errno := 0, err_file := None, err_line := 0,
     err_func := None, err_message := []\<rparr>"

definition error_commit ::
  "hbi_error \<Rightarrow> hbi_status \<Rightarrow> int \<Rightarrow> string ptr \<Rightarrow> int \<Rightarrow> string ptr \<Rightarrow> hbi_status \<times> hbi_error" where
  "error_commit e st en fl ln fn =
     (st, e\<lparr>err_status := st, os_errno := en, err_file := fl, err_line := ln, err_func := fn\<rparr>)"

text \<open>
  A message is a C string: the characters before its terminating NUL. The copy keeps at most
  \<open>HBI_ERROR_MSG_CAP - 1\<close> of them and terminates explicitly.
\<close>

definition hbi_error_set_at ::
  "hbi_error \<Rightarrow> hbi_status \<Rightarrow> int \<Rightarrow> string ptr \<Rightarrow> int \<Rightarrow> string ptr \<Rightarrow> string ptr
     \<Rightarrow> hbi_status \<times> hbi_error" where
  "hbi_error_set_at e st en fl ln fn msg =
     (if st = HBI_OK then (HBI_OK, hbi_error_clear e)
      else
        let e' = (case msg of
                    Some m \<Rightarrow>
                      let n = (if length m \<ge> HBI_ERROR_MSG_CAP then HBI_ERROR_MSG_CAP - 1
                               else length m)
                      in e\<lparr>err_message := take n m\<rparr>
                  | None \<Rightarrow> e\<lparr>err_message := []\<rparr>)
        in error_commit e' st en fl ln fn)"

text \<open>
  The formatted variant. \<open>fmt\<close> is NULL or the outcome of expanding the format string:
  \<open>Some None\<close> an encoding error of \<open>vsnprintf\<close> (a negative result), \<open>Some (Some m)\<close> the
  expansion \<open>m\<close>, of which \<open>vsnprintf\<close> stores what fits before the NUL.
\<close>

definition hbi_error_setf_at ::
  "hbi_error \<Rightarrow> hbi_status \<Rightarrow> int \<Rightarrow> string ptr \<Rightarrow> int \<Rightarrow> string ptr \<Rightarrow> string option ptr
     \<Rightarrow> hbi_status \<times> hbi_error" where
  "hbi_error_setf_at e st en fl ln fn fmt =
     (if st = HBI_OK then (HBI_OK, hbi_error_clear e)
      else
        let e' = (case fmt of
                    Some (Some m) \<Rightarrow> e\<lparr>err_message := take (HBI_ERROR_MSG_CAP - 1) m\<rparr>
                  | Some None \<Rightarrow> e\<lparr>err_message := []\<rparr>
                  | None \<Rightarrow> e\<lparr>err_message := []\<rparr>)
        in error_commit e' st en fl ln fn)"

text \<open>Decimal digits of a number, as \<open>%d\<close> prints them.\<close>

fun show_nat :: "nat \<Rightarrow> string" where
  "show_nat n =
     (if n < 10 then [char_of (n + 48)] else show_nat (n div 10) @ [char_of (n mod 10 + 48)])"

declare show_nat.simps [simp del]

definition show_int :: "int \<Rightarrow> string" where
  "show_int i = (if i < 0 then CHR ''-'' # show_nat (nat (- i)) else show_nat (nat i))"

text \<open>
  \<open>snprintf\<close> into a buffer of \<open>cap\<close> bytes: the number of characters of the whole text, and
  the buffer's new contents as a C string (\<open>None\<close> when \<open>cap\<close> is 0 and nothing is written).
\<close>

definition snprintf_text :: "nat \<Rightarrow> string \<Rightarrow> int \<times> string option" where
  "snprintf_text cap s = (int (length s), if cap = 0 then None else Some (take (cap - 1) s))"

definition hbi_error_format :: "hbi_error \<Rightarrow> nat \<Rightarrow> int \<times> string option" where
  "hbi_error_format e cap =
     (let fl = (case err_file e of Some f \<Rightarrow> f | None \<Rightarrow> ''?'');
          fn = (case err_func e of Some f \<Rightarrow> f | None \<Rightarrow> ''?'') in
      if err_message e \<noteq> [] then
        snprintf_text cap
          (hbi_status_str (err_status e) @ '': '' @ err_message e @ '' (os_errno=''
           @ show_int (os_errno e) @ '') at '' @ fl @ '':'' @ show_int (err_line e) @ '' in '' @ fn)
      else
        snprintf_text cap
          (hbi_status_str (err_status e) @ '' (os_errno=''
           @ show_int (os_errno e) @ '') at '' @ fl @ '':'' @ show_int (err_line e) @ '' in '' @ fn))"

definition error_wf :: "hbi_error \<Rightarrow> bool" where
  "error_wf e \<longleftrightarrow> length (err_message e) < HBI_ERROR_MSG_CAP \<and>
     (err_status e = HBI_OK \<longrightarrow> e = g_error_init)"

lemma error_wf_init: "error_wf g_error_init"
  by (simp add: error_wf_def g_error_init_def HBI_ERROR_MSG_CAP_def)

lemma hbi_error_clear_init [simp]: "hbi_error_clear e = g_error_init"
  by (simp add: hbi_error_clear_def g_error_init_def)

lemma error_set_wf: "error_wf (snd (hbi_error_set_at e st en fl ln fn msg))"
  by (auto simp: hbi_error_set_at_def error_commit_def error_wf_def error_wf_init
      HBI_ERROR_MSG_CAP_def g_error_init_def split: option.splits)

lemma error_setf_wf: "error_wf (snd (hbi_error_setf_at e st en fl ln fn fmt))"
  by (auto simp: hbi_error_setf_at_def error_commit_def error_wf_def error_wf_init
      HBI_ERROR_MSG_CAP_def g_error_init_def split: option.splits)

section \<open>Alignment helpers\<close>

definition hbi_is_pow2 :: "u64 \<Rightarrow> bool" where
  "hbi_is_pow2 x \<longleftrightarrow> x \<noteq> 0 \<and> x AND (x - 1) = 0"

definition hbi_align_up :: "u64 \<Rightarrow> u64 \<Rightarrow> u64" where
  "hbi_align_up x align =
     (if \<not> hbi_is_pow2 align then 0
      else let rounded = (x + (align - 1)) AND NOT (align - 1)
           in if rounded < x then 0 else rounded)"

lemma hbi_is_pow2_iff: "hbi_is_pow2 x \<longleftrightarrow> (\<exists>k < 64. x = 2 ^ k)"
proof
  assume "hbi_is_pow2 x"
  then show "\<exists>k < 64. x = 2 ^ k"
    using word_and_pred_zero_pow2 [of x] by (auto simp: hbi_is_pow2_def)
next
  assume "\<exists>k < 64. x = 2 ^ k"
  then obtain k where k: "k < 64" "x = 2 ^ k" by blast
  have "unat x = 2 ^ k" using k unat_2p [where 'a = 64, of k] by simp
  then have "x \<noteq> 0" by (metis power_not_zero unat_0 zero_neq_numeral)
  then show "hbi_is_pow2 x" using k pow2_and_pred [of k] by (simp add: hbi_is_pow2_def)
qed

lemma hbi_is_pow2E:
  assumes "hbi_is_pow2 a"
  obtains k where "k < 64" "a = 2 ^ k" "unat a = 2 ^ k" "a - 1 = mask k"
  using assms unat_2p [where 'a = 64]
  by (auto simp: hbi_is_pow2_iff mask_eq_exp_minus_1)

lemma hbi_is_pow2_pos [hb_bounds]: "hbi_is_pow2 a \<Longrightarrow> 0 < unat a"
  by (simp add: hbi_is_pow2_def unat_gt_0)

text \<open>
  The rounding in \<open>nat\<close>: the masked sum is the least multiple that is not below \<open>x\<close>, unless
  that multiple does not fit, in which case the sum wraps below \<open>x\<close> and 0 is returned.
\<close>

lemma hbi_align_up_unat:
  assumes "hbi_is_pow2 a"
  shows "unat (hbi_align_up x a) =
    (let m = (unat x + (unat a - 1)) div unat a * unat a in if m < 2 ^ 64 then m else 0)"
proof -
  obtain k where k: "k < 64" "unat a = 2 ^ k" "a - 1 = mask k"
    using assms by (auto elim: hbi_is_pow2E)
  define S where "S = unat x + (2 ^ k - 1)"
  define y where "y = x + (a - 1)"
  have um: "unat (a - 1) = 2 ^ k - 1"
    using k unat_minus_one [of a] assms by (simp add: hbi_is_pow2_def)
  have y: "unat y = S mod 2 ^ 64"
    by (simp only: y_def S_def unat_word_ariths um) simp
  have r: "unat (y AND NOT (a - 1)) = unat y div 2 ^ k * 2 ^ k"
    using unat_and_not_mask [of y k] k by (simp add: minus_mod_eq_div_mult)
  have up: "hbi_align_up x a = (if (y AND NOT (a - 1)) < x then 0 else y AND NOT (a - 1))"
    using assms by (simp only: hbi_align_up_def y_def Let_def) simp
  have SS: "unat x + (unat a - 1) = S" by (simp only: S_def k(2))
  have dvd: "(2::nat) ^ k dvd 2 ^ 64" using k by (intro le_imp_power_dvd) simp
  show ?thesis
  proof (cases "S < 2 ^ 64")
    case True
    then have uy: "unat y = S" using y by simp
    have "S div 2 ^ k * 2 ^ k \<le> S" by simp
    then have lt: "S div 2 ^ k * 2 ^ k < 2 ^ 64" using True by linarith
    have "S < (S div 2 ^ k + 1) * 2 ^ k"
      by (metis Suc_eq_plus1 dividend_less_div_times mult.commute mult_Suc
          zero_less_numeral zero_less_power)
    then have "\<not> (y AND NOT (a - 1)) < x"
      using r uy by (simp add: word_less_nat_alt S_def algebra_simps)
    then show ?thesis using r uy lt by (simp only: up SS Let_def) (simp add: k(2))
  next
    case False
    have xs: "unat x < 2 ^ 64" using unsigned_less [of x] by simp
    have "S < 2 ^ 64 + 2 ^ k" using xs by (simp add: S_def)
    moreover have "(2::nat) ^ k \<le> 2 ^ 63" using k by (intro power_increasing) auto
    ultimately have Sm: "unat y = S - 2 ^ 64"
      using y False by (simp add: mod_if)
    have "unat y < 2 ^ k" using Sm \<open>S < 2 ^ 64 + 2 ^ k\<close> False by simp
    then have z: "unat (y AND NOT (a - 1)) = 0" using r by simp
    have "0 < unat x"
    proof (rule ccontr)
      assume "\<not> 0 < unat x"
      then have "S < 2 ^ 64" using \<open>(2::nat) ^ k \<le> 2 ^ 63\<close> by (simp add: S_def)
      then show False using False by simp
    qed
    then have "(y AND NOT (a - 1)) < x" using z by (simp add: word_less_nat_alt)
    moreover have "\<not> S div 2 ^ k * 2 ^ k < 2 ^ 64"
    proof -
      have "2 ^ 64 div 2 ^ k * 2 ^ k \<le> S div 2 ^ k * 2 ^ k"
        using False by (intro mult_le_mono1 div_le_mono) simp
      moreover have "(2::nat) ^ 64 div 2 ^ k * 2 ^ k = 2 ^ 64"
        using dvd by (rule dvd_div_mult_self)
      ultimately show ?thesis by linarith
    qed
    ultimately show ?thesis by (simp only: up SS Let_def) (simp add: k(2))
  qed
qed

lemma ceil_mult_least:
  fixes x a :: nat
  assumes "0 < a"
  defines "m \<equiv> (x + (a - 1)) div a * a"
  shows "x \<le> m" and "a dvd m" and "m < x + a" and "a dvd n \<Longrightarrow> x \<le> n \<Longrightarrow> m \<le> n"
proof -
  have mm: "m = x + (a - 1) - (x + (a - 1)) mod a"
    by (simp add: m_def minus_mod_eq_div_mult)
  have "(x + (a - 1)) mod a < a" using assms(1) by (rule mod_less_divisor)
  then have "(x + (a - 1)) mod a \<le> a - 1" by linarith
  then show "x \<le> m" using mm by linarith
  show "a dvd m" by (simp add: m_def)
  show "m < x + a" using mm assms(1) by linarith
  assume "a dvd n" "x \<le> n"
  from this(1) obtain q where q: "n = q * a" by (metis dvdE mult.commute)
  have "(x + (a - 1)) div a \<le> (q * a + (a - 1)) div a"
    using \<open>x \<le> n\<close> q by (intro div_le_mono) simp
  also have "\<dots> = q + (a - 1) div a" using assms(1) by (intro div_mult_self3) simp
  also have "\<dots> = q" using assms(1) by simp
  finally show "m \<le> n" unfolding m_def q by (rule mult_le_mono1)
qed

lemma hbi_align_up_fits:
  assumes "hbi_is_pow2 a" and "unat x + unat a \<le> 2 ^ 64"
  shows "unat x \<le> unat (hbi_align_up x a) \<and> unat a dvd unat (hbi_align_up x a) \<and>
    unat (hbi_align_up x a) < unat x + unat a"
proof -
  define m where "m = (unat x + (unat a - 1)) div unat a * unat a"
  note lm = ceil_mult_least [OF hbi_is_pow2_pos [OF assms(1)], where x = "unat x", folded m_def]
  have "unat (hbi_align_up x a) = (if m < 2 ^ 64 then m else 0)"
    using hbi_align_up_unat [OF assms(1), of x] by (simp only: Let_def m_def)
  moreover have "m < 2 ^ 64" using lm(3) assms(2) by (rule less_le_trans)
  ultimately have "unat (hbi_align_up x a) = m" by (simp only: if_True)
  then show ?thesis using lm(1-3) by simp
qed

lemma hbi_is_pow2_le: "hbi_is_pow2 a \<Longrightarrow> unat a \<le> 2 ^ 63"
proof -
  assume "hbi_is_pow2 a"
  then obtain k where k: "k < 64" "unat a = 2 ^ k" by (auto elim!: hbi_is_pow2E)
  have "(2 :: nat) ^ k \<le> 2 ^ 63" using k(1) by (intro power_increasing) auto
  then show ?thesis using k(2) by simp
qed

lemma hbi_align_up_ok:
  assumes "hbi_is_pow2 a" and "hbi_align_up x a \<noteq> 0 \<or> x = 0"
  shows "unat x \<le> unat (hbi_align_up x a) \<and> unat a dvd unat (hbi_align_up x a) \<and>
    unat (hbi_align_up x a) < unat x + unat a"
proof -
  define m where "m = (unat x + (unat a - 1)) div unat a * unat a"
  note lm = ceil_mult_least [OF hbi_is_pow2_pos [OF assms(1)], where x = "unat x", folded m_def]
  have up: "unat (hbi_align_up x a) = (if m < 2 ^ 64 then m else 0)"
    using hbi_align_up_unat [OF assms(1), of x] by (simp only: Let_def m_def)
  show ?thesis
  proof (cases "m < 2 ^ 64")
    case True
    then show ?thesis using lm up by simp
  next
    case False
    then have "hbi_align_up x a = 0" using up by (simp add: unat_eq_zero)
    then have "x = 0" using assms(2) by simp
    then show ?thesis using \<open>hbi_align_up x a = 0\<close> hbi_is_pow2_pos [OF assms(1)] by simp
  qed
qed



text \<open>
  Every write to the thread-local error record leaves it well-formed: the stored message fits
  its 256-byte buffer with its terminator, a recorded \<open>HBI_OK\<close> means the record is completely
  clear, and the call returns exactly the status it was given.
\<close>

lemma error_record_wf:
  "error_wf (snd (hbi_error_set_at e st en fl ln fn msg)) \<and>
   error_wf (snd (hbi_error_setf_at e st en fl ln fn fmt)) \<and>
   fst (hbi_error_set_at e st en fl ln fn msg) = st \<and>
   fst (hbi_error_setf_at e st en fl ln fn fmt) = st"
  using error_set_wf error_setf_wf
  by (auto simp: hbi_error_set_at_def hbi_error_setf_at_def error_commit_def Let_def)

end
