(* ===== verification/Tensor_Shape.thy ===== *)
theory Tensor_Shape
  imports Common
begin

text \<open>
  First half of the \<open>tensor\<close> module (src/src/tensor/tensor.h, tensor.c): element types, shapes
  and element strides, with the overflow-checked arithmetic they rest on. A shape's \<open>dims\<close> and a
  stride vector's \<open>stride\<close> are C arrays of \<open>HBI_TENSOR_MAX_RANK\<close> entries, modelled as lists of
  that length whose first \<open>rank\<close> entries are used; a loop over the used axes is recursion over
  that prefix, and a loop from the last axis to the first is recursion over its reversal.
\<close>

section \<open>Element types\<close>

datatype hbi_dtype =
    HBI_DTYPE_INVALID | HBI_DTYPE_FP32 | HBI_DTYPE_FP16 | HBI_DTYPE_BF16 | HBI_DTYPE_INT8
  | HBI_DTYPE_INT4 | HBI_DTYPE_INT2 | HBI_DTYPE_FP8 | HBI_DTYPE_NF4 | HBI_DTYPE_MXFP4
  | HBI_DTYPE_COUNT

text \<open>The enum's values are consecutive from 0, and the source compares them with \<open><\<close>.\<close>

fun dtype_value :: "hbi_dtype \<Rightarrow> nat" where
  "dtype_value HBI_DTYPE_INVALID = 0"
| "dtype_value HBI_DTYPE_FP32 = 1"
| "dtype_value HBI_DTYPE_FP16 = 2"
| "dtype_value HBI_DTYPE_BF16 = 3"
| "dtype_value HBI_DTYPE_INT8 = 4"
| "dtype_value HBI_DTYPE_INT4 = 5"
| "dtype_value HBI_DTYPE_INT2 = 6"
| "dtype_value HBI_DTYPE_FP8 = 7"
| "dtype_value HBI_DTYPE_NF4 = 8"
| "dtype_value HBI_DTYPE_MXFP4 = 9"
| "dtype_value HBI_DTYPE_COUNT = 10"

lemma dtype_value_inj: "dtype_value a = dtype_value b \<longleftrightarrow> a = b"
  by (cases a; cases b) simp_all

instantiation hbi_dtype :: linorder
begin

definition less_eq_hbi_dtype :: "hbi_dtype \<Rightarrow> hbi_dtype \<Rightarrow> bool" where
  "less_eq_hbi_dtype a b \<longleftrightarrow> dtype_value a \<le> dtype_value b"

definition less_hbi_dtype :: "hbi_dtype \<Rightarrow> hbi_dtype \<Rightarrow> bool" where
  "less_hbi_dtype a b \<longleftrightarrow> dtype_value a < dtype_value b"

instance
  by standard (auto simp: less_eq_hbi_dtype_def less_hbi_dtype_def dtype_value_inj)

end

fun hbi_dtype_str :: "hbi_dtype \<Rightarrow> string" where
  "hbi_dtype_str HBI_DTYPE_FP32 = ''fp32''"
| "hbi_dtype_str HBI_DTYPE_FP16 = ''fp16''"
| "hbi_dtype_str HBI_DTYPE_BF16 = ''bf16''"
| "hbi_dtype_str HBI_DTYPE_INT8 = ''int8''"
| "hbi_dtype_str HBI_DTYPE_INT4 = ''int4''"
| "hbi_dtype_str HBI_DTYPE_INT2 = ''int2''"
| "hbi_dtype_str HBI_DTYPE_FP8 = ''fp8''"
| "hbi_dtype_str HBI_DTYPE_NF4 = ''nf4''"
| "hbi_dtype_str HBI_DTYPE_MXFP4 = ''mxfp4''"
| "hbi_dtype_str _ = ''invalid''"

fun hbi_dtype_bits :: "hbi_dtype \<Rightarrow> nat" where
  "hbi_dtype_bits HBI_DTYPE_FP32 = 32"
| "hbi_dtype_bits HBI_DTYPE_FP16 = 16"
| "hbi_dtype_bits HBI_DTYPE_BF16 = 16"
| "hbi_dtype_bits HBI_DTYPE_INT8 = 8"
| "hbi_dtype_bits HBI_DTYPE_FP8 = 8"
| "hbi_dtype_bits HBI_DTYPE_INT4 = 4"
| "hbi_dtype_bits HBI_DTYPE_NF4 = 4"
| "hbi_dtype_bits HBI_DTYPE_INT2 = 2"
| "hbi_dtype_bits HBI_DTYPE_MXFP4 = 4"
| "hbi_dtype_bits _ = 0"

fun hbi_dtype_align :: "hbi_dtype \<Rightarrow> nat" where
  "hbi_dtype_align HBI_DTYPE_FP32 = 4"
| "hbi_dtype_align HBI_DTYPE_FP16 = 2"
| "hbi_dtype_align HBI_DTYPE_BF16 = 2"
| "hbi_dtype_align HBI_DTYPE_INT8 = 1"
| "hbi_dtype_align HBI_DTYPE_FP8 = 1"
| "hbi_dtype_align HBI_DTYPE_INT4 = 1"
| "hbi_dtype_align HBI_DTYPE_INT2 = 1"
| "hbi_dtype_align HBI_DTYPE_NF4 = 1"
| "hbi_dtype_align HBI_DTYPE_MXFP4 = 1"
| "hbi_dtype_align _ = 0"

definition hbi_dtype_is_reserved :: "hbi_dtype \<Rightarrow> bool" where
  "hbi_dtype_is_reserved dt \<longleftrightarrow> dt = HBI_DTYPE_FP8 \<or> dt = HBI_DTYPE_NF4"

definition hbi_dtype_is_valid :: "hbi_dtype \<Rightarrow> bool" where
  "hbi_dtype_is_valid dt \<longleftrightarrow> HBI_DTYPE_INVALID < dt \<and> dt < HBI_DTYPE_COUNT"

definition hbi_dtype_is_sub_byte :: "hbi_dtype \<Rightarrow> bool" where
  "hbi_dtype_is_sub_byte dt \<longleftrightarrow>
     dt = HBI_DTYPE_INT4 \<or> dt = HBI_DTYPE_INT2 \<or> dt = HBI_DTYPE_NF4 \<or> dt = HBI_DTYPE_MXFP4"

lemma dtype_valid_iff:
  "hbi_dtype_is_valid dt \<longleftrightarrow> dt \<noteq> HBI_DTYPE_INVALID \<and> dt \<noteq> HBI_DTYPE_COUNT"
  by (cases dt) (simp_all add: hbi_dtype_is_valid_def less_hbi_dtype_def)

lemma dtype_bits_pos: "hbi_dtype_is_valid dt \<Longrightarrow> 0 < hbi_dtype_bits dt"
  by (cases dt) (simp_all add: dtype_valid_iff)

lemma dtype_align_pos: "hbi_dtype_is_valid dt \<Longrightarrow> 0 < hbi_dtype_align dt"
  by (cases dt) (simp_all add: dtype_valid_iff)

lemma dtype_bits_le: "hbi_dtype_bits dt \<le> 32"
  by (cases dt) simp_all

lemma dtype_byte_bits:
  "hbi_dtype_is_valid dt \<Longrightarrow> \<not> hbi_dtype_is_sub_byte dt \<Longrightarrow>
     hbi_dtype_bits dt = 8 * hbi_dtype_align dt"
  by (cases dt) (simp_all add: dtype_valid_iff hbi_dtype_is_sub_byte_def)

section \<open>Overflow-checked multiplication and packed sizes\<close>

definition mul_ovf_i64 :: "int \<Rightarrow> int \<Rightarrow> int option" where
  "mul_ovf_i64 a b =
     (if a = 0 \<or> b = 0 then Some 0 else if in_i64 (a * b) then Some (a * b) else None)"

lemma mul_ovf_i64_Some [simp]: "mul_ovf_i64 a b = Some c \<longleftrightarrow> c = a * b \<and> in_i64 (a * b)"
  by (auto simp: mul_ovf_i64_def in_i64_def)

lemma mul_ovf_i64_None [simp]: "mul_ovf_i64 a b = None \<longleftrightarrow> \<not> in_i64 (a * b)"
  by (auto simp: mul_ovf_i64_def in_i64_def)

definition hbi_dtype_packed_nbytes :: "hbi_dtype \<Rightarrow> int \<Rightarrow> nat outcome" where
  "hbi_dtype_packed_nbytes dt count =
     (if \<not> hbi_dtype_is_valid dt \<or> count < 0 then Inl HBI_ERR_INVALID_ARG
      else case mul_ovf_i64 count (int (hbi_dtype_bits dt)) of
             None \<Rightarrow> Inl HBI_ERR_CORRUPT
           | Some total_bits \<Rightarrow>
               if total_bits > INT64_MAX - 7 then Inl HBI_ERR_CORRUPT
               else Inr (nat ((total_bits + 7) div 8)))"

lemma packed_nbytes_Inr:
  "hbi_dtype_packed_nbytes dt count = Inr n \<longleftrightarrow>
     hbi_dtype_is_valid dt \<and> 0 \<le> count \<and> count * int (hbi_dtype_bits dt) \<le> INT64_MAX - 7 \<and>
     n = nat ((count * int (hbi_dtype_bits dt) + 7) div 8)"
proof (cases "hbi_dtype_is_valid dt \<and> 0 \<le> count")
  case True
  then have "0 \<le> count * int (hbi_dtype_bits dt)" by simp
  then have "- 9223372036854775808 \<le> count * int (hbi_dtype_bits dt)" by linarith
  then show ?thesis
    using True by (auto simp: hbi_dtype_packed_nbytes_def in_i64_def split: option.splits)
next
  case False
  then show ?thesis by (auto simp: hbi_dtype_packed_nbytes_def)
qed

lemma packed_nbytes_err: "hbi_dtype_packed_nbytes dt count \<noteq> Inl HBI_OK"
  by (auto simp: hbi_dtype_packed_nbytes_def split: option.splits)

lemma packed_nbytes_mono:
  assumes "hbi_dtype_packed_nbytes dt c = Inr n" and "0 \<le> c'" and "c' \<le> c"
  shows "\<exists>n'. hbi_dtype_packed_nbytes dt c' = Inr n' \<and> n' \<le> n"
proof -
  have le: "c' * int (hbi_dtype_bits dt) \<le> c * int (hbi_dtype_bits dt)"
    using assms(3) by (intro mult_right_mono) simp_all
  then have "hbi_dtype_packed_nbytes dt c' = Inr (nat ((c' * int (hbi_dtype_bits dt) + 7) div 8))"
    using assms by (auto simp: packed_nbytes_Inr)
  moreover have "nat ((c' * int (hbi_dtype_bits dt) + 7) div 8) \<le> n"
    using assms(1) le by (auto simp: packed_nbytes_Inr intro!: nat_mono zdiv_mono1)
  ultimately show ?thesis by blast
qed

section \<open>Shapes\<close>

definition HBI_TENSOR_MAX_RANK :: nat where
  "HBI_TENSOR_MAX_RANK = 8"

record hbi_shape =
  rank :: nat
  dims :: "int list"

abbreviation used_dims :: "hbi_shape \<Rightarrow> int list" where
  "used_dims s \<equiv> take (rank s) (dims s)"

text \<open>
  The loop shared by \<open>hbi_shape_init\<close> and \<open>hbi_shape_validate\<close>: every dimension positive, the
  running product never overflowing.
\<close>

fun dims_scan :: "int list \<Rightarrow> int \<Rightarrow> int outcome" where
  "dims_scan [] acc = Inr acc"
| "dims_scan (d # ds) acc =
     (if d \<le> 0 then Inl HBI_ERR_INVALID_ARG
      else case mul_ovf_i64 acc d of
             None \<Rightarrow> Inl HBI_ERR_CORRUPT
           | Some acc' \<Rightarrow> dims_scan ds acc')"

definition hbi_shape_init :: "int list ptr \<Rightarrow> nat \<Rightarrow> hbi_shape outcome" where
  "hbi_shape_init ds r =
     (case ds of
        None \<Rightarrow>
          if r > 0 then Inl HBI_ERR_INVALID_ARG
          else Inr \<lparr>rank = 0, dims = replicate HBI_TENSOR_MAX_RANK 0\<rparr>
      | Some a \<Rightarrow>
          if r > HBI_TENSOR_MAX_RANK then Inl HBI_ERR_INVALID_ARG
          else rbind (dims_scan (take r a) 1)
            (\<lambda>_. Inr \<lparr>rank = r,
                      dims = take r a @ replicate (HBI_TENSOR_MAX_RANK - r) 0\<rparr>))"

definition hbi_shape_init_scalar :: "hbi_shape outcome" where
  "hbi_shape_init_scalar = Inr \<lparr>rank = 0, dims = replicate HBI_TENSOR_MAX_RANK 0\<rparr>"

definition hbi_shape_rank :: "hbi_shape ptr \<Rightarrow> nat" where
  "hbi_shape_rank s = (case s of None \<Rightarrow> 0 | Some s \<Rightarrow> rank s)"

fun elem_count_loop :: "int list \<Rightarrow> int \<Rightarrow> int outcome" where
  "elem_count_loop [] acc = Inr acc"
| "elem_count_loop (d # ds) acc =
     (case mul_ovf_i64 acc d of
        None \<Rightarrow> Inl HBI_ERR_CORRUPT
      | Some acc' \<Rightarrow> elem_count_loop ds acc')"

definition hbi_shape_elem_count :: "hbi_shape ptr \<Rightarrow> int outcome" where
  "hbi_shape_elem_count s =
     (case s of None \<Rightarrow> Inl HBI_ERR_INVALID_ARG | Some s \<Rightarrow> elem_count_loop (used_dims s) 1)"

definition hbi_shape_equal :: "hbi_shape ptr \<Rightarrow> hbi_shape ptr \<Rightarrow> bool" where
  "hbi_shape_equal a b =
     (case (a, b) of
        (Some a, Some b) \<Rightarrow>
          if rank a \<noteq> rank b then False else used_dims a = used_dims b
      | (None, None) \<Rightarrow> True
      | _ \<Rightarrow> False)"

definition dim_from_right :: "hbi_shape \<Rightarrow> nat \<Rightarrow> int" where
  "dim_from_right s i = (if i \<ge> rank s then 1 else dims s ! (rank s - 1 - i))"

definition hbi_shape_broadcast_compatible :: "hbi_shape ptr \<Rightarrow> hbi_shape ptr \<Rightarrow> bool" where
  "hbi_shape_broadcast_compatible a b =
     (case (a, b) of
        (Some a, Some b) \<Rightarrow>
          list_all (\<lambda>i. \<not> (dim_from_right a i \<noteq> dim_from_right b i \<and> dim_from_right a i \<noteq> 1 \<and>
                          dim_from_right b i \<noteq> 1))
            [0..<max (rank a) (rank b)]
      | _ \<Rightarrow> False)"

definition hbi_shape_broadcast :: "hbi_shape ptr \<Rightarrow> hbi_shape ptr \<Rightarrow> hbi_shape outcome" where
  "hbi_shape_broadcast a b =
     (case (a, b) of
        (Some a, Some b) \<Rightarrow>
          if \<not> hbi_shape_broadcast_compatible (Some a) (Some b) then Inl HBI_ERR_INVALID_ARG
          else let n = max (rank a) (rank b) in
            Inr \<lparr>rank = n,
                 dims = map (\<lambda>j. let i = n - 1 - j; da = dim_from_right a i; db = dim_from_right b i
                                 in if da > db then da else db) [0..<n]
                        @ replicate (HBI_TENSOR_MAX_RANK - n) 0\<rparr>
      | _ \<Rightarrow> Inl HBI_ERR_INVALID_ARG)"

definition hbi_shape_validate :: "hbi_shape ptr \<Rightarrow> hbi_status" where
  "hbi_shape_validate s =
     (case s of
        None \<Rightarrow> HBI_ERR_INVALID_ARG
      | Some s \<Rightarrow>
          if rank s > HBI_TENSOR_MAX_RANK then HBI_ERR_INVALID_ARG
          else case dims_scan (used_dims s) 1 of Inl e \<Rightarrow> e | Inr _ \<Rightarrow> HBI_OK)"

text \<open>What a validated shape is, independently of the loop.\<close>

definition shape_wf :: "hbi_shape \<Rightarrow> bool" where
  "shape_wf s \<longleftrightarrow> length (dims s) = HBI_TENSOR_MAX_RANK \<and> rank s \<le> HBI_TENSOR_MAX_RANK \<and>
     (\<forall>d \<in> set (used_dims s). 0 < d) \<and> prod_list (used_dims s) < 2 ^ 63"

lemma mult_ge_left: "1 \<le> (a::int) \<Longrightarrow> 1 \<le> b \<Longrightarrow> a \<le> a * b"
  by (metis mult.right_neutral mult_left_mono order_trans zero_le_one)

lemma mult_ge_1: "1 \<le> (a::int) \<Longrightarrow> 0 < b \<Longrightarrow> 1 \<le> a * b"
  using mult_ge_left [of a b] by linarith

lemma dims_scan_Inr:
  "1 \<le> acc \<Longrightarrow> acc < 2 ^ 63 \<Longrightarrow> dims_scan ds acc = Inr n \<longleftrightarrow>
     (\<forall>d \<in> set ds. 0 < d) \<and> acc * prod_list ds < 2 ^ 63 \<and> n = acc * prod_list ds"
proof (induction ds arbitrary: acc)
  case Nil
  then show ?case by auto
next
  case (Cons d ds)
  show ?case
  proof (cases "0 < d \<and> acc * d < 2 ^ 63")
    case True
    then have a: "1 \<le> acc * d" "in_i64 (acc * d)"
      using Cons.prems mult_ge_1 [of acc d] by (auto simp: in_i64_def)
    have "dims_scan (d # ds) acc = dims_scan ds (acc * d)"
      using True a by (simp split: option.split)
    also have "\<dots> = Inr n \<longleftrightarrow>
      (\<forall>x \<in> set ds. 0 < x) \<and> acc * d * prod_list ds < 2 ^ 63 \<and> n = acc * d * prod_list ds"
      using Cons.IH [of "acc * d"] a True by simp
    finally show ?thesis using True by (simp add: mult.assoc)
  next
    case False
    have "dims_scan (d # ds) acc \<noteq> Inr n"
      using False Cons.prems by (auto simp: in_i64_def split: option.split)
    moreover have "\<not> ((\<forall>x \<in> set (d # ds). 0 < x) \<and> acc * prod_list (d # ds) < 2 ^ 63)"
    proof
      assume h: "(\<forall>x \<in> set (d # ds). 0 < x) \<and> acc * prod_list (d # ds) < 2 ^ 63"
      then have "1 \<le> prod_list ds" using prod_list_pos [of ds] by fastforce
      moreover have "1 \<le> acc * d" using h Cons.prems mult_ge_1 [of acc d] by auto
      ultimately have "acc * d \<le> acc * d * prod_list ds" by (rule mult_ge_left [rotated])
      then show False using h False by (simp add: mult.assoc)
    qed
    ultimately show ?thesis by blast
  qed
qed

lemma dims_scan_Inr_prod:
  "1 \<le> acc \<Longrightarrow> acc < 2 ^ 63 \<Longrightarrow> dims_scan ds acc = Inr n \<Longrightarrow>
     (\<forall>d \<in> set ds. 0 < d) \<and> acc * prod_list ds < 2 ^ 63"
  using dims_scan_Inr by blast

lemma dims_scan_err: "dims_scan ds acc \<noteq> Inl HBI_OK"
  by (induction ds acc rule: dims_scan.induct) (auto split: option.splits)

lemma shape_validate_OK:
  "length (dims s) = HBI_TENSOR_MAX_RANK \<Longrightarrow> hbi_shape_validate (Some s) = HBI_OK \<longleftrightarrow> shape_wf s"
  using dims_scan_Inr [of 1 "used_dims s" "prod_list (used_dims s)"]
    dims_scan_Inr_prod [of 1 "used_dims s"] dims_scan_err [of "used_dims s" 1]
  by (cases "dims_scan (used_dims s) 1") (auto simp: hbi_shape_validate_def shape_wf_def)

lemma elem_count_loop_wf:
  "1 \<le> acc \<Longrightarrow> (\<forall>d \<in> set ds. 0 < d) \<Longrightarrow> acc * prod_list ds < 2 ^ 63 \<Longrightarrow>
     elem_count_loop ds acc = Inr (acc * prod_list ds)"
proof (induction ds arbitrary: acc)
  case Nil
  then show ?case by simp
next
  case (Cons d ds)
  have p: "1 \<le> prod_list ds" using Cons.prems(2) prod_list_pos [of ds] by fastforce
  have a: "1 \<le> acc * d" using Cons.prems mult_ge_1 [of acc d] by auto
  have "acc * d \<le> acc * d * prod_list ds" using a p by (rule mult_ge_left)
  then have "in_i64 (acc * d)" using a Cons.prems(3) by (simp add: in_i64_def mult.assoc)
  then show ?case
    using Cons.IH [of "acc * d"] Cons.prems a by (simp add: mult.assoc split: option.split)
qed

lemma elem_count_wf:
  "shape_wf s \<Longrightarrow> hbi_shape_elem_count (Some s) = Inr (prod_list (used_dims s))"
  using elem_count_loop_wf [of 1 "used_dims s"]
  by (simp add: hbi_shape_elem_count_def shape_wf_def)

lemma shape_init_wf:
  assumes "hbi_shape_init (Some a) r = Inr s" and "r \<le> length a"
  shows "shape_wf s \<and> used_dims s = take r a"
  using assms dims_scan_Inr [of 1 "take r a"]
  by (auto simp: hbi_shape_init_def shape_wf_def res_simps split: if_splits)

section \<open>Strides\<close>

record hbi_strides =
  st_rank :: nat
  stride :: "int list"

text \<open>The loop of \<open>hbi_strides_init_contiguous\<close>, from the last axis to the first.\<close>

fun contiguous_fill :: "int list \<Rightarrow> int \<Rightarrow> int list \<Rightarrow> int list outcome" where
  "contiguous_fill [] acc out = Inr out"
| "contiguous_fill (d # rds) acc out =
     (case mul_ovf_i64 acc d of
        None \<Rightarrow> Inl HBI_ERR_CORRUPT
      | Some acc' \<Rightarrow> contiguous_fill rds acc' (acc # out))"

definition hbi_strides_init_contiguous :: "hbi_shape ptr \<Rightarrow> hbi_strides outcome" where
  "hbi_strides_init_contiguous s =
     (case s of
        None \<Rightarrow> Inl HBI_ERR_INVALID_ARG
      | Some sh \<Rightarrow>
          let st = hbi_shape_validate s in
          if st \<noteq> HBI_OK then Inl st
          else rbind (contiguous_fill (rev (used_dims sh)) 1 [])
            (\<lambda>ss. Inr \<lparr>st_rank = rank sh,
                       stride = ss @ replicate (HBI_TENSOR_MAX_RANK - rank sh) 0\<rparr>))"

fun contiguous_check :: "int list \<Rightarrow> int list \<Rightarrow> int \<Rightarrow> bool" where
  "contiguous_check (s # rss) (d # rds) acc =
     (if s \<noteq> acc then False else contiguous_check rss rds (wrap_i64 (acc * d)))"
| "contiguous_check _ _ _ = True"

definition hbi_strides_is_contiguous :: "hbi_strides ptr \<Rightarrow> hbi_shape ptr \<Rightarrow> bool" where
  "hbi_strides_is_contiguous st s =
     (case (st, s) of
        (Some st, Some s) \<Rightarrow>
          if st_rank st \<noteq> rank s then False
          else contiguous_check (rev (take (rank s) (stride st))) (rev (used_dims s)) 1
      | _ \<Rightarrow> False)"

fun strides_scan :: "int list \<Rightarrow> int list \<Rightarrow> int \<Rightarrow> hbi_status" where
  "strides_scan (d # ds) (s # ss) max_off =
     (if s < 0 then HBI_ERR_INVALID_ARG
      else case mul_ovf_i64 (wrap_i64 (d - 1)) s of
             None \<Rightarrow> HBI_ERR_CORRUPT
           | Some term \<Rightarrow>
               if max_off > wrap_i64 (INT64_MAX - term) then HBI_ERR_CORRUPT
               else strides_scan ds ss (wrap_i64 (max_off + term)))"
| "strides_scan _ _ _ = HBI_OK"

definition hbi_strides_validate :: "hbi_strides ptr \<Rightarrow> hbi_shape ptr \<Rightarrow> hbi_status" where
  "hbi_strides_validate st s =
     (case (st, s) of
        (Some st, Some s) \<Rightarrow>
          if st_rank st \<noteq> rank s then HBI_ERR_INVALID_ARG
          else strides_scan (used_dims s) (take (rank s) (stride st)) 0
      | _ \<Rightarrow> HBI_ERR_INVALID_ARG)"

fun span_loop :: "int list \<Rightarrow> int list \<Rightarrow> int \<Rightarrow> int outcome" where
  "span_loop (d # ds) (s # ss) max_off =
     (case mul_ovf_i64 (wrap_i64 (d - 1)) s of
        None \<Rightarrow> Inl HBI_ERR_CORRUPT
      | Some term \<Rightarrow> span_loop ds ss (wrap_i64 (max_off + term)))"
| "span_loop _ _ max_off = Inr (wrap_i64 (max_off + 1))"

definition span_elems :: "hbi_shape \<Rightarrow> hbi_strides \<Rightarrow> int outcome" where
  "span_elems s st = span_loop (used_dims s) (take (rank s) (stride st)) 0"

subsection \<open>Row-major strides and strided addressing, specified\<close>

text \<open>
  \<open>cstr ds\<close> is the row-major stride vector: the stride of an axis is the product of the later
  dimensions. \<open>offset idx ss\<close> is the element offset of a multi-index, \<open>in_box\<close> says that a
  multi-index lies inside a shape, and \<open>max_offset\<close> is the offset of the last element.
\<close>

fun cstr :: "int list \<Rightarrow> int list" where
  "cstr [] = []"
| "cstr (d # ds) = prod_list ds # cstr ds"

fun offset :: "int list \<Rightarrow> int list \<Rightarrow> int" where
  "offset (i # is) (s # ss) = i * s + offset is ss"
| "offset _ _ = 0"

definition in_box :: "int list \<Rightarrow> int list \<Rightarrow> bool" where
  "in_box is ds \<longleftrightarrow> list_all2 (\<lambda>i d. 0 \<le> i \<and> i < d) is ds"

definition max_offset :: "int list \<Rightarrow> int list \<Rightarrow> int" where
  "max_offset ds ss = offset (map (\<lambda>d. d - 1) ds) ss"

lemma length_cstr [simp]: "length (cstr ds) = length ds"
  by (induction ds) simp_all

lemma cstr_snoc: "cstr (ds @ [d]) = map (\<lambda>x. d * x) (cstr ds) @ [1]"
  by (induction ds) (simp_all add: mult.commute)

lemma contiguous_fill_cstr:
  "1 \<le> acc \<Longrightarrow> (\<forall>d \<in> set ds. 0 < d) \<Longrightarrow> acc * prod_list ds < 2 ^ 63 \<Longrightarrow>
     contiguous_fill (rev ds) acc out = Inr (map (\<lambda>x. acc * x) (cstr ds) @ out)"
proof (induction ds arbitrary: acc out rule: rev_induct)
  case Nil
  then show ?case by simp
next
  case (snoc d ds)
  have p: "1 \<le> prod_list ds" using snoc.prems(2) prod_list_pos [of ds] by fastforce
  have a: "1 \<le> acc * d" using snoc.prems mult_ge_1 [of acc d] by auto
  have b: "acc * d * prod_list ds < 2 ^ 63" using snoc.prems(3) by (simp add: mult_ac)
  have "in_i64 (acc * d)" using mult_ge_left [OF a p] a b by (simp add: in_i64_def)
  then have "contiguous_fill (rev (ds @ [d])) acc out = contiguous_fill (rev ds) (acc * d) (acc # out)"
    by (simp split: option.split)
  also have "\<dots> = Inr (map (\<lambda>x. acc * d * x) (cstr ds) @ acc # out)"
    using snoc.IH [of "acc * d" "acc # out"] snoc.prems a b by simp
  finally show ?case by (simp add: cstr_snoc mult.assoc)
qed

lemma contiguous_check_cstr:
  "1 \<le> acc \<Longrightarrow> (\<forall>d \<in> set ds. 0 < d) \<Longrightarrow> acc * prod_list ds < 2 ^ 63 \<Longrightarrow> length ss = length ds \<Longrightarrow>
     contiguous_check (rev ss) (rev ds) acc \<longleftrightarrow> ss = map (\<lambda>x. acc * x) (cstr ds)"
proof (induction ds arbitrary: acc ss rule: rev_induct)
  case Nil
  then show ?case by simp
next
  case (snoc d ds)
  obtain ss' s where ss: "ss = ss' @ [s]" "length ss' = length ds"
    using snoc.prems(4) by (cases ss rule: rev_cases) auto
  have p: "1 \<le> prod_list ds" using snoc.prems(2) prod_list_pos [of ds] by fastforce
  have a: "1 \<le> acc * d" using snoc.prems mult_ge_1 [of acc d] by auto
  have b: "acc * d * prod_list ds < 2 ^ 63" using snoc.prems(3) by (simp add: mult_ac)
  have w: "wrap_i64 (acc * d) = acc * d"
    using mult_ge_left [OF a p] a b by (intro wrap_i64_id) (simp add: in_i64_def)
  have "contiguous_check (rev ss') (rev ds) (acc * d) \<longleftrightarrow> ss' = map (\<lambda>x. acc * d * x) (cstr ds)"
    using snoc.IH [of "acc * d" ss'] snoc.prems a b ss by simp
  then show ?case using ss by (simp add: w cstr_snoc comp_def mult.assoc conj_commute)
qed

lemma is_contiguous_iff:
  assumes "shape_wf s" and "length (stride st) = HBI_TENSOR_MAX_RANK"
  shows "hbi_strides_is_contiguous (Some st) (Some s) \<longleftrightarrow>
     st_rank st = rank s \<and> take (rank s) (stride st) = cstr (used_dims s)"
proof -
  have "contiguous_check (rev (take (rank s) (stride st))) (rev (used_dims s)) 1
      \<longleftrightarrow> take (rank s) (stride st) = map (\<lambda>x. 1 * x) (cstr (used_dims s))"
    using assms by (intro contiguous_check_cstr) (auto simp: shape_wf_def)
  then show ?thesis by (simp add: hbi_strides_is_contiguous_def)
qed

lemma strides_init_contiguous_wf:
  assumes "shape_wf s"
  shows "hbi_strides_init_contiguous (Some s) =
     Inr \<lparr>st_rank = rank s,
          stride = cstr (used_dims s) @ replicate (HBI_TENSOR_MAX_RANK - rank s) 0\<rparr>"
proof -
  have "contiguous_fill (rev (used_dims s)) 1 [] = Inr (map (\<lambda>x. 1 * x) (cstr (used_dims s)) @ [])"
    using assms by (intro contiguous_fill_cstr) (auto simp: shape_wf_def)
  moreover have "hbi_shape_validate (Some s) = HBI_OK"
    using assms shape_validate_OK [of s] by (simp add: shape_wf_def)
  ultimately show ?thesis by (simp add: hbi_strides_init_contiguous_def)
qed


lemma elem_count_err: "elem_count_loop ds acc \<noteq> Inl HBI_OK"
  by (induction ds acc rule: elem_count_loop.induct) (auto split: option.splits)

lemma contiguous_fill_err: "contiguous_fill ds acc out \<noteq> Inl HBI_OK"
  by (induction ds acc out rule: contiguous_fill.induct) (auto split: option.splits)

lemma strides_init_contiguous_Inr:
  assumes "hbi_strides_init_contiguous (Some s) = Inr st" and "length (dims s) = HBI_TENSOR_MAX_RANK"
  shows "shape_wf s \<and> st_rank st = rank s \<and> length (stride st) = HBI_TENSOR_MAX_RANK \<and>
    take (rank s) (stride st) = cstr (used_dims s)"
proof -
  have wf: "shape_wf s"
    using assms shape_validate_OK [of s] by (auto simp: hbi_strides_init_contiguous_def Let_def split: if_splits)
  then have "length (cstr (used_dims s)) = rank s"
    by (simp add: shape_wf_def)
  then show ?thesis
    using wf assms(1) by (auto simp: strides_init_contiguous_wf shape_wf_def)
qed

subsection \<open>Offsets\<close>

lemma div_less_mono_hb: "(n::int) < d * p \<Longrightarrow> 0 < p \<Longrightarrow> n div p < d"
proof (rule ccontr)
  assume h: "n < d * p" "0 < p" "\<not> n div p < d"
  then have "d * p \<le> (n div p) * p" by (intro mult_right_mono) auto
  also have "\<dots> \<le> n" using h(2) by (simp add: minus_mod_eq_div_mult [symmetric])
  finally show False using h(1) by simp
qed

lemma in_box_simps [simp]:
  "in_box [] ds \<longleftrightarrow> ds = []"
  "in_box is [] \<longleftrightarrow> is = []"
  "in_box (i # is) (d # ds) \<longleftrightarrow> 0 \<le> i \<and> i < d \<and> in_box is ds"
  by (simp_all add: in_box_def)

lemma in_box_Cons: "in_box is (d # ds) \<longleftrightarrow> (\<exists>i is'. is = i # is' \<and> 0 \<le> i \<and> i < d \<and> in_box is' ds)"
  by (cases "is") auto

lemma offset_le_max:
  "in_box is ds \<Longrightarrow> length ss = length ds \<Longrightarrow> (\<forall>s \<in> set ss. 0 \<le> s) \<Longrightarrow>
     0 \<le> offset is ss \<and> offset is ss \<le> max_offset ds ss"
proof (induction ds arbitrary: "is" ss)
  case Nil
  then show ?case by (simp add: max_offset_def)
next
  case (Cons d ds)
  obtain i is' s ss' where e: "is = i # is'" "0 \<le> i" "i < d" "in_box is' ds" "ss = s # ss'"
    using Cons.prems by (auto simp: in_box_Cons length_Suc_conv)
  have "0 \<le> i * s \<and> i * s \<le> (d - 1) * s"
    using e Cons.prems(3) by (auto intro!: mult_right_mono)
  then show ?case using Cons.IH [of is' ss'] Cons.prems e by (auto simp: max_offset_def)
qed

lemma offset_last_in_box:
  "(\<forall>d \<in> set ds. 0 < d) \<Longrightarrow> in_box (map (\<lambda>d. d - 1) ds) ds"
  by (induction ds) auto

lemma max_offset_cstr:
  "(\<forall>d \<in> set ds. 0 < d) \<Longrightarrow> max_offset ds (cstr ds) = prod_list ds - 1"
  by (induction ds) (auto simp: max_offset_def algebra_simps)

lemma cstr_nonneg: "(\<forall>d \<in> set ds. 0 < d) \<Longrightarrow> s \<in> set (cstr ds) \<Longrightarrow> 0 < s"
  by (induction ds) (auto simp: prod_list_pos)

fun unrank :: "int list \<Rightarrow> int \<Rightarrow> int list" where
  "unrank [] n = []"
| "unrank (d # ds) n = (n div prod_list ds) # unrank ds (n mod prod_list ds)"

lemma unrank_in_box:
  "(\<forall>d \<in> set ds. 0 < d) \<Longrightarrow> 0 \<le> n \<Longrightarrow> n < prod_list ds \<Longrightarrow>
     in_box (unrank ds n) ds \<and> offset (unrank ds n) (cstr ds) = n"
proof (induction ds arbitrary: n)
  case Nil
  then show ?case by simp
next
  case (Cons d ds)
  have p: "0 < prod_list ds" using Cons.prems(1) by (intro prod_list_pos) auto
  have "n div prod_list ds < d"
    using Cons.prems(3) p by (intro div_less_mono_hb) simp_all
  then show ?case using Cons.IH [of "n mod prod_list ds"] Cons.prems p
    by (simp add: pos_imp_zdiv_nonneg_iff)
qed

lemma offset_cstr_bound:
  "(\<forall>d \<in> set ds. 0 < d) \<Longrightarrow> in_box is ds \<Longrightarrow>
     0 \<le> offset is (cstr ds) \<and> offset is (cstr ds) < prod_list ds"
  using offset_le_max [of "is" ds "cstr ds"] cstr_nonneg [of ds] max_offset_cstr [of ds]
  by fastforce

lemma unrank_offset:
  "(\<forall>d \<in> set ds. 0 < d) \<Longrightarrow> in_box is ds \<Longrightarrow> unrank ds (offset is (cstr ds)) = is"
proof (induction ds arbitrary: "is")
  case Nil
  then show ?case by simp
next
  case (Cons d ds)
  obtain i is' where e: "is = i # is'" "0 \<le> i" "i < d" "in_box is' ds"
    using Cons.prems by (auto simp: in_box_Cons)
  have b: "0 \<le> offset is' (cstr ds) \<and> offset is' (cstr ds) < prod_list ds"
    using offset_cstr_bound Cons.prems(1) e(4) by simp
  then have "(i * prod_list ds + offset is' (cstr ds)) div prod_list ds = i"
    "(i * prod_list ds + offset is' (cstr ds)) mod prod_list ds = offset is' (cstr ds)"
    by simp_all
  then show ?case using e Cons.IH [of is'] Cons.prems(1) by simp
qed

subsection \<open>Spans\<close>

definition spec_strides_ok :: "int list \<Rightarrow> int list \<Rightarrow> bool" where
  "spec_strides_ok ds ss \<longleftrightarrow> (\<forall>s \<in> set ss. 0 \<le> s) \<and> max_offset ds ss < 2 ^ 63"

lemma max_offset_simps [simp]:
  "max_offset [] ss = 0"
  "max_offset (d # ds) (s # ss) = (d - 1) * s + max_offset ds ss"
  by (simp_all add: max_offset_def)

lemma max_offset_nonneg:
  "(\<forall>d \<in> set ds. 0 < d) \<Longrightarrow> (\<forall>s \<in> set ss. 0 \<le> s) \<Longrightarrow> length ss = length ds \<Longrightarrow> 0 \<le> max_offset ds ss"
  using offset_le_max [OF offset_last_in_box, of ds ss] by (simp add: max_offset_def)

lemma i64_term:
  "0 \<le> t \<Longrightarrow> 0 \<le> acc \<Longrightarrow> acc + t < 2 ^ 63 \<Longrightarrow>
     in_i64 t \<and> wrap_i64 (INT64_MAX - t) = INT64_MAX - t \<and> wrap_i64 (acc + t) = acc + t"
  by (auto intro!: wrap_i64_id simp: in_i64_def)

lemma strides_scan_OK:
  assumes "\<forall>d \<in> set ds. 0 < d \<and> d < 2 ^ 63" and "length ss = length ds"
    and "0 \<le> acc" and "acc < 2 ^ 63"
  shows "strides_scan ds ss acc = HBI_OK \<longleftrightarrow>
    (\<forall>s \<in> set ss. 0 \<le> s) \<and> acc + max_offset ds ss < 2 ^ 63"
  using assms
proof (induction ds arbitrary: ss acc)
  case Nil
  then show ?case by simp
next
  case (Cons d ds)
  obtain s ss' where ss: "ss = s # ss'" "length ss' = length ds"
    using Cons.prems(2) by (cases ss) auto
  have w: "wrap_i64 (d - 1) = d - 1"
    using Cons.prems(1) by (intro wrap_i64_id) (simp add: in_i64_def)
  show ?case
  proof (cases "0 \<le> s \<and> acc + (d - 1) * s < 2 ^ 63")
    case True
    have nn: "0 \<le> (d - 1) * s" using True Cons.prems(1) by simp
    have iw: "in_i64 ((d - 1) * s)" "wrap_i64 (INT64_MAX - (d - 1) * s) = INT64_MAX - (d - 1) * s"
      "wrap_i64 (acc + (d - 1) * s) = acc + (d - 1) * s"
      using i64_term [OF nn Cons.prems(3)] True by auto
    have "strides_scan (d # ds) ss acc = strides_scan ds ss' (acc + (d - 1) * s)"
      using True iw by (simp add: ss w split: option.split)
    then show ?thesis
      using Cons.IH [of ss' "acc + (d - 1) * s"] Cons.prems True nn ss by (simp add: add.assoc)
  next
    case False
    have "strides_scan (d # ds) ss acc \<noteq> HBI_OK"
    proof (cases "0 \<le> s \<and> in_i64 ((d - 1) * s)")
      case True
      then have "0 \<le> (d - 1) * s" using Cons.prems(1) by simp
      then have "wrap_i64 (INT64_MAX - (d - 1) * s) = INT64_MAX - (d - 1) * s"
        using True by (intro wrap_i64_id) (simp add: in_i64_def)
      then show ?thesis using False True by (simp add: ss w split: option.split)
    next
      case F: False
      then show ?thesis by (auto simp: ss w split: option.split)
    qed
    moreover have "\<not> ((\<forall>s \<in> set ss. 0 \<le> s) \<and> acc + max_offset (d # ds) ss < 2 ^ 63)"
      using False max_offset_nonneg [of ds ss'] Cons.prems(1) ss by auto
    ultimately show ?thesis by blast
  qed
qed

lemma span_loop_ok:
  assumes "\<forall>d \<in> set ds. 0 < d \<and> d < 2 ^ 63" and "length ss = length ds"
    and "0 \<le> acc" and "\<forall>s \<in> set ss. 0 \<le> s" and "acc + max_offset ds ss < 2 ^ 63"
  shows "span_loop ds ss acc = Inr (wrap_i64 (acc + max_offset ds ss + 1))"
  using assms
proof (induction ds arbitrary: ss acc)
  case Nil
  then show ?case by simp
next
  case (Cons d ds)
  obtain s ss' where ss: "ss = s # ss'" "length ss' = length ds"
    using Cons.prems(2) by (cases ss) auto
  have w: "wrap_i64 (d - 1) = d - 1"
    using Cons.prems(1) by (intro wrap_i64_id) (simp add: in_i64_def)
  have nn: "0 \<le> (d - 1) * s" "0 \<le> max_offset ds ss'"
    using Cons.prems ss max_offset_nonneg [of ds ss'] by auto
  then have iw: "in_i64 ((d - 1) * s)" "wrap_i64 (acc + (d - 1) * s) = acc + (d - 1) * s"
    using i64_term [OF nn(1) Cons.prems(3)] Cons.prems(5) ss by auto
  show ?case
    using Cons.IH [of ss' "acc + (d - 1) * s"] Cons.prems nn iw ss
    by (simp add: w add.assoc split: option.split)
qed

lemma shape_wf_dims_bound:
  assumes "shape_wf s"
  shows "\<forall>d \<in> set (used_dims s). 0 < d \<and> d < 2 ^ 63"
proof
  fix d assume d: "d \<in> set (used_dims s)"
  have pos: "\<forall>x \<in> set (used_dims s). 0 < x" using assms by (simp add: shape_wf_def)
  obtain xs ys where e: "used_dims s = xs @ d # ys" using d by (auto dest: split_list)
  have "0 < prod_list xs * prod_list ys"
    using pos e by (auto intro!: prod_list_pos mult_pos_pos)
  then have "1 \<le> prod_list xs * prod_list ys" by linarith
  moreover have "0 < d" using pos d by blast
  ultimately have "d \<le> d * (prod_list xs * prod_list ys)" by (intro mult_ge_left) simp_all
  also have "\<dots> = prod_list (used_dims s)" by (simp add: e)
  also have "\<dots> < 2 ^ 63" using assms by (simp add: shape_wf_def)
  finally show "0 < d \<and> d < 2 ^ 63" using \<open>0 < d\<close> by simp
qed

section \<open>Properties\<close>

text \<open>
  C22. For a valid shape, the strides \<open>hbi_strides_init_contiguous\<close> computes number the elements
  in row-major order without gaps: they are accepted by \<open>hbi_strides_is_contiguous\<close>, the element
  count fits, and the offset map sends the multi-indices of the shape bijectively onto
  \<open>[0, count)\<close>.\<close>

theorem contiguous_strides_bijective:
  assumes "hbi_shape_validate (Some s) = HBI_OK" and "length (dims s) = HBI_TENSOR_MAX_RANK"
  shows "\<exists>st n. hbi_strides_init_contiguous (Some s) = Inr st \<and>
      hbi_strides_is_contiguous (Some st) (Some s) \<and>
      hbi_shape_elem_count (Some s) = Inr n \<and>
      bij_betw (\<lambda>is. offset is (take (rank s) (stride st)))
        {is. in_box is (used_dims s)} {0..<n}"
proof -
  have wf: "shape_wf s" using assms shape_validate_OK by blast
  then have pos: "\<forall>d \<in> set (used_dims s). 0 < d" by (simp add: shape_wf_def)
  obtain st where st: "hbi_strides_init_contiguous (Some s) = Inr st"
    using strides_init_contiguous_wf [OF wf] by blast
  note facts = strides_init_contiguous_Inr [OF st assms(2)]
  have "bij_betw (\<lambda>is. offset is (cstr (used_dims s)))
      {is. in_box is (used_dims s)} {0..<prod_list (used_dims s)}"
    by (rule bij_betw_byWitness [where f' = "unrank (used_dims s)"])
      (use pos offset_cstr_bound unrank_in_box unrank_offset in auto)
  then show ?thesis
    using st facts is_contiguous_iff [OF wf] elem_count_wf [OF wf] by auto
qed

theorem contiguous_strides_bijective_witness:
  "\<exists>st n. hbi_strides_init_contiguous (Some \<lparr>rank = 2, dims = [2, 3, 0, 0, 0, 0, 0, 0]\<rparr>) = Inr st \<and>
      hbi_strides_is_contiguous (Some st) (Some \<lparr>rank = 2, dims = [2, 3, 0, 0, 0, 0, 0, 0]\<rparr>) \<and>
      hbi_shape_elem_count (Some \<lparr>rank = 2, dims = [2, 3, 0, 0, 0, 0, 0, 0]\<rparr>) = Inr n \<and>
      bij_betw (\<lambda>is. offset is (take 2 (stride st))) {is. in_box is [2, 3]} {0..<n}"
  using contiguous_strides_bijective [of "\<lparr>rank = 2, dims = [2, 3, 0, 0, 0, 0, 0, 0]\<rparr>"]
  by (simp add: hbi_shape_validate_def HBI_TENSOR_MAX_RANK_def mul_ovf_i64_def in_i64_def)

text \<open>
  C23. \<open>hbi_dtype_packed_nbytes\<close> succeeds exactly for a valid element type and a count whose bit
  size leaves room for rounding up in \<open>int64_t\<close>, and then returns the least number of bytes that
  holds that many elements; a negative count or an invalid type is an argument error and an
  oversized count is reported as corrupt.\<close>

theorem packed_nbytes_exact:
  "(case hbi_dtype_packed_nbytes dt count of
      Inr n \<Rightarrow> hbi_dtype_is_valid dt \<and> 0 \<le> count \<and>
        count * int (hbi_dtype_bits dt) \<le> 8 * int n \<and>
        8 * int n < count * int (hbi_dtype_bits dt) + 8 \<and> 8 * int n < 2 ^ 63
    | Inl e \<Rightarrow>
        if hbi_dtype_is_valid dt \<and> 0 \<le> count
        then e = HBI_ERR_CORRUPT \<and> INT64_MAX - 7 < count * int (hbi_dtype_bits dt)
        else e = HBI_ERR_INVALID_ARG)"
proof (cases "hbi_dtype_packed_nbytes dt count")
  case (Inr n)
  then have h: "0 \<le> count" "count * int (hbi_dtype_bits dt) \<le> INT64_MAX - 7"
    "n = nat ((count * int (hbi_dtype_bits dt) + 7) div 8)" "hbi_dtype_is_valid dt"
    by (auto simp: packed_nbytes_Inr)
  have "0 \<le> count * int (hbi_dtype_bits dt)" using h(1) by simp
  then have "int n = (count * int (hbi_dtype_bits dt) + 7) div 8" using h(3) by simp
  then show ?thesis using Inr h by auto
next
  case (Inl e)
  have "\<not> (hbi_dtype_is_valid dt \<and> 0 \<le> count \<and> count * int (hbi_dtype_bits dt) \<le> INT64_MAX - 7)"
    using Inl packed_nbytes_Inr [of dt count "nat ((count * int (hbi_dtype_bits dt) + 7) div 8)"] by auto
  then show ?thesis
    using Inl by (auto simp: hbi_dtype_packed_nbytes_def split: option.splits if_splits)
qed

lemma dim_from_right_pos: "shape_wf s \<Longrightarrow> 0 < dim_from_right s i"
proof (cases "i < rank s")
  case True
  assume wf: "shape_wf s"
  have "used_dims s ! (rank s - 1 - i) \<in> set (used_dims s)"
    using True wf by (intro nth_mem) (simp add: shape_wf_def)
  then show ?thesis using True wf by (simp add: shape_wf_def dim_from_right_def)
qed (simp add: dim_from_right_def)

lemma broadcast_dims:
  assumes "hbi_shape_broadcast (Some a) (Some b) = Inr c"
  shows "rank c = max (rank a) (rank b) \<and>
    (\<forall>i. i < rank c \<longrightarrow> dim_from_right c i = max (dim_from_right a i) (dim_from_right b i))"
  using assms by (auto simp: hbi_shape_broadcast_def Let_def dim_from_right_def [of c] nth_append max_def
      split: if_splits)

text \<open>
  C24. Broadcasting valid shapes is the NumPy rule: \<open>hbi_shape_broadcast\<close> fails exactly when some
  right-aligned pair of dimensions differs with neither equal to 1; otherwise the result has the
  larger rank and each of its dimensions is the one of the operand that is not 1, in either
  order of the arguments.\<close>

theorem broadcast_rule:
  assumes "hbi_shape_validate (Some a) = HBI_OK" and "length (dims a) = HBI_TENSOR_MAX_RANK"
    and "hbi_shape_validate (Some b) = HBI_OK" and "length (dims b) = HBI_TENSOR_MAX_RANK"
  shows "case hbi_shape_broadcast (Some a) (Some b) of
      Inl e \<Rightarrow> e = HBI_ERR_INVALID_ARG \<and>
        (\<exists>i. dim_from_right a i \<noteq> dim_from_right b i \<and> dim_from_right a i \<noteq> 1 \<and> dim_from_right b i \<noteq> 1)
    | Inr c \<Rightarrow> rank c = max (rank a) (rank b) \<and> length (dims c) = HBI_TENSOR_MAX_RANK \<and>
        hbi_shape_broadcast (Some b) (Some a) = Inr c \<and>
        (\<forall>i. dim_from_right c i = (if dim_from_right a i = 1 then dim_from_right b i else dim_from_right a i) \<and>
             dim_from_right b i \<in> {1, dim_from_right c i})"
proof (cases "hbi_shape_broadcast (Some a) (Some b)")
  case (Inl e)
  then show ?thesis
    by (auto simp: hbi_shape_broadcast_def hbi_shape_broadcast_compatible_def list_all_iff Let_def
        split: if_splits)
next
  case (Inr c)
  have wf: "shape_wf a" "shape_wf b" using assms shape_validate_OK by auto
  have comp: "dim_from_right a i = dim_from_right b i \<or> dim_from_right a i = 1 \<or> dim_from_right b i = 1" for i
  proof (cases "i < max (rank a) (rank b)")
    case True
    then show ?thesis using Inr
      by (auto simp: hbi_shape_broadcast_def hbi_shape_broadcast_compatible_def list_all_iff split: if_splits)
  qed (auto simp: dim_from_right_def)
  have len: "length (dims c) = HBI_TENSOR_MAX_RANK"
    using Inr wf by (auto simp: hbi_shape_broadcast_def Let_def shape_wf_def split: if_splits)
  have sym: "hbi_shape_broadcast (Some b) (Some a) = Inr c"
    using Inr by (auto simp: hbi_shape_broadcast_def hbi_shape_broadcast_compatible_def list_all_iff Let_def
        max.commute split: if_splits)
  have dim: "dim_from_right c i = (if dim_from_right a i = 1 then dim_from_right b i else dim_from_right a i) \<and>
      dim_from_right b i \<in> {1, dim_from_right c i}" for i
  proof (cases "i < rank c")
    case True
    then show ?thesis
      using broadcast_dims [OF Inr] comp [of i] dim_from_right_pos [OF wf(1), of i]
        dim_from_right_pos [OF wf(2), of i] by (auto simp: max_def)
  next
    case False
    then have "rank a \<le> i" "rank b \<le> i" "rank c \<le> i" using broadcast_dims [OF Inr] by auto
    then show ?thesis by (simp add: dim_from_right_def)
  qed
  show ?thesis unfolding Inr sum.case using broadcast_dims [OF Inr] len sym dim by blast
qed

theorem broadcast_rule_witness:
  "hbi_shape_broadcast (Some \<lparr>rank = 2, dims = [4, 1, 0, 0, 0, 0, 0, 0]\<rparr>)
     (Some \<lparr>rank = 1, dims = [3, 0, 0, 0, 0, 0, 0, 0]\<rparr>) = Inr \<lparr>rank = 2, dims = [4, 3, 0, 0, 0, 0, 0, 0]\<rparr> \<and>
   hbi_shape_broadcast (Some \<lparr>rank = 1, dims = [3, 0, 0, 0, 0, 0, 0, 0]\<rparr>)
     (Some \<lparr>rank = 2, dims = [4, 1, 0, 0, 0, 0, 0, 0]\<rparr>) = Inr \<lparr>rank = 2, dims = [4, 3, 0, 0, 0, 0, 0, 0]\<rparr>"
proof -
  let ?a = "\<lparr>rank = 2, dims = [4, 1, 0, 0, 0, 0, 0, 0]\<rparr> :: hbi_shape"
  let ?b = "\<lparr>rank = 1, dims = [3, 0, 0, 0, 0, 0, 0, 0]\<rparr> :: hbi_shape"
  have v: "hbi_shape_validate (Some ?a) = HBI_OK" "hbi_shape_validate (Some ?b) = HBI_OK" by code_simp+
  have c: "hbi_shape_broadcast (Some ?a) (Some ?b) = Inr \<lparr>rank = 2, dims = [4, 3, 0, 0, 0, 0, 0, 0]\<rparr>"
    by code_simp
  show ?thesis
    using broadcast_rule [of ?a ?b] v c by (simp add: HBI_TENSOR_MAX_RANK_def)
qed

end
