(* ===== verification/Tensor.thy ===== *)
theory Tensor
  imports Tensor_Shape
begin

text \<open>
  Second half of the \<open>tensor\<close> module (src/src/tensor/tensor.h, tensor.c): the tensor record, its
  lifecycle (alloc, wrap, destroy, clone, copy, move), the zero-copy views, quantization metadata
  and the validation sweep.

  A buffer pointer is a byte address of type \<open>nat\<close> with 0 for NULL, and the bytes behind it live
  in an explicit memory \<open>nat \<Rightarrow> u8\<close> that the copying operations take and return. The platform's
  aligned allocator is a parameter: an operation that allocates takes the address
  \<open>hbi_aligned_alloc\<close> returned (0 when it failed). Destroying returns the address handed to
  \<open>hbi_aligned_free\<close>, if any.
\<close>

section \<open>Data\<close>

datatype hbi_tensor_device = HBI_TENSOR_DEVICE_CPU | HBI_TENSOR_DEVICE_RESERVED_1

datatype hbi_tensor_ownership =
  HBI_TENSOR_OWNED | HBI_TENSOR_BORROWED | HBI_TENSOR_VIEW | HBI_TENSOR_MMAP

datatype hbi_quant_scheme =
    HBI_QUANT_SCHEME_NONE | HBI_QUANT_SCHEME_AFFINE_ASYM | HBI_QUANT_SCHEME_AFFINE_SYM
  | HBI_QUANT_SCHEME_RESERVED_1

datatype hbi_nibble_order = HBI_NIBBLE_LOW_FIRST | HBI_NIBBLE_HIGH_FIRST

record hbi_quant_meta =
  scheme :: hbi_quant_scheme
  group_size :: int
  group_axis :: nat
  scales :: nat
  scale_dtype :: hbi_dtype
  num_scales :: nat
  zero_points :: nat
  zp_dtype :: hbi_dtype
  num_zero_points :: nat
  offset_binary :: bool
  nibble_order :: hbi_nibble_order

record hbi_tensor =
  dtype :: hbi_dtype
  shape :: hbi_shape
  strides :: hbi_strides
  data :: nat
  nbytes :: nat
  align :: nat
  ownership :: hbi_tensor_ownership
  device :: hbi_tensor_device
  read_only :: bool
  contiguous :: bool
  quant :: hbi_quant_meta

type_synonym memory = "nat \<Rightarrow> u8"

text \<open>The records after \<open>memset(..., 0, sizeof ...)\<close>.\<close>

definition zero_quant :: hbi_quant_meta where
  "zero_quant = \<lparr>scheme = HBI_QUANT_SCHEME_NONE, group_size = 0, group_axis = 0, scales = 0,
     scale_dtype = HBI_DTYPE_INVALID, num_scales = 0, zero_points = 0, zp_dtype = HBI_DTYPE_INVALID,
     num_zero_points = 0, offset_binary = False, nibble_order = HBI_NIBBLE_LOW_FIRST\<rparr>"

definition zero_tensor :: hbi_tensor where
  "zero_tensor = \<lparr>dtype = HBI_DTYPE_INVALID,
     shape = \<lparr>rank = 0, dims = replicate HBI_TENSOR_MAX_RANK 0\<rparr>,
     strides = \<lparr>st_rank = 0, stride = replicate HBI_TENSOR_MAX_RANK 0\<rparr>,
     data = 0, nbytes = 0, align = 0, ownership = HBI_TENSOR_OWNED,
     device = HBI_TENSOR_DEVICE_CPU, read_only = False, contiguous = False, quant = zero_quant\<rparr>"

definition HBI_TENSOR_DEFAULT_ALIGN :: nat where
  "HBI_TENSOR_DEFAULT_ALIGN = 64"

section \<open>Layout helpers\<close>

definition refresh_layout :: "hbi_tensor \<Rightarrow> hbi_tensor outcome" where
  "refresh_layout t =
     (let c = hbi_strides_is_contiguous (Some (strides t)) (Some (shape t)) in
      rbind (span_elems (shape t) (strides t)) (\<lambda>span.
      rbind (hbi_dtype_packed_nbytes (dtype t) span) (\<lambda>n.
      Inr (t\<lparr>contiguous := c, nbytes := n\<rparr>))))"

text \<open>C's truncating division by 8, and adding a signed byte offset to a pointer.\<close>

definition quot8 :: "int \<Rightarrow> int" where
  "quot8 x = (if x < 0 then - ((- x) div 8) else x div 8)"

definition addr_add :: "nat \<Rightarrow> int \<Rightarrow> nat" where
  "addr_add p off = nat ((int p + off) mod 2 ^ 64)"

fun elems_loop :: "int list \<Rightarrow> int list \<Rightarrow> int \<Rightarrow> int" where
  "elems_loop (i # is) (s # ss) elems = elems_loop is ss (wrap_i64 (elems + wrap_i64 (i * s)))"
| "elems_loop _ _ elems = elems"

definition elem_byte_offset :: "hbi_strides \<Rightarrow> int list \<Rightarrow> nat \<Rightarrow> nat \<Rightarrow> int" where
  "elem_byte_offset st idx r bits =
     quot8 (wrap_i64 (elems_loop (take r idx) (take r (stride st)) 0 * int bits))"

definition memcpy :: "nat \<Rightarrow> nat \<Rightarrow> nat \<Rightarrow> memory \<Rightarrow> memory" where
  "memcpy d s n m = (\<lambda>a. if d \<le> a \<and> a < d + n then m (s + (a - d)) else m a)"

definition memset0 :: "nat \<Rightarrow> nat \<Rightarrow> memory \<Rightarrow> memory" where
  "memset0 d n m = (\<lambda>a. if d \<le> a \<and> a < d + n then 0 else m a)"

text \<open>The odometer of \<open>strided_copy_bytes\<close>, on the index reversed (last axis first).\<close>

fun odometer :: "int list \<Rightarrow> int list \<Rightarrow> int list" where
  "odometer (i # ris) (d # rds) = (if i + 1 < d then (i + 1) # ris else 0 # odometer ris rds)"
| "odometer ris _ = ris"

fun copy_loop :: "hbi_tensor \<Rightarrow> hbi_tensor \<Rightarrow> nat \<Rightarrow> nat \<Rightarrow> int list \<Rightarrow> memory \<Rightarrow> memory" where
  "copy_loop src dst eb 0 idx m = m"
| "copy_loop src dst eb (Suc n) idx m =
     (let r = rank (shape src);
          so = elem_byte_offset (strides src) idx r (eb * 8);
          doff = elem_byte_offset (strides dst) idx r (eb * 8);
          m' = memcpy (addr_add (data dst) doff) (addr_add (data src) so) eb m
      in copy_loop src dst eb n (rev (odometer (rev idx) (rev (used_dims (shape src))))) m')"

definition strided_copy_bytes :: "hbi_tensor \<Rightarrow> hbi_tensor \<Rightarrow> nat \<Rightarrow> memory \<Rightarrow> memory" where
  "strided_copy_bytes src dst eb m =
     (let total = foldl (\<lambda>acc d. wrap_i64 (acc * d)) 1 (used_dims (shape src)) in
      copy_loop src dst eb (nat total) (replicate (rank (shape src)) 0) m)"

section \<open>Lifecycle\<close>

definition tensor_alloc_impl ::
  "hbi_dtype \<Rightarrow> hbi_shape ptr \<Rightarrow> nat \<Rightarrow> nat \<Rightarrow> memory \<Rightarrow> (hbi_tensor \<times> memory) outcome" where
  "tensor_alloc_impl dt s alignment buf m =
     (case s of
        None \<Rightarrow> Inl HBI_ERR_INVALID_ARG
      | Some sh \<Rightarrow>
          if \<not> hbi_dtype_is_valid dt then Inl HBI_ERR_INVALID_ARG
          else if hbi_dtype_is_reserved dt then Inl HBI_ERR_UNSUPPORTED
          else if hbi_shape_validate s \<noteq> HBI_OK then Inl (hbi_shape_validate s)
          else if \<not> hbi_is_pow2 (of_nat alignment) \<or> alignment < 8 \<or> alignment < hbi_dtype_align dt
          then Inl HBI_ERR_INVALID_ARG
          else
            rbind (hbi_shape_elem_count s) (\<lambda>count.
            rbind (hbi_dtype_packed_nbytes dt count) (\<lambda>bytes.
            rbind (hbi_strides_init_contiguous s) (\<lambda>st.
            if buf = 0 then Inl HBI_ERR_OOM
            else Inr (zero_tensor\<lparr>dtype := dt, shape := sh, strides := st, data := buf,
                        nbytes := bytes, align := alignment, ownership := HBI_TENSOR_OWNED,
                        device := HBI_TENSOR_DEVICE_CPU, read_only := False, contiguous := True\<rparr>,
                      memset0 buf bytes m)))))"

definition hbi_tensor_alloc ::
  "hbi_dtype \<Rightarrow> hbi_shape ptr \<Rightarrow> nat \<Rightarrow> memory \<Rightarrow> (hbi_tensor \<times> memory) outcome" where
  "hbi_tensor_alloc dt s buf m = tensor_alloc_impl dt s HBI_TENSOR_DEFAULT_ALIGN buf m"

definition hbi_tensor_alloc_aligned ::
  "hbi_dtype \<Rightarrow> hbi_shape ptr \<Rightarrow> nat \<Rightarrow> nat \<Rightarrow> memory \<Rightarrow> (hbi_tensor \<times> memory) outcome" where
  "hbi_tensor_alloc_aligned dt s alignment buf m = tensor_alloc_impl dt s alignment buf m"

definition tensor_wrap_impl ::
  "hbi_dtype \<Rightarrow> hbi_shape ptr \<Rightarrow> nat \<Rightarrow> nat \<Rightarrow> bool \<Rightarrow> hbi_tensor outcome" where
  "tensor_wrap_impl dt s p n ro =
     (case s of
        None \<Rightarrow> Inl HBI_ERR_INVALID_ARG
      | Some sh \<Rightarrow>
          if p = 0 then Inl HBI_ERR_INVALID_ARG
          else if \<not> hbi_dtype_is_valid dt \<or> hbi_dtype_is_reserved dt then Inl HBI_ERR_INVALID_ARG
          else if hbi_shape_validate s \<noteq> HBI_OK then Inl (hbi_shape_validate s)
          else
            let al = hbi_dtype_align dt in
            if al \<noteq> 0 \<and> p mod al \<noteq> 0 then Inl HBI_ERR_INVALID_ARG
            else
              rbind (hbi_shape_elem_count s) (\<lambda>count.
              rbind (hbi_dtype_packed_nbytes dt count) (\<lambda>need.
              if n < need then Inl HBI_ERR_INVALID_ARG
              else rbind (hbi_strides_init_contiguous s) (\<lambda>st.
                Inr (zero_tensor\<lparr>dtype := dt, shape := sh, strides := st, data := p, nbytes := n,
                       align := (if al = 0 then 1 else al), ownership := HBI_TENSOR_BORROWED,
                       device := HBI_TENSOR_DEVICE_CPU, read_only := ro, contiguous := True\<rparr>)))))"

definition hbi_tensor_wrap :: "hbi_dtype \<Rightarrow> hbi_shape ptr \<Rightarrow> nat \<Rightarrow> nat \<Rightarrow> hbi_tensor outcome" where
  "hbi_tensor_wrap dt s p n = tensor_wrap_impl dt s p n False"

definition hbi_tensor_wrap_readonly ::
  "hbi_dtype \<Rightarrow> hbi_shape ptr \<Rightarrow> nat \<Rightarrow> nat \<Rightarrow> hbi_tensor outcome" where
  "hbi_tensor_wrap_readonly dt s p n = tensor_wrap_impl dt s p n True"

text \<open>Returns the addresses freed and the zeroed struct.\<close>

definition hbi_tensor_destroy :: "hbi_tensor ptr \<Rightarrow> nat list \<times> hbi_tensor ptr" where
  "hbi_tensor_destroy t =
     (case t of
        None \<Rightarrow> ([], None)
      | Some t \<Rightarrow>
          (if ownership t = HBI_TENSOR_OWNED \<and> data t \<noteq> 0 then [data t] else [], Some zero_tensor))"

text \<open>
  The first component lists the buffers freed: on the unsupported path the fresh buffer is
  destroyed again before the error is returned.
\<close>

definition hbi_tensor_clone ::
  "hbi_tensor ptr \<Rightarrow> nat \<Rightarrow> memory \<Rightarrow> nat list \<times> (hbi_tensor \<times> memory) outcome" where
  "hbi_tensor_clone src buf m =
     (case src of
        None \<Rightarrow> ([], Inl HBI_ERR_INVALID_ARG)
      | Some src \<Rightarrow>
          if data src = 0 then ([], Inl HBI_ERR_INVALID_ARG)
          else case hbi_tensor_alloc (dtype src) (Some (shape src)) buf m of
            Inl st \<Rightarrow> ([], Inl st)
          | Inr (out, m1) \<Rightarrow>
              if contiguous src then
                ([], Inr (out\<lparr>quant := quant src\<rparr>, memcpy (data out) (data src) (nbytes out) m1))
              else if hbi_dtype_is_sub_byte (dtype src) then
                (fst (hbi_tensor_destroy (Some out)), Inl HBI_ERR_UNSUPPORTED)
              else
                ([], Inr (out\<lparr>quant := quant src\<rparr>,
                          strided_copy_bytes src out (hbi_dtype_bits (dtype src) div 8) m1)))"

definition hbi_tensor_copy_into ::
  "hbi_tensor ptr \<Rightarrow> hbi_tensor ptr \<Rightarrow> memory \<Rightarrow> memory outcome" where
  "hbi_tensor_copy_into src dst m =
     (case (src, dst) of
        (Some src, Some dst) \<Rightarrow>
          if data src = 0 \<or> data dst = 0 then Inl HBI_ERR_INVALID_ARG
          else if read_only dst then Inl HBI_ERR_STATE
          else if dtype src \<noteq> dtype dst \<or> \<not> hbi_shape_equal (Some (shape src)) (Some (shape dst))
          then Inl HBI_ERR_INVALID_ARG
          else if contiguous src \<and> contiguous dst then
            rbind (hbi_shape_elem_count (Some (shape src))) (\<lambda>count.
            rbind (hbi_dtype_packed_nbytes (dtype src) count) (\<lambda>bytes.
            if nbytes dst < bytes then Inl HBI_ERR_INVALID_ARG
            else Inr (memcpy (data dst) (data src) bytes m)))
          else if hbi_dtype_is_sub_byte (dtype src) then Inl HBI_ERR_UNSUPPORTED
          else Inr (strided_copy_bytes src dst (hbi_dtype_bits (dtype src) div 8) m)
      | _ \<Rightarrow> Inl HBI_ERR_INVALID_ARG)"

text \<open>Returns the new \<open>*dst\<close> and \<open>*src\<close>.\<close>

definition hbi_tensor_move ::
  "hbi_tensor ptr \<Rightarrow> hbi_tensor ptr \<Rightarrow> (hbi_tensor \<times> hbi_tensor) outcome" where
  "hbi_tensor_move dst src =
     (case (dst, src) of
        (Some _, Some src) \<Rightarrow> Inr (src, zero_tensor)
      | _ \<Rightarrow> Inl HBI_ERR_INVALID_ARG)"

section \<open>Accessors\<close>

definition hbi_tensor_dtype :: "hbi_tensor ptr \<Rightarrow> hbi_dtype" where
  "hbi_tensor_dtype t = (case t of None \<Rightarrow> HBI_DTYPE_INVALID | Some t \<Rightarrow> dtype t)"

definition hbi_tensor_shape :: "hbi_tensor ptr \<Rightarrow> hbi_shape ptr" where
  "hbi_tensor_shape t = map_option shape t"

definition hbi_tensor_strides :: "hbi_tensor ptr \<Rightarrow> hbi_strides ptr" where
  "hbi_tensor_strides t = map_option strides t"

definition hbi_tensor_nbytes :: "hbi_tensor ptr \<Rightarrow> nat" where
  "hbi_tensor_nbytes t = (case t of None \<Rightarrow> 0 | Some t \<Rightarrow> nbytes t)"

definition hbi_tensor_cdata :: "hbi_tensor ptr \<Rightarrow> nat" where
  "hbi_tensor_cdata t = (case t of None \<Rightarrow> 0 | Some t \<Rightarrow> data t)"

definition hbi_tensor_data_mut :: "hbi_tensor ptr \<Rightarrow> nat" where
  "hbi_tensor_data_mut t =
     (case t of None \<Rightarrow> 0 | Some t \<Rightarrow> if read_only t then 0 else data t)"

definition hbi_tensor_is_contiguous :: "hbi_tensor ptr \<Rightarrow> bool" where
  "hbi_tensor_is_contiguous t = (case t of None \<Rightarrow> False | Some t \<Rightarrow> contiguous t)"

definition hbi_tensor_is_readonly :: "hbi_tensor ptr \<Rightarrow> bool" where
  "hbi_tensor_is_readonly t = (case t of None \<Rightarrow> False | Some t \<Rightarrow> read_only t)"

definition hbi_tensor_owns_data :: "hbi_tensor ptr \<Rightarrow> bool" where
  "hbi_tensor_owns_data t =
     (case t of None \<Rightarrow> False | Some t \<Rightarrow> ownership t = HBI_TENSOR_OWNED \<and> data t \<noteq> 0)"

definition hbi_tensor_device_of :: "hbi_tensor ptr \<Rightarrow> hbi_tensor_device" where
  "hbi_tensor_device_of t = (case t of None \<Rightarrow> HBI_TENSOR_DEVICE_CPU | Some t \<Rightarrow> device t)"

section \<open>Views\<close>

definition view_seed :: "hbi_tensor \<Rightarrow> hbi_tensor" where
  "view_seed parent = parent\<lparr>ownership := HBI_TENSOR_VIEW\<rparr>"

definition hbi_tensor_view :: "hbi_tensor ptr \<Rightarrow> hbi_tensor outcome" where
  "hbi_tensor_view parent =
     (case parent of None \<Rightarrow> Inl HBI_ERR_INVALID_ARG | Some p \<Rightarrow> Inr (view_seed p))"

definition hbi_tensor_reshape :: "hbi_tensor ptr \<Rightarrow> hbi_shape ptr \<Rightarrow> hbi_tensor outcome" where
  "hbi_tensor_reshape parent new_shape =
     (case (parent, new_shape) of
        (Some p, Some ns) \<Rightarrow>
          if \<not> contiguous p then Inl HBI_ERR_UNSUPPORTED
          else if hbi_shape_validate (Some ns) \<noteq> HBI_OK then Inl (hbi_shape_validate (Some ns))
          else
            rbind (hbi_shape_elem_count (Some (shape p))) (\<lambda>old_n.
            rbind (hbi_shape_elem_count (Some ns)) (\<lambda>new_n.
            if old_n \<noteq> new_n then Inl HBI_ERR_INVALID_ARG
            else rbind (hbi_strides_init_contiguous (Some ns)) (\<lambda>st.
              refresh_layout ((view_seed p)\<lparr>shape := ns, strides := st\<rparr>))))
      | _ \<Rightarrow> Inl HBI_ERR_INVALID_ARG)"

text \<open>
  The guard that a sub-byte view starts on a byte, and the common tail of slice and subtensor:
  move \<open>data\<close> by the element offset and drop to the element type's alignment.
\<close>

definition sub_byte_misaligned :: "hbi_dtype \<Rightarrow> int \<Rightarrow> bool" where
  "sub_byte_misaligned dt elem_off \<longleftrightarrow>
     hbi_dtype_is_sub_byte dt \<and> wrap_i64 (elem_off * int (hbi_dtype_bits dt)) mod 8 \<noteq> 0"

definition shifted_view :: "hbi_tensor \<Rightarrow> int list \<Rightarrow> int \<Rightarrow> hbi_tensor outcome" where
  "shifted_view p ds elem_off =
     refresh_layout ((view_seed p)\<lparr>
       shape := (shape p)\<lparr>dims := ds\<rparr>,
       data := addr_add (data p) (quot8 (wrap_i64 (elem_off * int (hbi_dtype_bits (dtype p))))),
       align := (if hbi_dtype_align (dtype p) = 0 then 1 else hbi_dtype_align (dtype p))\<rparr>)"

definition hbi_tensor_slice :: "hbi_tensor ptr \<Rightarrow> nat \<Rightarrow> int \<Rightarrow> int \<Rightarrow> hbi_tensor outcome" where
  "hbi_tensor_slice parent axis start count =
     (case parent of
        None \<Rightarrow> Inl HBI_ERR_INVALID_ARG
      | Some p \<Rightarrow>
          if axis \<ge> rank (shape p) then Inl HBI_ERR_INVALID_ARG
          else
            let dim = dims (shape p) ! axis in
            if start < 0 \<or> count \<le> 0 \<or> wrap_i64 (start + count) > dim then Inl HBI_ERR_INVALID_ARG
            else
              let elem_off = wrap_i64 (start * stride (strides p) ! axis) in
              if sub_byte_misaligned (dtype p) elem_off then Inl HBI_ERR_UNSUPPORTED
              else shifted_view p ((dims (shape p))[axis := count]) elem_off)"

fun subtensor_scan :: "int list \<Rightarrow> int list \<Rightarrow> int list \<Rightarrow> int list \<Rightarrow> int \<Rightarrow> int outcome" where
  "subtensor_scan (d # ds) (s # ss) (st # sts) (c # cs) off =
     (if st < 0 \<or> c \<le> 0 \<or> wrap_i64 (st + c) > d then Inl HBI_ERR_INVALID_ARG
      else subtensor_scan ds ss sts cs (wrap_i64 (off + wrap_i64 (st * s))))"
| "subtensor_scan _ _ _ _ off = Inr off"

definition hbi_tensor_subtensor ::
  "hbi_tensor ptr \<Rightarrow> int list ptr \<Rightarrow> int list ptr \<Rightarrow> nat \<Rightarrow> hbi_tensor outcome" where
  "hbi_tensor_subtensor parent starts counts n =
     (case (parent, starts, counts) of
        (Some p, Some sts, Some cs) \<Rightarrow>
          if n > rank (shape p) then Inl HBI_ERR_INVALID_ARG
          else
            rbind (subtensor_scan (dims (shape p)) (stride (strides p)) (take n sts) (take n cs) 0)
              (\<lambda>elem_off.
                if sub_byte_misaligned (dtype p) elem_off then Inl HBI_ERR_UNSUPPORTED
                else shifted_view p (take n cs @ drop n (dims (shape p))) elem_off)
      | _ \<Rightarrow> Inl HBI_ERR_INVALID_ARG)"

definition swap_nth :: "nat \<Rightarrow> nat \<Rightarrow> 'a list \<Rightarrow> 'a list" where
  "swap_nth a b xs = xs[a := xs ! b, b := xs ! a]"

definition hbi_tensor_transpose :: "hbi_tensor ptr \<Rightarrow> nat \<Rightarrow> nat \<Rightarrow> hbi_tensor outcome" where
  "hbi_tensor_transpose parent axis_a axis_b =
     (case parent of
        None \<Rightarrow> Inl HBI_ERR_INVALID_ARG
      | Some p \<Rightarrow>
          if axis_a \<ge> rank (shape p) \<or> axis_b \<ge> rank (shape p) then Inl HBI_ERR_INVALID_ARG
          else if hbi_dtype_is_sub_byte (dtype p) \<and> axis_a \<noteq> axis_b then Inl HBI_ERR_UNSUPPORTED
          else refresh_layout ((view_seed p)\<lparr>
            shape := (shape p)\<lparr>dims := swap_nth axis_a axis_b (dims (shape p))\<rparr>,
            strides := (strides p)\<lparr>stride := swap_nth axis_a axis_b (stride (strides p))\<rparr>\<rparr>))"

text \<open>The bijection check of \<open>hbi_tensor_permute\<close>; the result is its \<open>identity\<close> flag.\<close>

fun perm_scan :: "nat \<Rightarrow> nat list \<Rightarrow> nat \<Rightarrow> bool list \<Rightarrow> bool \<Rightarrow> bool outcome" where
  "perm_scan n [] i seen identity = Inr identity"
| "perm_scan n (q # qs) i seen identity =
     (if q \<ge> n \<or> seen ! q then Inl HBI_ERR_INVALID_ARG
      else perm_scan n qs (Suc i) (seen[q := True]) (if q \<noteq> i then False else identity))"

definition hbi_tensor_permute :: "hbi_tensor ptr \<Rightarrow> nat list ptr \<Rightarrow> nat \<Rightarrow> hbi_tensor outcome" where
  "hbi_tensor_permute parent perm n =
     (case (parent, perm) of
        (Some p, Some perm) \<Rightarrow>
          if n \<noteq> rank (shape p) then Inl HBI_ERR_INVALID_ARG
          else
            rbind (perm_scan n (take n perm) 0 (replicate HBI_TENSOR_MAX_RANK False) True)
              (\<lambda>identity.
                if hbi_dtype_is_sub_byte (dtype p) \<and> \<not> identity then Inl HBI_ERR_UNSUPPORTED
                else refresh_layout ((view_seed p)\<lparr>
                  shape := (shape p)\<lparr>dims := map (\<lambda>q. dims (shape p) ! q) (take n perm)
                                              @ drop n (dims (shape p))\<rparr>,
                  strides := (strides p)\<lparr>stride := map (\<lambda>q. stride (strides p) ! q) (take n perm)
                                              @ drop n (stride (strides p))\<rparr>\<rparr>))
      | _ \<Rightarrow> Inl HBI_ERR_INVALID_ARG)"

definition hbi_tensor_squeeze :: "hbi_tensor ptr \<Rightarrow> hbi_tensor outcome" where
  "hbi_tensor_squeeze parent =
     (case parent of
        None \<Rightarrow> Inl HBI_ERR_INVALID_ARG
      | Some p \<Rightarrow>
          let kept = filter (\<lambda>(d, s). d \<noteq> 1)
                       (zip (used_dims (shape p)) (take (rank (shape p)) (stride (strides p))));
              w = length kept
          in refresh_layout ((view_seed p)\<lparr>
               shape := \<lparr>rank = w, dims = map fst kept @ replicate (HBI_TENSOR_MAX_RANK - w) 0\<rparr>,
               strides := \<lparr>st_rank = w,
                           stride = map snd kept @ replicate (HBI_TENSOR_MAX_RANK - w) 0\<rparr>\<rparr>))"

definition hbi_tensor_unsqueeze :: "hbi_tensor ptr \<Rightarrow> nat \<Rightarrow> hbi_tensor outcome" where
  "hbi_tensor_unsqueeze parent axis =
     (case parent of
        None \<Rightarrow> Inl HBI_ERR_INVALID_ARG
      | Some p \<Rightarrow>
          let r = rank (shape p); ds = dims (shape p); ss = stride (strides p); nr = r + 1 in
          if axis > r then Inl HBI_ERR_INVALID_ARG
          else if nr > HBI_TENSOR_MAX_RANK then Inl HBI_ERR_INVALID_ARG
          else refresh_layout ((view_seed p)\<lparr>
            shape := \<lparr>rank = nr,
                      dims = map (\<lambda>i. if i < axis then ds ! i else if i = axis then 1 else ds ! (i - 1))
                               [0..<nr] @ drop nr ds\<rparr>,
            strides := \<lparr>st_rank = nr,
                        stride = map (\<lambda>i. if i < axis then ss ! i
                                         else if i = axis then (if axis < r then ss ! axis else 1)
                                         else ss ! (i - 1)) [0..<nr] @ drop nr ss\<rparr>\<rparr>))"

section \<open>Quantization metadata\<close>

definition hbi_quant_meta_init :: "hbi_quant_scheme \<Rightarrow> int \<Rightarrow> nat \<Rightarrow> hbi_quant_meta outcome" where
  "hbi_quant_meta_init sc gs ga =
     Inr (zero_quant\<lparr>scheme := sc, group_size := gs, group_axis := ga, scale_dtype := HBI_DTYPE_FP32,
            zp_dtype := HBI_DTYPE_INT8, nibble_order := HBI_NIBBLE_LOW_FIRST\<rparr>)"

definition hbi_quant_meta_set_scales ::
  "hbi_quant_meta ptr \<Rightarrow> nat \<Rightarrow> hbi_dtype \<Rightarrow> nat \<Rightarrow> hbi_quant_meta outcome" where
  "hbi_quant_meta_set_scales q p dt n =
     (case q of
        None \<Rightarrow> Inl HBI_ERR_INVALID_ARG
      | Some q \<Rightarrow> Inr (q\<lparr>scales := p, scale_dtype := dt, num_scales := n\<rparr>))"

definition hbi_quant_meta_set_zero_points ::
  "hbi_quant_meta ptr \<Rightarrow> nat \<Rightarrow> hbi_dtype \<Rightarrow> nat \<Rightarrow> hbi_quant_meta outcome" where
  "hbi_quant_meta_set_zero_points q p dt n =
     (case q of
        None \<Rightarrow> Inl HBI_ERR_INVALID_ARG
      | Some q \<Rightarrow> Inr (q\<lparr>zero_points := p, zp_dtype := dt, num_zero_points := n\<rparr>))"

definition hbi_quant_meta_set_packing ::
  "hbi_quant_meta ptr \<Rightarrow> bool \<Rightarrow> hbi_nibble_order \<Rightarrow> hbi_quant_meta outcome" where
  "hbi_quant_meta_set_packing q ob ord =
     (case q of
        None \<Rightarrow> Inl HBI_ERR_INVALID_ARG
      | Some q \<Rightarrow> Inr (q\<lparr>offset_binary := ob, nibble_order := ord\<rparr>))"

definition hbi_quant_meta_validate :: "hbi_quant_meta ptr \<Rightarrow> hbi_tensor ptr \<Rightarrow> hbi_status" where
  "hbi_quant_meta_validate q t =
     (case (q, t) of
        (Some q, Some t) \<Rightarrow>
          if scheme q = HBI_QUANT_SCHEME_NONE then HBI_OK
          else if dtype t \<notin> {HBI_DTYPE_INT8, HBI_DTYPE_INT4, HBI_DTYPE_INT2, HBI_DTYPE_NF4,
                             HBI_DTYPE_MXFP4}
          then HBI_ERR_INVALID_ARG
          else if group_axis q \<ge> rank (shape t) \<and> rank (shape t) \<noteq> 0 then HBI_ERR_INVALID_ARG
          else if group_size q > 0 \<and> rank (shape t) \<noteq> 0 \<and>
                  dims (shape t) ! group_axis q mod group_size q \<noteq> 0
          then HBI_ERR_INVALID_ARG
          else if scheme q = HBI_QUANT_SCHEME_AFFINE_ASYM \<and> zero_points q = 0
          then HBI_ERR_INVALID_ARG
          else if scheme q = HBI_QUANT_SCHEME_AFFINE_SYM \<and> zero_points q \<noteq> 0
          then HBI_ERR_INVALID_ARG
          else HBI_OK
      | _ \<Rightarrow> HBI_ERR_INVALID_ARG)"

definition hbi_tensor_attach_quant :: "hbi_tensor ptr \<Rightarrow> hbi_quant_meta ptr \<Rightarrow> hbi_tensor outcome" where
  "hbi_tensor_attach_quant t q =
     (case (t, q) of
        (Some t, Some q) \<Rightarrow>
          let st = hbi_quant_meta_validate (Some q) (Some t) in
          if st \<noteq> HBI_OK then Inl st else Inr (t\<lparr>quant := q\<rparr>)
      | _ \<Rightarrow> Inl HBI_ERR_INVALID_ARG)"

definition hbi_tensor_quant :: "hbi_tensor ptr \<Rightarrow> hbi_quant_meta ptr" where
  "hbi_tensor_quant t =
     (case t of
        None \<Rightarrow> None
      | Some t \<Rightarrow> if scheme (quant t) = HBI_QUANT_SCHEME_NONE then None else Some (quant t))"

definition hbi_tensor_is_quantized :: "hbi_tensor ptr \<Rightarrow> bool" where
  "hbi_tensor_is_quantized t =
     (case t of None \<Rightarrow> False | Some t \<Rightarrow> scheme (quant t) \<noteq> HBI_QUANT_SCHEME_NONE)"

section \<open>Validation\<close>

definition hbi_tensor_is_aligned :: "hbi_tensor ptr \<Rightarrow> nat \<Rightarrow> bool" where
  "hbi_tensor_is_aligned t alignment =
     (case t of
        None \<Rightarrow> False
      | Some t \<Rightarrow> if \<not> hbi_is_pow2 (of_nat alignment) then False else data t mod alignment = 0)"

definition hbi_tensor_validate :: "hbi_tensor ptr \<Rightarrow> hbi_status" where
  "hbi_tensor_validate t =
     (case t of
        None \<Rightarrow> HBI_ERR_INVALID_ARG
      | Some t \<Rightarrow>
          if \<not> hbi_dtype_is_valid (dtype t) then HBI_ERR_INVALID_ARG
          else if hbi_shape_validate (Some (shape t)) \<noteq> HBI_OK
          then hbi_shape_validate (Some (shape t))
          else if hbi_strides_validate (Some (strides t)) (Some (shape t)) \<noteq> HBI_OK
          then hbi_strides_validate (Some (strides t)) (Some (shape t))
          else if data t = 0 then HBI_ERR_INVALID_ARG
          else case rbind (span_elems (shape t) (strides t)) (hbi_dtype_packed_nbytes (dtype t)) of
                 Inl e \<Rightarrow> e
               | Inr need \<Rightarrow>
                   if nbytes t < need then HBI_ERR_CORRUPT
                   else if align t \<noteq> 0 \<and> \<not> hbi_tensor_is_aligned (Some t) (align t)
                   then HBI_ERR_CORRUPT
                   else if contiguous t \<noteq>
                           hbi_strides_is_contiguous (Some (strides t)) (Some (shape t))
                   then HBI_ERR_INTERNAL
                   else hbi_quant_meta_validate (Some (quant t)) (Some t))"

section \<open>The layout invariant\<close>

abbreviation used_strides :: "hbi_tensor \<Rightarrow> int list" where
  "used_strides t \<equiv> take (rank (shape t)) (stride (strides t))"

abbreviation tdims :: "hbi_tensor \<Rightarrow> int list" where
  "tdims t \<equiv> used_dims (shape t)"

abbreviation tbits :: "hbi_tensor \<Rightarrow> int" where
  "tbits t \<equiv> int (hbi_dtype_bits (dtype t))"

text \<open>Bit address of the element at a multi-index, and the number of elements spanned.\<close>

definition elem_bit :: "hbi_tensor \<Rightarrow> int list \<Rightarrow> int" where
  "elem_bit t idx = 8 * int (data t) + tbits t * offset idx (used_strides t)"

definition span_of :: "hbi_tensor \<Rightarrow> int" where
  "span_of t = max_offset (tdims t) (used_strides t) + 1"

definition strides_ok :: "hbi_tensor \<Rightarrow> bool" where
  "strides_ok t \<longleftrightarrow> shape_wf (shape t) \<and> length (stride (strides t)) = HBI_TENSOR_MAX_RANK \<and>
     st_rank (strides t) = rank (shape t) \<and> (\<forall>s \<in> set (used_strides t). 0 \<le> s)"

definition align_ok :: "hbi_tensor \<Rightarrow> bool" where
  "align_ok t \<longleftrightarrow> (align t \<noteq> 0 \<longrightarrow> hbi_is_pow2 (of_nat (align t)) \<and> data t mod align t = 0) \<and>
     data t mod hbi_dtype_align (dtype t) = 0"

definition tensor_inv :: "hbi_tensor \<Rightarrow> bool" where
  "tensor_inv t \<longleftrightarrow> hbi_dtype_is_valid (dtype t) \<and> strides_ok t \<and> align_ok t \<and>
     0 < data t \<and> data t + nbytes t < 2 ^ 64 \<and>
     span_of t * tbits t \<le> 8 * int (nbytes t) \<and> span_of t * tbits t \<le> INT64_MAX - 7 \<and>
     contiguous t = (used_strides t = cstr (tdims t))"


lemma nat8_le: "8 * int a + 8 * int b < 8 * int c + 8 \<Longrightarrow> a + b \<le> c"
  by linarith

lemma ceil8_bounds:
  "0 \<le> x \<Longrightarrow> x \<le> 8 * int (nat ((x + 7) div 8)) \<and> 8 * int (nat ((x + 7) div 8)) < x + 8"
  by linarith

lemma strides_ok_lengths:
  "strides_ok t \<Longrightarrow> length (tdims t) = rank (shape t) \<and> length (used_strides t) = rank (shape t)"
  by (auto simp: strides_ok_def shape_wf_def)

lemma strides_ok_pos: "strides_ok t \<Longrightarrow> d \<in> set (tdims t) \<Longrightarrow> 0 < d"
  by (auto simp: strides_ok_def shape_wf_def)

lemma span_pos: "strides_ok t \<Longrightarrow> 1 \<le> span_of t"
  using max_offset_nonneg [of "tdims t" "used_strides t"] strides_ok_lengths [of t] strides_ok_pos
  by (auto simp: span_of_def strides_ok_def)

lemma span_bits_ge:
  "hbi_dtype_is_valid (dtype t) \<Longrightarrow> strides_ok t \<Longrightarrow> span_of t \<le> span_of t * tbits t"
  using span_pos [of t] dtype_bits_pos [of "dtype t"] by (intro mult_ge_left) auto

lemma span_elems_ok:
  assumes "strides_ok t" and "span_of t < 2 ^ 63"
  shows "span_elems (shape t) (strides t) = Inr (span_of t)"
proof -
  have "span_loop (tdims t) (used_strides t) 0
      = Inr (wrap_i64 (0 + max_offset (tdims t) (used_strides t) + 1))"
    using assms strides_ok_lengths [of t] shape_wf_dims_bound [of "shape t"]
    by (intro span_loop_ok) (auto simp: strides_ok_def span_of_def)
  moreover have "wrap_i64 (span_of t) = span_of t"
    using assms span_pos [of t] by (intro wrap_i64_id) (simp add: in_i64_def)
  ultimately show ?thesis by (simp add: span_elems_def span_of_def)
qed

lemma packed_span:
  assumes "hbi_dtype_is_valid (dtype t)" and "strides_ok t" and "span_of t * tbits t \<le> INT64_MAX - 7"
  shows "hbi_dtype_packed_nbytes (dtype t) (span_of t) = Inr (nat ((span_of t * tbits t + 7) div 8))"
  using assms span_pos [of t] by (simp add: packed_nbytes_Inr)

lemma refresh_layout_ok:
  assumes "hbi_dtype_is_valid (dtype t)" and "strides_ok t" and "span_of t * tbits t \<le> INT64_MAX - 7"
  shows "refresh_layout t = Inr (t\<lparr>contiguous := (used_strides t = cstr (tdims t)),
     nbytes := nat ((span_of t * tbits t + 7) div 8)\<rparr>)"
proof -
  have "span_of t < 2 ^ 63" using span_bits_ge [OF assms(1,2)] assms(3) by simp
  then show ?thesis
    using assms span_elems_ok [OF assms(2)] packed_span [OF assms] is_contiguous_iff [of "shape t" "strides t"]
    by (auto simp: refresh_layout_def Let_def strides_ok_def)
qed

lemma refresh_layout_keeps:
  "refresh_layout t = Inr v \<Longrightarrow> shape v = shape t \<and> strides v = strides t \<and> data v = data t"
  by (auto simp: refresh_layout_def Let_def res_simps)



section \<open>Views address their parent's elements\<close>

text \<open>
  \<open>view_of p v\<close>: \<open>v\<close> is an alias of \<open>p\<close>. Distinct multi-indices of \<open>v\<close> name distinct
  multi-indices of \<open>p\<close> at the same bit address, the bytes reachable from \<open>v\<close> lie inside the bytes
  reachable from \<open>p\<close>, and \<open>v\<close> inherits the type, the mutability and the quantization of \<open>p\<close>.
\<close>

definition maps_into :: "(int list \<Rightarrow> int list) \<Rightarrow> hbi_tensor \<Rightarrow> hbi_tensor \<Rightarrow> bool" where
  "maps_into f v p \<longleftrightarrow> inj_on f {idx. in_box idx (tdims v)} \<and>
     (\<forall>idx. in_box idx (tdims v) \<longrightarrow> in_box (f idx) (tdims p) \<and> elem_bit v idx = elem_bit p (f idx))"

definition view_of :: "hbi_tensor \<Rightarrow> hbi_tensor \<Rightarrow> bool" where
  "view_of p v \<longleftrightarrow> dtype v = dtype p \<and> ownership v = HBI_TENSOR_VIEW \<and>
     read_only v = read_only p \<and> quant v = quant p \<and> device v = device p \<and>
     data p \<le> data v \<and> data v + nbytes v \<le> data p + nbytes p \<and> (\<exists>f. maps_into f v p)"

lemma elem_bit_range:
  assumes "tensor_inv t" and "in_box idx (tdims t)"
  shows "8 * int (data t) \<le> elem_bit t idx \<and> elem_bit t idx + tbits t \<le> 8 * int (data t + nbytes t)"
proof -
  have o: "0 \<le> offset idx (used_strides t) \<and>
      offset idx (used_strides t) \<le> max_offset (tdims t) (used_strides t)"
    using assms strides_ok_lengths [of t]
    by (intro offset_le_max) (auto simp: tensor_inv_def strides_ok_def)
  have "tbits t * offset idx (used_strides t) + tbits t = tbits t * (offset idx (used_strides t) + 1)"
    by (simp add: algebra_simps)
  also have "\<dots> \<le> tbits t * span_of t"
    using o by (intro mult_left_mono) (auto simp: span_of_def)
  also have "\<dots> \<le> 8 * int (nbytes t)"
    using assms(1) by (simp add: tensor_inv_def mult.commute)
  finally show ?thesis using o by (simp add: elem_bit_def)
qed

lemma offset_zeros [simp]: "offset (replicate n 0) ss = 0"
  by (induction n arbitrary: ss) (simp, case_tac ss, simp_all)

lemma zeros_in_box: "(\<forall>d \<in> set ds. 0 < d) \<Longrightarrow> in_box (replicate (length ds) 0) ds"
  by (induction ds) auto

lemma maps_into_bounds:
  assumes p: "tensor_inv p" and t: "strides_ok t" "dtype t = dtype p" and f: "maps_into f t p"
  shows "data p \<le> data t \<and> 8 * int (data t) + span_of t * tbits t \<le> 8 * int (data p + nbytes p) \<and>
    span_of t \<le> span_of p"
proof -
  let ?z = "replicate (length (tdims t)) 0" and ?l = "map (\<lambda>d. d - 1) (tdims t)"
  have pos: "\<forall>d \<in> set (tdims t). 0 < d" using strides_ok_pos [OF t(1)] by blast
  have z: "in_box (f ?z) (tdims p)" "elem_bit t ?z = elem_bit p (f ?z)"
    using f zeros_in_box [OF pos] by (auto simp: maps_into_def)
  have l: "in_box (f ?l) (tdims p)" "elem_bit t ?l = elem_bit p (f ?l)"
    using f offset_last_in_box [OF pos] by (auto simp: maps_into_def)
  have ge: "data p \<le> data t" using elem_bit_range [OF p z(1)] z(2) by (simp add: elem_bit_def)
  have le: "8 * int (data t) + tbits t * (span_of t - 1) + tbits t \<le> 8 * int (data p + nbytes p)"
    using elem_bit_range [OF p l(1)] l(2) t(2) by (simp add: elem_bit_def span_of_def max_offset_def)
  have "offset (f ?l) (used_strides p) \<le> span_of p - 1"
    using p l(1) strides_ok_lengths [of p] offset_le_max [of "f ?l" "tdims p" "used_strides p"]
    by (auto simp: span_of_def tensor_inv_def strides_ok_def)
  then have "tbits p * offset (f ?l) (used_strides p) \<le> tbits p * (span_of p - 1)"
    by (intro mult_left_mono) auto
  then have "tbits p * (span_of t - 1) \<le> tbits p * (span_of p - 1)"
    using l(2) ge t(2) by (simp add: elem_bit_def span_of_def max_offset_def)
  moreover have "0 < tbits p" using p dtype_bits_pos by (simp add: tensor_inv_def)
  ultimately have "span_of t \<le> span_of p" by simp
  then show ?thesis using ge le by (simp add: algebra_simps)
qed

lemma refresh_view:
  assumes p: "tensor_inv p" and t: "strides_ok t" "align_ok t" and f: "maps_into f t p"
    and same: "dtype t = dtype p" "ownership t = HBI_TENSOR_VIEW" "read_only t = read_only p"
      "quant t = quant p" "device t = device p"
  shows "\<exists>v. refresh_layout t = Inr v \<and> tensor_inv v \<and> view_of p v"
proof -
  note b = maps_into_bounds [OF p t(1) same(1) f]
  let ?n = "nat ((span_of t * tbits t + 7) div 8)"
  let ?v = "t\<lparr>contiguous := (used_strides t = cstr (tdims t)), nbytes := ?n\<rparr>"
  have valid: "hbi_dtype_is_valid (dtype t)" using p same by (simp add: tensor_inv_def)
  have "span_of t * tbits t \<le> span_of p * tbits p"
    using b same(1) by (simp add: mult_right_mono)
  then have cap: "span_of t * tbits t \<le> INT64_MAX - 7" using p by (simp add: tensor_inv_def)
  have r: "refresh_layout t = Inr ?v" using valid t(1) cap by (rule refresh_layout_ok)
  have "0 \<le> span_of t * tbits t" using span_pos [OF t(1)] by simp
  then have n: "span_of t * tbits t \<le> 8 * int ?n" "8 * int ?n < span_of t * tbits t + 8"
    using ceil8_bounds by blast+
  then have "8 * int (data t) + 8 * int ?n < 8 * int (data p + nbytes p) + 8" using b by auto
  then have inside: "data t + ?n \<le> data p + nbytes p" by (rule nat8_le)
  have "span_of ?v = span_of t" by (simp add: span_of_def)
  moreover have "0 < data t" using b p by (simp add: tensor_inv_def)
  moreover have "data t + ?n < 2 ^ 64" using inside p by (simp add: tensor_inv_def)
  ultimately have "tensor_inv ?v"
    using valid t cap n(1) by (simp add: tensor_inv_def strides_ok_def align_ok_def)
  moreover have "maps_into f ?v p" using f by (simp add: maps_into_def elem_bit_def)
  then have "view_of p ?v" using same b inside by (auto simp: view_of_def)
  ultimately show ?thesis using r by blast
qed

subsection \<open>Alias and reshape\<close>

lemma view_seed_simps [simp]:
  "dtype (view_seed p) = dtype p" "shape (view_seed p) = shape p" "strides (view_seed p) = strides p"
  "data (view_seed p) = data p" "nbytes (view_seed p) = nbytes p" "align (view_seed p) = align p"
  "ownership (view_seed p) = HBI_TENSOR_VIEW" "device (view_seed p) = device p"
  "read_only (view_seed p) = read_only p" "contiguous (view_seed p) = contiguous p"
  "quant (view_seed p) = quant p"
  by (simp_all add: view_seed_def)

lemma view_ok:
  assumes "tensor_inv p"
  shows "\<exists>v. hbi_tensor_view (Some p) = Inr v \<and> tensor_inv v \<and> view_of p v"
proof -
  have "tensor_inv (view_seed p)"
    using assms by (simp add: tensor_inv_def strides_ok_def align_ok_def span_of_def)
  moreover have "maps_into id (view_seed p) p" by (simp add: maps_into_def elem_bit_def)
  then have "view_of p (view_seed p)" by (auto simp: view_of_def)
  ultimately show ?thesis by (simp add: hbi_tensor_view_def)
qed

lemma reshape_ok:
  assumes p: "tensor_inv p" and len: "length (dims ns) = HBI_TENSOR_MAX_RANK"
    and v: "hbi_tensor_reshape (Some p) (Some ns) = Inr v"
  shows "tensor_inv v \<and> view_of p v \<and> contiguous v"
proof -
  have c: "contiguous p" and nwf: "shape_wf ns"
    using v len shape_validate_OK [of ns] by (auto simp: hbi_tensor_reshape_def split: if_splits)
  have pwf: "shape_wf (shape p)" using p by (simp add: tensor_inv_def strides_ok_def)
  have cnt: "prod_list (tdims p) = prod_list (used_dims ns)"
    using v c nwf pwf shape_validate_OK [OF len]
    by (auto simp: hbi_tensor_reshape_def elem_count_wf split: if_splits)
  obtain st where st: "hbi_strides_init_contiguous (Some ns) = Inr st"
    using strides_init_contiguous_wf [OF nwf] by blast
  let ?t = "(view_seed p)\<lparr>shape := ns, strides := st\<rparr>"
  have r: "refresh_layout ?t = Inr v"
    using v c nwf pwf cnt st shape_validate_OK [OF len] by (simp add: hbi_tensor_reshape_def elem_count_wf)
  note stf = strides_init_contiguous_Inr [OF st len]
  have npos: "\<forall>d \<in> set (used_dims ns). 0 < d" and ppos: "\<forall>d \<in> set (tdims p). 0 < d"
    using nwf pwf by (auto simp: shape_wf_def)
  have ok: "strides_ok ?t"
    using stf cstr_nonneg [OF npos] by (auto simp: strides_ok_def intro: order_less_imp_le)
  let ?f = "\<lambda>idx. unrank (tdims p) (offset idx (cstr (used_dims ns)))"
  have pc: "used_strides p = cstr (tdims p)" using p c by (simp add: tensor_inv_def)
  have "in_box (?f idx) (tdims p) \<and> elem_bit ?t idx = elem_bit p (?f idx)
      \<and> unrank (used_dims ns) (offset (?f idx) (cstr (tdims p))) = idx"
    if "in_box idx (used_dims ns)" for idx
    using unrank_in_box [OF ppos, of "offset idx (cstr (used_dims ns))"] unrank_offset [OF npos that]
      offset_cstr_bound [OF npos that] stf cnt pc by (simp add: elem_bit_def)
  then have "maps_into ?f ?t p"
    unfolding maps_into_def by (auto intro!: inj_on_inverseI
        [where g = "\<lambda>j. unrank (used_dims ns) (offset j (cstr (tdims p)))"])
  moreover have "align_ok ?t" using p by (simp add: tensor_inv_def align_ok_def)
  ultimately have "tensor_inv v \<and> view_of p v"
    using refresh_view [OF p ok, of ?f] r by auto
  moreover have "used_strides v = cstr (tdims v)"
    using r stf by (auto simp: refresh_layout_def Let_def res_simps)
  ultimately show ?thesis by (simp add: tensor_inv_def)
qed

subsection \<open>Slices\<close>

lemma offset_map2_plus:
  "length xs = length ys \<Longrightarrow> length ys = length ss \<Longrightarrow>
     offset (map2 (+) xs ys) ss = offset xs ss + offset ys ss"
  by (induction xs ys arbitrary: ss rule: list_induct2) (simp, case_tac ss, auto simp: algebra_simps)

lemma in_box_length: "in_box is ds \<Longrightarrow> length is = length ds"
  by (auto simp: in_box_def dest: list_all2_lengthD)

lemma in_box_nth: "in_box is ds \<longleftrightarrow> length is = length ds \<and> (\<forall>i < length ds. 0 \<le> is ! i \<and> is ! i < ds ! i)"
  by (auto simp: in_box_def list_all2_conv_all_nth)

text \<open>A window: starts \<open>sts\<close> and counts \<open>cs\<close> inside the dimensions \<open>ds\<close>, axis by axis.\<close>

definition window :: "int list \<Rightarrow> int list \<Rightarrow> int list \<Rightarrow> bool" where
  "window sts cs ds \<longleftrightarrow> length sts = length ds \<and> length cs = length ds \<and>
     (\<forall>i < length ds. 0 \<le> sts ! i \<and> 0 < cs ! i \<and> sts ! i + cs ! i \<le> ds ! i)"

lemma window_in_box: "window sts cs ds \<Longrightarrow> in_box sts ds"
  unfolding window_def in_box_nth by fastforce

lemma window_le: "window sts cs ds \<Longrightarrow> \<forall>i < length ds. 0 < cs ! i \<and> cs ! i \<le> ds ! i"
  unfolding window_def by fastforce

lemma window_shift: "window sts cs ds \<Longrightarrow> in_box idx cs \<Longrightarrow> in_box (map2 (+) idx sts) ds"
  unfolding window_def in_box_nth by fastforce

lemma prod_list_mono_le:
  "length cs = length ds \<Longrightarrow> (\<forall>i < length ds. (0::int) < cs ! i \<and> cs ! i \<le> ds ! i) \<Longrightarrow>
     prod_list cs \<le> prod_list ds"
proof (induction cs ds rule: list_induct2)
  case (Cons c cs d ds)
  have h: "0 < c" "c \<le> d" "\<forall>i < length ds. 0 < cs ! i \<and> cs ! i \<le> ds ! i"
    using Cons.prems by (force, force, fastforce)
  have "0 < prod_list cs" using h(3) Cons.hyps by (intro prod_list_pos) (auto simp: in_set_conv_nth)
  then show ?case using Cons.IH [OF h(3)] h by (auto intro!: mult_mono)
qed simp

lemma quot8_nonneg: "0 \<le> x \<Longrightarrow> 0 \<le> quot8 x"
  by (simp add: quot8_def)

lemma dtype_align_pow2: "hbi_dtype_is_valid dt \<Longrightarrow> hbi_is_pow2 (of_nat (hbi_dtype_align dt))"
  by (cases dt) (simp_all add: dtype_valid_iff hbi_is_pow2_def)

lemma quot8_exact: "8 dvd x \<Longrightarrow> 8 * quot8 x = x"
  by (auto simp: quot8_def)

lemma shift_exact:
  assumes p: "tensor_inv p" and ib: "in_box sts (tdims p)"
    and off: "eo = offset sts (used_strides p)" and al: "\<not> sub_byte_misaligned (dtype p) eo"
    and q: "q = quot8 (wrap_i64 (eo * tbits p))"
  shows "8 * q = eo * tbits p \<and> int (addr_add (data p) q) = int (data p) + q \<and>
    hbi_dtype_align (dtype p) dvd addr_add (data p) q"
proof -
  have ok: "strides_ok p" and valid: "hbi_dtype_is_valid (dtype p)"
    and cap: "span_of p * tbits p \<le> INT64_MAX - 7" "span_of p * tbits p \<le> 8 * int (nbytes p)"
    and top: "data p + nbytes p < 2 ^ 64"
    using p by (auto simp: tensor_inv_def)
  have eo: "0 \<le> eo" "eo \<le> span_of p"
    using offset_le_max [OF ib, of "used_strides p"] ok strides_ok_lengths [OF ok] off
    by (auto simp: strides_ok_def span_of_def)
  then have le: "0 \<le> eo * tbits p" "eo * tbits p \<le> span_of p * tbits p"
    by (auto intro: mult_right_mono)
  then have wr: "wrap_i64 (eo * tbits p) = eo * tbits p"
    using cap(1) by (intro wrap_i64_id in_i64I) linarith+
  have dvd: "8 * int (hbi_dtype_align (dtype p)) dvd eo * tbits p"
  proof (cases "hbi_dtype_is_sub_byte (dtype p)")
    case True
    then have "hbi_dtype_align (dtype p) = 1" by (auto simp: hbi_dtype_is_sub_byte_def)
    then show ?thesis using al True wr by (simp add: sub_byte_misaligned_def mod_eq_0_iff_dvd)
  next
    case False
    then show ?thesis using dtype_byte_bits [OF valid] by simp
  qed
  have "8 dvd eo * tbits p" using dvd dvd_mult_left by blast
  then have q8: "8 * q = eo * tbits p" using quot8_exact q wr by simp
  have q0: "0 \<le> q" using le(1) wr q by (simp only: quot8_nonneg)
  have "int (data p) + int (nbytes p) < 2 ^ 64" using top by simp
  then have "int (data p) + q < 2 ^ 64" using q8 le(2) cap(2) by linarith
  then have d: "int (addr_add (data p) q) = int (data p) + q" using q0 by (simp add: addr_add_def)
  have "int (hbi_dtype_align (dtype p)) dvd q" using dvd unfolding q8 [symmetric] by simp
  moreover have "int (hbi_dtype_align (dtype p)) dvd int (data p)"
    using p by (simp only: tensor_inv_def align_ok_def of_nat_dvd_iff) (simp add: mod_eq_0_iff_dvd)
  ultimately have "int (hbi_dtype_align (dtype p)) dvd int (addr_add (data p) q)"
    unfolding d by (simp only: dvd_add)
  then have "hbi_dtype_align (dtype p) dvd addr_add (data p) q" by (simp only: of_nat_dvd_iff)
  then show ?thesis using q8 d by simp
qed

lemma shift_maps_into:
  assumes w: "window sts cs (tdims p)" and t: "tdims t = cs" "used_strides t = used_strides p"
    "dtype t = dtype p" and len: "length (used_strides p) = length (tdims p)"
    and d: "8 * int (data t) = 8 * int (data p) + offset sts (used_strides p) * tbits p"
  shows "maps_into (\<lambda>idx. map2 (+) idx sts) t p"
  unfolding maps_into_def t
proof (intro conjI allI impI)
  have lens: "length sts = length cs" "length cs = length (tdims p)"
    using w by (simp_all add: window_def)
  show "inj_on (\<lambda>idx. map2 (+) idx sts) {idx. in_box idx cs}"
  proof (rule inj_onI, unfold mem_Collect_eq)
    fix x y assume "in_box x cs" "in_box y cs" and e: "map2 (+) x sts = map2 (+) y sts"
    then have l: "length x = length sts" "length y = length sts" using in_box_length lens by auto
    show "x = y"
    proof (rule nth_equalityI)
      fix i assume "i < length x"
      then have "map2 (+) x sts ! i = x ! i + sts ! i" "map2 (+) y sts ! i = y ! i + sts ! i"
        using l by simp_all
      then show "x ! i = y ! i" using e by simp
    qed (use l in simp)
  qed
  fix idx assume i: "in_box idx cs"
  show "in_box (map2 (+) idx sts) (tdims p)" using w i by (rule window_shift)
  have "offset (map2 (+) idx sts) (used_strides p)
      = offset idx (used_strides p) + offset sts (used_strides p)"
    using in_box_length [OF i] lens len by (intro offset_map2_plus) simp_all
  then show "elem_bit t idx = elem_bit p (map2 (+) idx sts)"
    unfolding elem_bit_def t d by (simp add: algebra_simps)
qed

lemma shifted_view_ok:
  assumes p: "tensor_inv p" and w: "window sts cs (tdims p)"
    and off: "eo = offset sts (used_strides p)" and al: "\<not> sub_byte_misaligned (dtype p) eo"
  shows "\<exists>v. shifted_view p (cs @ drop (rank (shape p)) (dims (shape p))) eo = Inr v \<and>
    tensor_inv v \<and> view_of p v \<and> tdims v = cs"
proof -
  let ?r = "rank (shape p)" and ?al = "hbi_dtype_align (dtype p)"
  let ?d = "addr_add (data p) (quot8 (wrap_i64 (eo * tbits p)))"
  let ?t = "(view_seed p)\<lparr>shape := (shape p)\<lparr>dims := cs @ drop ?r (dims (shape p))\<rparr>, data := ?d,
     align := (if ?al = 0 then 1 else ?al)\<rparr>"
  have ok: "strides_ok p" and valid: "hbi_dtype_is_valid (dtype p)" using p by (auto simp: tensor_inv_def)
  have lens: "length (tdims p) = ?r" "length (used_strides p) = ?r" "length cs = ?r"
    using strides_ok_lengths [OF ok] w by (auto simp: window_def)
  note q = shift_exact [OF p window_in_box [OF w] off al refl]
  have t: "tdims ?t = cs" "used_strides ?t = used_strides p" using lens by simp_all
  have "prod_list cs \<le> prod_list (tdims p)"
    using window_le [OF w] w by (intro prod_list_mono_le) (auto simp: window_def)
  moreover have "\<forall>d \<in> set cs. 0 < d" using w by (auto simp: window_def in_set_conv_nth)
  ultimately have tok: "strides_ok ?t"
    using ok lens t by (auto simp: strides_ok_def shape_wf_def)
  have "align_ok ?t"
    using q dtype_align_pow2 [OF valid] dtype_align_pos [OF valid]
    by (simp add: align_ok_def mod_eq_0_iff_dvd)
  moreover have "maps_into (\<lambda>idx. map2 (+) idx sts) ?t p"
    using w t(1,2) by (rule shift_maps_into) (use lens q off in auto)
  ultimately have "\<exists>v. refresh_layout ?t = Inr v \<and> tensor_inv v \<and> view_of p v"
    using refresh_view [OF p tok] by simp
  then obtain v where v: "refresh_layout ?t = Inr v" "tensor_inv v" "view_of p v" by blast
  have "tdims v = cs" using refresh_layout_keeps [OF v(1)] t(1) by simp
  then show ?thesis using v unfolding shifted_view_def by blast
qed

lemma offset_unit:
  "a < n \<Longrightarrow> n = length ss \<Longrightarrow> offset ((replicate n 0)[a := x]) ss = x * ss ! a"
proof (induction n arbitrary: a ss)
  case (Suc n)
  then show ?case by (cases ss; cases a) simp_all
qed simp

lemma slice_ok:
  assumes p: "tensor_inv p" and v: "hbi_tensor_slice (Some p) axis start count = Inr v"
    and i64: "start + count \<le> INT64_MAX"
  shows "tensor_inv v \<and> view_of p v \<and> tdims v = (tdims p)[axis := count]"
proof -
  let ?r = "rank (shape p)" and ?eo = "wrap_i64 (start * stride (strides p) ! axis)"
  have ok: "strides_ok p" and wf: "shape_wf (shape p)" using p by (auto simp: tensor_inv_def strides_ok_def)
  note lens = strides_ok_lengths [OF ok]
  have ax: "axis < ?r" "0 \<le> start" "0 < count" "start + count \<le> dims (shape p) ! axis"
    and na: "\<not> sub_byte_misaligned (dtype p) ?eo"
    and sv: "shifted_view p ((dims (shape p))[axis := count]) ?eo = Inr v"
    using v i64 wrap_i64_id [OF in_i64I, of "start + count"]
    by (auto simp: hbi_tensor_slice_def Let_def split: if_splits)
  define sts where "sts = (replicate ?r 0)[axis := start]"
  have w: "window sts ((tdims p)[axis := count]) (tdims p)"
    unfolding window_def sts_def using ax lens wf
    by (auto simp: nth_list_update shape_wf_def set_conv_nth)
  have so: "offset sts (used_strides p) = start * stride (strides p) ! axis"
    using ax lens by (simp add: sts_def offset_unit)
  have "0 \<le> offset sts (used_strides p) \<and> offset sts (used_strides p) < span_of p"
    using offset_le_max [OF window_in_box [OF w], of "used_strides p"] ok lens
    by (auto simp: strides_ok_def span_of_def)
  moreover have "span_of p \<le> INT64_MAX"
    using p span_bits_ge [of p] ok unfolding tensor_inv_def by auto
  ultimately have eo: "?eo = offset sts (used_strides p)"
    unfolding so [symmetric] by (intro wrap_i64_id in_i64I) linarith+
  have "(dims (shape p))[axis := count] = (tdims p)[axis := count] @ drop ?r (dims (shape p))"
    using ax(1) lens list_update_append1 [of axis "tdims p" "drop ?r (dims (shape p))" count] by simp
  then show ?thesis
    using shifted_view_ok [OF p w eo na] sv by auto
qed

lemma subtensor_scan_Inr:
  assumes "subtensor_scan ds ss sts cs off = Inr eo"
    and "length sts = n" and "length cs = n" and "n \<le> length ds" and "length ss = length ds"
    and "\<forall>i < n. sts ! i + cs ! i \<le> INT64_MAX" and "\<forall>s \<in> set ss. 0 \<le> s" and "0 \<le> off"
    and "\<forall>d \<in> set ds. 0 < d" and "off + max_offset ds ss \<le> INT64_MAX"
  shows "(\<forall>i < n. 0 \<le> sts ! i \<and> 0 < cs ! i \<and> sts ! i + cs ! i \<le> ds ! i) \<and>
    eo = off + offset sts ss"
  using assms
proof (induction n arbitrary: ds ss sts cs off)
  case 0
  then show ?case by auto
next
  case (Suc n)
  obtain d ds' s ss' st sts' c cs' where e: "ds = d # ds'" "ss = s # ss'" "sts = st # sts'" "cs = c # cs'"
    using Suc.prems(2-5) by (cases ds; cases ss; cases sts; cases cs) auto
  have sc: "st + c \<le> INT64_MAX" "\<forall>i < n. sts' ! i + cs' ! i \<le> INT64_MAX"
    using Suc.prems(6) by (force simp: e)+
  have g: "0 \<le> st" "0 < c" "wrap_i64 (st + c) \<le> d"
    and r: "subtensor_scan ds' ss' sts' cs' (wrap_i64 (off + wrap_i64 (st * s))) = Inr eo"
    using Suc.prems(1) by (auto simp: e split: if_splits)
  have le: "st + c \<le> d" using g sc(1) wrap_i64_id [OF in_i64I, of "st + c"] by simp
  have m: "0 \<le> max_offset ds' ss'" using Suc.prems by (intro max_offset_nonneg) (auto simp: e)
  have t: "0 \<le> st * s" "st * s \<le> (d - 1) * s"
    using g le Suc.prems(7) by (auto simp: e intro!: mult_right_mono)
  have w: "wrap_i64 (st * s) = st * s" "wrap_i64 (off + st * s) = off + st * s"
    using t m Suc.prems(8,10) by (auto simp: e intro!: wrap_i64_id in_i64I)
  have "(\<forall>i < n. 0 \<le> sts' ! i \<and> 0 < cs' ! i \<and> sts' ! i + cs' ! i \<le> ds' ! i) \<and>
      eo = (off + st * s) + offset sts' ss'"
    using Suc.prems sc(2) t m r by (intro Suc.IH) (auto simp: e w)
  then show ?case using g le by (auto simp: e less_Suc_eq_0_disj)
qed

lemma offset_append_zeros: "offset (sts @ replicate k 0) ss = offset sts ss"
proof (induction sts arbitrary: ss)
  case (Cons a sts)
  then show ?case by (cases ss) simp_all
qed simp

lemma subtensor_scan_take:
  "length sts \<le> r \<Longrightarrow> subtensor_scan (take r ds) (take r ss) sts cs off = subtensor_scan ds ss sts cs off"
proof (induction ds ss sts cs off arbitrary: r rule: subtensor_scan.induct)
  case (1 d ds s ss st sts c cs off)
  then show ?case by (cases r) auto
qed (auto simp: take_Cons split: nat.splits)

lemma subtensor_ok:
  assumes p: "tensor_inv p" and v: "hbi_tensor_subtensor (Some p) (Some starts) (Some counts) n = Inr v"
    and len: "n \<le> length starts" "n \<le> length counts"
    and i64: "\<forall>i < n. starts ! i + counts ! i \<le> INT64_MAX"
  shows "tensor_inv v \<and> view_of p v \<and> tdims v = take n counts @ drop n (tdims p)"
proof -
  let ?r = "rank (shape p)"
  have ok: "strides_ok p" and wf: "shape_wf (shape p)" using p by (auto simp: tensor_inv_def strides_ok_def)
  note lens = strides_ok_lengths [OF ok]
  have nr: "n \<le> ?r" using v by (auto simp: hbi_tensor_subtensor_def split: if_splits)
  obtain eo where
    sc: "subtensor_scan (dims (shape p)) (stride (strides p)) (take n starts) (take n counts) 0 = Inr eo"
    and na: "\<not> sub_byte_misaligned (dtype p) eo"
    and sv: "shifted_view p (take n counts @ drop n (dims (shape p))) eo = Inr v"
    using v by (auto simp: hbi_tensor_subtensor_def res_simps split: if_splits)
  have len8: "length (dims (shape p)) = length (stride (strides p))"
    using ok by (auto simp: strides_ok_def shape_wf_def)
  have sc': "subtensor_scan (tdims p) (used_strides p) (take n starts) (take n counts) 0 = Inr eo"
    using sc nr subtensor_scan_take [of "take n starts" ?r "dims (shape p)" "stride (strides p)" "take n counts"]
    len by simp
  have pos: "\<forall>d \<in> set (tdims p). 0 < d" using wf by (simp add: shape_wf_def)
  have "span_of p \<le> INT64_MAX" using p span_bits_ge [of p] ok unfolding tensor_inv_def by auto
  then have c: "(\<forall>i < n. 0 \<le> take n starts ! i \<and> 0 < take n counts ! i \<and>
        take n starts ! i + take n counts ! i \<le> tdims p ! i) \<and>
      eo = 0 + offset (take n starts) (used_strides p)"
    using sc' len nr lens i64 pos ok
    by (intro subtensor_scan_Inr) (auto simp: strides_ok_def span_of_def)
  let ?sts = "take n starts @ replicate (?r - n) 0" and ?cs = "take n counts @ drop n (tdims p)"
  have w: "window ?sts ?cs (tdims p)"
    unfolding window_def using c len nr lens pos by (auto simp: nth_append set_conv_nth)
  have eo: "eo = offset ?sts (used_strides p)" using c by (simp add: offset_append_zeros)
  have "take n counts @ drop n (dims (shape p)) = ?cs @ drop ?r (dims (shape p))"
    using nr by (simp add: drop_take) (metis append_take_drop_id drop_drop le_add_diff_inverse add.commute)
  then show ?thesis using shifted_view_ok [OF p w eo na] sv by auto
qed

section \<open>Permuted axes\<close>

lemma offset_sum:
  "length is = length ss \<Longrightarrow> offset is ss = (\<Sum>i = 0..<length ss. is ! i * ss ! i)"
proof (induction "is" ss rule: list_induct2)
  case (Cons i "is" s ss)
  then show ?case by (simp add: sum.atLeast0_lessThan_Suc_shift del: sum.op_ivl_Suc)
qed simp

text \<open>\<open>unperm perm idx\<close> is the multi-index of the parent named by \<open>idx\<close> in the permuted view.\<close>

definition unperm :: "nat list \<Rightarrow> int list \<Rightarrow> int list" where
  "unperm perm idx = map (\<lambda>j. idx ! (the_inv_into {..<length perm} ((!) perm) j)) [0..<length perm]"

lemma unperm_nth:
  assumes "distinct perm" and "set perm = {..<length perm}" and "i < length perm"
  shows "unperm perm idx ! (perm ! i) = idx ! i"
proof -
  have "the_inv_into {..<length perm} ((!) perm) (perm ! i) = i"
    using assms by (intro the_inv_into_f_f) (auto simp: inj_on_def nth_eq_iff_index_eq)
  moreover have "perm ! i < length perm" using assms nth_mem by blast
  ultimately show ?thesis by (simp add: unperm_def)
qed

lemma perm_bij:
  "distinct perm \<Longrightarrow> set perm = {..<length perm} \<Longrightarrow>
     bij_betw ((!) perm) {0..<length perm} {0..<length perm}"
  by (metis atLeast0LessThan bij_betw_nth)

lemma permute_maps_into:
  assumes perm: "distinct perm" "set perm = {..<length perm}"
    and lens: "length (tdims p) = length perm" "length (used_strides p) = length perm"
    and t: "tdims t = map ((!) (tdims p)) perm" "used_strides t = map ((!) (used_strides p)) perm"
      "dtype t = dtype p" "data t = data p"
  shows "maps_into (unperm perm) t p"
  unfolding maps_into_def t(1)
proof (intro conjI allI impI)
  let ?n = "length perm"
  show "inj_on (unperm perm) {idx. in_box idx (map ((!) (tdims p)) perm)}"
  proof (rule inj_onI, unfold mem_Collect_eq)
    fix x y assume "in_box x (map ((!) (tdims p)) perm)" "in_box y (map ((!) (tdims p)) perm)"
      and e: "unperm perm x = unperm perm y"
    then have "length x = ?n" "length y = ?n" using in_box_length by fastforce+
    then show "x = y" using unperm_nth [OF perm] e by (metis nth_equalityI)
  qed
  fix idx assume i: "in_box idx (map ((!) (tdims p)) perm)"
  have li: "length idx = ?n" using in_box_length [OF i] by simp
  show "in_box (unperm perm idx) (tdims p)"
    unfolding in_box_nth
  proof (intro conjI allI impI)
    show "length (unperm perm idx) = length (tdims p)" using lens by (simp add: unperm_def)
    fix j assume "j < length (tdims p)"
    then obtain k where "k < ?n" "j = perm ! k" using perm(2) lens(1) by (metis in_set_conv_nth lessThan_iff)
    then show "0 \<le> unperm perm idx ! j" "unperm perm idx ! j < tdims p ! j"
      using i unperm_nth [OF perm] by (auto simp: in_box_nth)
  qed
  have "offset (unperm perm idx) (used_strides p)
      = (\<Sum>j = 0..<?n. unperm perm idx ! j * used_strides p ! j)"
    using lens by (subst offset_sum) (simp_all add: unperm_def)
  also have "\<dots> = (\<Sum>i = 0..<?n. unperm perm idx ! (perm ! i) * used_strides p ! (perm ! i))"
    by (rule sum.reindex_bij_betw [OF perm_bij [OF perm], symmetric])
  also have "\<dots> = (\<Sum>i = 0..<?n. idx ! i * map ((!) (used_strides p)) perm ! i)"
    using unperm_nth [OF perm] by (intro sum.cong) auto
  also have "\<dots> = offset idx (used_strides t)" using li t(2) by (subst offset_sum) simp_all
  finally show "elem_bit t idx = elem_bit p (unperm perm idx)" using t by (simp add: elem_bit_def)
qed

lemma map_nth_subset: "(\<And>q. q \<in> set perm \<Longrightarrow> q < length xs) \<Longrightarrow> set (map ((!) xs) perm) \<subseteq> set xs"
  by auto

lemma permuted_view_ok:
  assumes p: "tensor_inv p" and perm: "distinct perm" "set perm = {..<rank (shape p)}"
    and t: "t = (view_seed p)\<lparr>shape := (shape p)\<lparr>dims := ds\<rparr>, strides := (strides p)\<lparr>stride := ss\<rparr>\<rparr>"
    and ds: "length ds = HBI_TENSOR_MAX_RANK" "take (rank (shape p)) ds = map ((!) (tdims p)) perm"
    and ss: "length ss = HBI_TENSOR_MAX_RANK" "take (rank (shape p)) ss = map ((!) (used_strides p)) perm"
  shows "\<exists>v. refresh_layout t = Inr v \<and> tensor_inv v \<and> view_of p v"
proof -
  let ?r = "rank (shape p)"
  have ok: "strides_ok p" using p by (simp add: tensor_inv_def)
  note lens = strides_ok_lengths [OF ok]
  have lp: "length perm = ?r" using distinct_card [OF perm(1)] perm(2) by simp
  have td: "tdims t = map ((!) (tdims p)) perm" and ts: "used_strides t = map ((!) (used_strides p)) perm"
    using ds(2) ss(2) by (simp_all add: t)
  have lt: "q < ?r" if "q \<in> set perm" for q using that perm(2) by auto
  have "set (tdims t) \<subseteq> set (tdims p)" "set (used_strides t) \<subseteq> set (used_strides p)"
    unfolding td ts using lt lens by (intro map_nth_subset; force)+
  moreover have "prod_list (tdims t) = (\<Prod>i = 0..<?r. tdims p ! (perm ! i))"
    unfolding td by (simp add: prod.list_conv_set_nth lp)
  then have "prod_list (tdims t) = prod_list (tdims p)"
    using prod.reindex_bij_betw [OF perm_bij, of perm "(!) (tdims p)"] perm lp lens
    by (simp add: prod.list_conv_set_nth)
  ultimately have "strides_ok t"
    using ok ds(1) ss(1) unfolding strides_ok_def shape_wf_def by (auto simp: t)
  moreover have "align_ok t" using p by (simp add: t tensor_inv_def align_ok_def)
  moreover have "maps_into (unperm perm) t p"
    using perm lp lens td ts by (intro permute_maps_into) (simp_all add: t)
  ultimately show ?thesis using refresh_view [OF p, of t] by (simp add: t)
qed

lemma swap_nth_map:
  assumes "a < n" and "b < n" and "n \<le> length xs"
  shows "take n (swap_nth a b xs) = map ((!) (take n xs)) (swap_nth a b [0..<n])"
  using assms by (intro nth_equalityI) (auto simp: swap_nth_def nth_list_update)

lemma length_swap_nth [simp]: "length (swap_nth a b xs) = length xs"
  by (simp add: swap_nth_def)

lemma swap_nth_perm:
  assumes "a < n" and "b < n"
  shows "distinct (swap_nth a b [0..<n]) \<and> set (swap_nth a b [0..<n]) = {..<n}"
proof -
  have "distinct (swap_nth a b [0..<n])"
    using assms distinct_swap [of a "[0..<n]" b] by (simp add: swap_nth_def)
  moreover have "set (swap_nth a b [0..<n]) = set [0..<n]"
    using assms set_swap [of a "[0..<n]" b] by (simp add: swap_nth_def)
  ultimately show ?thesis by (simp add: atLeast0LessThan)
qed

lemma transpose_ok:
  assumes p: "tensor_inv p" and v: "hbi_tensor_transpose (Some p) a b = Inr v"
  shows "tensor_inv v \<and> view_of p v"
proof -
  let ?r = "rank (shape p)"
  have ab: "a < ?r" "b < ?r" using v by (auto simp: hbi_tensor_transpose_def split: if_splits)
  have ok: "strides_ok p" using p by (simp add: tensor_inv_def)
  then have "length (dims (shape p)) = HBI_TENSOR_MAX_RANK" "length (stride (strides p)) = HBI_TENSOR_MAX_RANK"
    "?r \<le> HBI_TENSOR_MAX_RANK"
    by (auto simp: strides_ok_def shape_wf_def)
  then have "\<exists>v'. refresh_layout ((view_seed p)\<lparr>
        shape := (shape p)\<lparr>dims := swap_nth a b (dims (shape p))\<rparr>,
        strides := (strides p)\<lparr>stride := swap_nth a b (stride (strides p))\<rparr>\<rparr>) = Inr v' \<and>
      tensor_inv v' \<and> view_of p v'"
    using swap_nth_perm [OF ab] swap_nth_map [OF ab, of "dims (shape p)"]
      swap_nth_map [OF ab, of "stride (strides p)"]
    by (intro permuted_view_ok [OF p, of "swap_nth a b [0..<?r]", OF _ _ refl]) simp_all
  then show ?thesis using v by (auto simp: hbi_tensor_transpose_def split: if_splits)
qed

lemma perm_scan_Inr:
  assumes "perm_scan n qs i seen identity = Inr b" and "n \<le> length seen"
  shows "distinct qs \<and> (\<forall>q \<in> set qs. q < n \<and> \<not> seen ! q)"
  using assms
proof (induction n qs i seen identity rule: perm_scan.induct)
  case (2 n q qs i seen identity)
  then have "distinct qs \<and> (\<forall>x \<in> set qs. x < n \<and> \<not> seen[q := True] ! x)" and q: "q < n" "\<not> seen ! q"
    by (auto split: if_splits)
  moreover have "q < length seen" using q 2 by simp
  ultimately show ?case by (auto simp: nth_list_update split: if_splits)
qed simp

lemma permute_ok:
  assumes p: "tensor_inv p" and v: "hbi_tensor_permute (Some p) (Some perm) n = Inr v"
    and len: "n \<le> length perm"
  shows "tensor_inv v \<and> view_of p v"
proof -
  let ?r = "rank (shape p)"
  have wf: "length (dims (shape p)) = HBI_TENSOR_MAX_RANK" "length (stride (strides p)) = HBI_TENSOR_MAX_RANK"
    "?r \<le> HBI_TENSOR_MAX_RANK"
    using p by (auto simp: tensor_inv_def strides_ok_def shape_wf_def)
  have n: "n = ?r" using v by (auto simp: hbi_tensor_permute_def split: if_splits)
  obtain b where b: "perm_scan n (take n perm) 0 (replicate HBI_TENSOR_MAX_RANK False) True = Inr b"
    using v by (auto simp: hbi_tensor_permute_def res_simps split: if_splits)
  have d: "distinct (take n perm)" "\<forall>q \<in> set (take n perm). q < n"
    using perm_scan_Inr [OF b] wf n by auto
  then have st: "set (take n perm) = {..<n}"
    using len by (intro distinct_full) auto
  have "\<exists>v'. refresh_layout ((view_seed p)\<lparr>
        shape := (shape p)\<lparr>dims := map (\<lambda>q. dims (shape p) ! q) (take n perm) @ drop n (dims (shape p))\<rparr>,
        strides := (strides p)\<lparr>stride := map (\<lambda>q. stride (strides p) ! q) (take n perm)
                                            @ drop n (stride (strides p))\<rparr>\<rparr>) = Inr v' \<and>
      tensor_inv v' \<and> view_of p v'"
    using d st n wf len by (intro permuted_view_ok [OF p, of "take n perm", OF _ _ refl]) auto
  then show ?thesis using v by (auto simp: hbi_tensor_permute_def res_simps split: if_splits)
qed

section \<open>Inserted and removed axes\<close>

fun unsq :: "int list \<Rightarrow> int list \<Rightarrow> int list" where
  "unsq [] idx = []"
| "unsq (d # ds) idx = (if d = 1 then 0 # unsq ds idx else hd idx # unsq ds (tl idx))"

abbreviation kept_axes :: "int list \<Rightarrow> int list \<Rightarrow> (int \<times> int) list" where
  "kept_axes ds ss \<equiv> filter (\<lambda>(d, s). d \<noteq> 1) (zip ds ss)"

lemma unsq_kept:
  "length ds = length ss \<Longrightarrow> in_box idx (map fst (kept_axes ds ss)) \<Longrightarrow>
     in_box (unsq ds idx) ds \<and> offset (unsq ds idx) ss = offset idx (map snd (kept_axes ds ss))"
proof (induction ds ss arbitrary: idx rule: list_induct2)
  case (Cons d ds s ss)
  then show ?case by (cases idx) auto
qed simp

lemma unsq_inj:
  "length ds = length ss \<Longrightarrow> in_box x (map fst (kept_axes ds ss)) \<Longrightarrow>
     in_box y (map fst (kept_axes ds ss)) \<Longrightarrow> unsq ds x = unsq ds y \<Longrightarrow> x = y"
proof (induction ds ss arbitrary: x y rule: list_induct2)
  case (Cons d ds s ss)
  then show ?case by (cases x; cases y) (auto split: if_splits)
qed simp

lemma prod_kept: "length ds = length ss \<Longrightarrow> prod_list (map fst (kept_axes ds ss)) = prod_list ds"
  by (induction ds ss rule: list_induct2) auto

lemma squeeze_ok:
  assumes p: "tensor_inv p" and v: "hbi_tensor_squeeze (Some p) = Inr v"
  shows "tensor_inv v \<and> view_of p v"
proof -
  let ?k = "kept_axes (tdims p) (used_strides p)"
  let ?pad = "replicate (HBI_TENSOR_MAX_RANK - length ?k) 0"
  let ?t = "(view_seed p)\<lparr>shape := \<lparr>rank = length ?k, dims = map fst ?k @ ?pad\<rparr>,
     strides := \<lparr>st_rank = length ?k, stride = map snd ?k @ ?pad\<rparr>\<rparr>"
  have ok: "strides_ok p" using p by (simp add: tensor_inv_def)
  then have wf: "rank (shape p) \<le> HBI_TENSOR_MAX_RANK" by (simp add: strides_ok_def shape_wf_def)
  note lens = strides_ok_lengths [OF ok]
  then have le: "length (tdims p) = length (used_strides p)" by simp
  have "length ?k \<le> length (zip (tdims p) (used_strides p))" by (rule length_filter_le)
  then have kr: "length ?k \<le> HBI_TENSOR_MAX_RANK" using lens wf by simp
  have td: "tdims ?t = map fst ?k" and ts: "used_strides ?t = map snd ?k" by simp_all
  have sub: "set (map fst ?k) \<subseteq> set (tdims p)" "set (map snd ?k) \<subseteq> set (used_strides p)"
    by (auto simp del: set_take_subset dest: set_zip_leftD set_zip_rightD)
  have "strides_ok ?t"
    using ok kr sub prod_kept [OF le] unfolding strides_ok_def shape_wf_def td ts by auto
  moreover have "align_ok ?t" using p by (simp add: tensor_inv_def align_ok_def)
  moreover have "maps_into (unsq (tdims p)) ?t p"
    unfolding maps_into_def elem_bit_def td ts
    using unsq_kept [OF le] unsq_inj [OF le] by (auto intro!: inj_onI)
  ultimately have "\<exists>v'. refresh_layout ?t = Inr v' \<and> tensor_inv v' \<and> view_of p v'"
    by (intro refresh_view [OF p]) simp_all
  then show ?thesis using v by (auto simp: hbi_tensor_squeeze_def Let_def)
qed

lemma insert_map:
  assumes "axis \<le> n" and "n \<le> length xs"
  shows "map (\<lambda>i. if i < axis then xs ! i else if i = axis then y else xs ! (i - 1)) [0..<Suc n]
    = take axis (take n xs) @ y # drop axis (take n xs)"
  using assms by (intro nth_equalityI) (auto simp: nth_append nth_Cons' min_def less_Suc_eq simp del: upt_Suc)

lemma offset_append:
  "length xs = length ss \<Longrightarrow> offset (xs @ ys) (ss @ ts) = offset xs ss + offset ys ts"
  by (induction xs ss rule: list_induct2) auto

lemma in_box_append:
  "length xs = length ds \<Longrightarrow> in_box (xs @ ys) (ds @ es) \<longleftrightarrow> in_box xs ds \<and> in_box ys es"
  by (simp add: in_box_def list_all2_append)

lemma in_box_insert:
  assumes "in_box idx (take a ds @ 1 # drop a ds)" and "a \<le> length ds"
  obtains xs ys where "idx = xs @ 0 # ys" "length xs = a" "in_box (xs @ ys) ds"
proof -
  let ?xs = "take a idx" and ?rest = "drop a idx"
  have l: "length ?xs = length (take a ds)" using in_box_length [OF assms(1)] assms(2) by simp
  then have b: "in_box ?xs (take a ds)" "in_box ?rest (1 # drop a ds)"
    using assms(1) in_box_append [OF l, of ?rest "1 # drop a ds"] by simp_all
  obtain i ys where r: "?rest = i # ys" "i = 0" "in_box ys (drop a ds)"
    using b(2) by (cases ?rest) auto
  have "in_box (?xs @ ys) (take a ds @ drop a ds)" using in_box_append [OF l] b r by blast
  then show thesis using that [of ?xs ys] r l assms(2) by (metis append_take_drop_id length_take min.absorb2)
qed

lemma length_insert_axis: "a \<le> length xs \<Longrightarrow> length (take a xs @ y # drop a xs) = length xs + 1"
  by simp

lemma insert_axis_subset: "set (take a xs @ y # drop a xs) \<subseteq> insert y (set xs)"
  using set_take_subset [of a xs] set_drop_subset [of a xs] by auto

lemma drop_axis:
  assumes "in_box idx (take a ds @ 1 # drop a ds)" and "a \<le> length ds" and "length ss = length ds"
  shows "in_box (take a idx @ drop (a + 1) idx) ds \<and>
    offset idx (take a ss @ y # drop a ss) = offset (take a idx @ drop (a + 1) idx) ss \<and>
    take a (take a idx @ drop (a + 1) idx) @ 0 # drop a (take a idx @ drop (a + 1) idx) = idx"
proof -
  obtain xs ys where e: "idx = xs @ 0 # ys" "length xs = a" "in_box (xs @ ys) ds"
    using assms(1,2) by (rule in_box_insert)
  have l: "length xs = length (take a ss)" using e(2) assms by simp
  have "offset idx (take a ss @ y # drop a ss) = offset xs (take a ss) + offset ys (drop a ss)"
    unfolding e(1) offset_append [OF l] by simp
  also have "\<dots> = offset (xs @ ys) (take a ss @ drop a ss)"
    unfolding offset_append [OF l] ..
  finally show ?thesis using e by simp
qed

lemma unsqueeze_maps_into:
  assumes t: "tdims t = take a (tdims p) @ 1 # drop a (tdims p)"
      "used_strides t = take a (used_strides p) @ y # drop a (used_strides p)"
    and same: "dtype t = dtype p" "data t = data p"
    and a: "a \<le> length (tdims p)" "length (used_strides p) = length (tdims p)"
  shows "maps_into (\<lambda>idx. take a idx @ drop (a + 1) idx) t p"
  unfolding maps_into_def
proof (intro conjI allI impI)
  note d = drop_axis [OF _ a, where y = y, folded t]
  show "inj_on (\<lambda>idx. take a idx @ drop (a + 1) idx) {idx. in_box idx (tdims t)}"
    by (rule inj_on_inverseI [where g = "\<lambda>j. take a j @ 0 # drop a j"]) (use d in blast)
  fix idx assume i: "in_box idx (tdims t)"
  show "in_box (take a idx @ drop (a + 1) idx) (tdims p)" using d [OF i] by blast
  show "elem_bit t idx = elem_bit p (take a idx @ drop (a + 1) idx)"
    using d [OF i] same by (simp only: elem_bit_def)
qed

lemma unsqueeze_strides_ok:
  assumes ok: "strides_ok p" and a: "a \<le> rank (shape p)" "rank (shape p) + 1 \<le> HBI_TENSOR_MAX_RANK"
    and y: "0 \<le> y"
    and t: "tdims t = take a (tdims p) @ 1 # drop a (tdims p)"
      "used_strides t = take a (used_strides p) @ y # drop a (used_strides p)"
      "rank (shape t) = rank (shape p) + 1" "st_rank (strides t) = rank (shape p) + 1"
      "length (dims (shape t)) = HBI_TENSOR_MAX_RANK" "length (stride (strides t)) = HBI_TENSOR_MAX_RANK"
  shows "strides_ok t"
proof -
  have "prod_list (tdims t) = prod_list (take a (tdims p) @ drop a (tdims p))" unfolding t(1) by simp
  then have pr: "prod_list (tdims t) = prod_list (tdims p)" by (simp only: append_take_drop_id)
  have "set (tdims t) \<subseteq> insert 1 (set (tdims p))" "set (used_strides t) \<subseteq> insert y (set (used_strides p))"
    unfolding t(1,2) by (rule insert_axis_subset)+
  then show ?thesis using ok y a(2) pr t(3-6) unfolding strides_ok_def shape_wf_def by auto
qed

lemma unsqueeze_ok:
  assumes p: "tensor_inv p" and v: "hbi_tensor_unsqueeze (Some p) a = Inr v"
  shows "tensor_inv v \<and> view_of p v"
proof -
  let ?r = "rank (shape p)"
  have ok: "strides_ok p" using p by (simp add: tensor_inv_def)
  then have wf: "length (dims (shape p)) = HBI_TENSOR_MAX_RANK" "length (stride (strides p)) = HBI_TENSOR_MAX_RANK"
    by (auto simp: strides_ok_def shape_wf_def)
  have ar: "a \<le> ?r" and nr: "?r + 1 \<le> HBI_TENSOR_MAX_RANK"
    using v by (auto simp: hbi_tensor_unsqueeze_def Let_def split: if_splits)
  note lens = strides_ok_lengths [OF ok]
  define y where "y = (if a < ?r then stride (strides p) ! a else 1)"
  define ds where "ds = take a (tdims p) @ 1 # drop a (tdims p)"
  define ss where "ss = take a (used_strides p) @ y # drop a (used_strides p)"
  let ?t = "(view_seed p)\<lparr>shape := \<lparr>rank = ?r + 1, dims = ds @ drop (?r + 1) (dims (shape p))\<rparr>,
     strides := \<lparr>st_rank = ?r + 1, stride = ss @ drop (?r + 1) (stride (strides p))\<rparr>\<rparr>"
  have l: "length ds = ?r + 1" "length ss = ?r + 1"
    using lens ar unfolding ds_def ss_def by (simp_all only: length_insert_axis)
  have v': "refresh_layout ?t = Inr v"
    using v ar nr wf insert_map [OF ar, of "dims (shape p)" 1]
      insert_map [OF ar, of "stride (strides p)" "if a < ?r then stride (strides p) ! a else 1"]
    by (simp add: hbi_tensor_unsqueeze_def Let_def ds_def ss_def y_def del: upt_Suc split del: if_split)
  have td: "tdims ?t = ds" and ts: "used_strides ?t = ss" using l by simp_all
  have y0: "0 \<le> y"
  proof (cases "a < ?r")
    case True
    then have "used_strides p ! a \<in> set (used_strides p)" using lens by (intro nth_mem) simp
    then show ?thesis using ok True by (simp add: y_def strides_ok_def)
  qed (simp add: y_def)
  have "strides_ok ?t"
    using ok ar nr y0 trans [OF td ds_def] trans [OF ts ss_def]
    by (rule unsqueeze_strides_ok) (use l wf nr in simp_all)
  moreover have "align_ok ?t" using p by (simp add: tensor_inv_def align_ok_def)
  moreover have "maps_into (\<lambda>idx. take a idx @ drop (a + 1) idx) ?t p"
    using trans [OF td ds_def] trans [OF ts ss_def]
    by (rule unsqueeze_maps_into) (use lens ar in simp_all)
  ultimately show ?thesis using refresh_view [OF p, of ?t] v' by simp
qed

section \<open>Chains of views\<close>

datatype view_op =
    View | Reshape hbi_shape | Slice nat int int | Subtensor "int list" "int list" nat
  | Transpose nat nat | Permute "nat list" nat | Squeeze | Unsqueeze nat

fun apply_view :: "view_op \<Rightarrow> hbi_tensor \<Rightarrow> hbi_tensor outcome" where
  "apply_view View p = hbi_tensor_view (Some p)"
| "apply_view (Reshape ns) p = hbi_tensor_reshape (Some p) (Some ns)"
| "apply_view (Slice axis start count) p = hbi_tensor_slice (Some p) axis start count"
| "apply_view (Subtensor sts cs n) p = hbi_tensor_subtensor (Some p) (Some sts) (Some cs) n"
| "apply_view (Transpose a b) p = hbi_tensor_transpose (Some p) a b"
| "apply_view (Permute perm n) p = hbi_tensor_permute (Some p) (Some perm) n"
| "apply_view Squeeze p = hbi_tensor_squeeze (Some p)"
| "apply_view (Unsqueeze a) p = hbi_tensor_unsqueeze (Some p) a"

text \<open>
  What a caller must guarantee about the arguments: arrays as long as announced, and slice ends
  inside \<open>int64_t\<close>, since the code adds start and count without checking for overflow.
\<close>

fun view_args_ok :: "view_op \<Rightarrow> bool" where
  "view_args_ok (Reshape ns) \<longleftrightarrow> length (dims ns) = HBI_TENSOR_MAX_RANK"
| "view_args_ok (Slice axis start count) \<longleftrightarrow> start + count \<le> INT64_MAX"
| "view_args_ok (Subtensor sts cs n) \<longleftrightarrow>
     n \<le> length sts \<and> n \<le> length cs \<and> list_all (\<lambda>i. sts ! i + cs ! i \<le> INT64_MAX) [0..<n]"
| "view_args_ok (Permute perm n) \<longleftrightarrow> n \<le> length perm"
| "view_args_ok _ \<longleftrightarrow> True"

fun apply_views :: "view_op list \<Rightarrow> hbi_tensor \<Rightarrow> hbi_tensor outcome" where
  "apply_views [] p = Inr p"
| "apply_views (op # ops) p = rbind (apply_view op p) (apply_views ops)"

lemma apply_view_ok:
  assumes p: "tensor_inv p" and a: "view_args_ok op" and v: "apply_view op p = Inr v"
  shows "tensor_inv v \<and> view_of p v"
proof (cases op)
  case View
  then show ?thesis using view_ok [OF p] v by auto
next
  case (Reshape ns)
  then show ?thesis using reshape_ok [OF p, of ns v] a v by simp
next
  case (Slice axis start count)
  then show ?thesis using slice_ok [OF p, of axis start count v] a v by simp
next
  case (Subtensor sts cs n)
  then show ?thesis using subtensor_ok [OF p, of sts cs n v] a v by (simp add: list_all_iff)
next
  case (Transpose i j)
  then show ?thesis using transpose_ok [OF p, of i j v] v by simp
next
  case (Permute perm n)
  then show ?thesis using permute_ok [OF p, of perm n v] a v by simp
next
  case Squeeze
  then show ?thesis using squeeze_ok [OF p, of v] v by simp
next
  case (Unsqueeze i)
  then show ?thesis using unsqueeze_ok [OF p, of i v] v by simp
qed

lemma maps_into_trans: "maps_into f b a \<Longrightarrow> maps_into g c b \<Longrightarrow> maps_into (f \<circ> g) c a"
  unfolding maps_into_def
proof (elim conjE, intro conjI)
  assume f: "inj_on f {i. in_box i (tdims b)}" and g: "inj_on g {i. in_box i (tdims c)}"
    and m: "\<forall>i. in_box i (tdims c) \<longrightarrow> in_box (g i) (tdims b) \<and> elem_bit c i = elem_bit b (g i)"
  have "g ` {i. in_box i (tdims c)} \<subseteq> {i. in_box i (tdims b)}" using m by blast
  then show "inj_on (f \<circ> g) {i. in_box i (tdims c)}"
    using comp_inj_on [OF g] inj_on_subset [OF f] by blast
qed simp

lemma view_of_trans: "view_of a b \<Longrightarrow> view_of b c \<Longrightarrow> view_of a c"
proof -
  assume ab: "view_of a b" and bc: "view_of b c"
  obtain f g where "maps_into f b a" "maps_into g c b" using ab bc by (auto simp: view_of_def)
  then have "\<exists>h. maps_into h c a" using maps_into_trans by blast
  then show ?thesis using ab bc by (simp add: view_of_def)
qed

lemma apply_views_ok:
  "tensor_inv p \<Longrightarrow> list_all view_args_ok (op # ops) \<Longrightarrow> apply_views (op # ops) p = Inr v \<Longrightarrow>
     tensor_inv v \<and> view_of p v"
proof (induction ops arbitrary: op p)
  case Nil
  then show ?case using apply_view_ok by (auto simp: res_simps)
next
  case (Cons op' ops)
  then obtain u where u: "apply_view op p = Inr u" "apply_views (op' # ops) u = Inr v"
    by (auto simp: res_simps)
  have "tensor_inv u \<and> view_of p u" using apply_view_ok [OF _ _ u(1)] Cons.prems by simp
  moreover have "tensor_inv v \<and> view_of u v" using Cons.IH [OF _ _ u(2)] calculation Cons.prems by simp
  ultimately show ?case using view_of_trans by blast
qed

section \<open>Copying elements\<close>

fun runrank :: "int list \<Rightarrow> int \<Rightarrow> int list" where
  "runrank [] n = []"
| "runrank (d # rds) n = (n mod d) # runrank rds (n div d)"

lemma odometer_runrank:
  "(\<forall>d \<in> set rds. 0 < d) \<Longrightarrow> 0 \<le> n \<Longrightarrow> odometer (runrank rds n) rds = runrank rds (n + 1)"
proof (induction rds arbitrary: n)
  case (Cons d rds)
  have d: "0 < d" using Cons.prems by simp
  have n: "n = d * (n div d) + n mod d" by simp
  show ?case
  proof (cases "n mod d + 1 < d")
    case True
    have e: "n + 1 = d * (n div d) + (n mod d + 1)" using n by simp
    have "0 \<le> n mod d + 1" using pos_mod_sign [OF d, of n] by simp
    then have "(n + 1) mod d = n mod d + 1" "(n + 1) div d = n div d"
      using int_mod_pos_eq [OF e] int_div_pos_eq [OF e] True by blast+
    then show ?thesis using True by simp
  next
    case False
    then have "n mod d + 1 = d" using pos_mod_bound [OF d, of n] by linarith
    then have "n + 1 = d * (n div d) + d" using n by linarith
    then have e: "n + 1 = d * (n div d + 1)" by (simp only: distrib_left mult_1_right)
    then have "(n + 1) mod d = 0 \<and> (n + 1) div d = n div d + 1" using d by simp
    moreover have "0 \<le> n div d" using Cons.prems(2) d by (simp add: pos_imp_zdiv_nonneg_iff)
    ultimately show ?thesis using False Cons.IH [of "n div d"] Cons.prems(1) by simp
  qed
qed simp

lemma unrank_snoc:
  "(\<forall>x \<in> set (ds @ [d]). 0 < x) \<Longrightarrow> 0 \<le> n \<Longrightarrow> n < prod_list ds * d \<Longrightarrow>
     unrank (ds @ [d]) n = unrank ds (n div d) @ [n mod d]"
proof (induction ds arbitrary: n)
  case (Cons e ds)
  let ?P = "prod_list ds"
  have P: "0 < ?P * d" using Cons.prems(1) by (auto intro!: mult_pos_pos prod_list_pos)
  let ?m = "n mod (?P * d)"
  have m: "?m = d * (n div d mod ?P) + n mod d"
    using zmod_zmult2_eq [of ?P n d] Cons.prems(1) prod_list_pos [of ds] by (simp add: mult.commute)
  have "?m div d = n div d mod ?P" "?m mod d = n mod d"
    using Cons.prems(1) by (simp_all add: m)
  moreover have "n div (?P * d) = n div d div ?P"
    using zdiv_zmult2_eq [of ?P n d] Cons.prems(1) prod_list_pos [of ds] by (simp add: mult.commute)
  moreover have "unrank (ds @ [d]) ?m = unrank ds (?m div d) @ [?m mod d]"
    using Cons.prems(1) P by (intro Cons.IH) auto
  ultimately show ?case by simp
qed simp

lemma unrank_runrank:
  "(\<forall>x \<in> set ds. 0 < x) \<Longrightarrow> 0 \<le> n \<Longrightarrow> n < prod_list ds \<Longrightarrow> unrank ds n = rev (runrank (rev ds) n)"
proof (induction ds arbitrary: n rule: rev_induct)
  case (snoc d ds)
  have "n div d < prod_list ds" using snoc.prems by (intro div_less_mono_hb) auto
  moreover have "0 \<le> n div d" using snoc.prems by (simp add: pos_imp_zdiv_nonneg_iff)
  ultimately show ?case using snoc unrank_snoc [of ds d n] by simp
qed simp

lemma odometer_unrank:
  assumes "\<forall>d \<in> set ds. 0 < d" and "0 \<le> n" and "n + 1 < prod_list ds"
  shows "rev (odometer (rev (unrank ds n)) (rev ds)) = unrank ds (n + 1)"
  using assms odometer_runrank [of "rev ds" n] unrank_runrank [of ds n] unrank_runrank [of ds "n + 1"]
  by simp

lemma unrank_0: "(\<forall>d \<in> set ds. 0 < d) \<Longrightarrow> unrank ds 0 = replicate (length ds) 0"
  by (induction ds) auto

text \<open>Byte address of an element of a byte-addressable tensor.\<close>

definition elem_addr :: "hbi_tensor \<Rightarrow> int list \<Rightarrow> nat" where
  "elem_addr t idx = data t + nat (offset idx (used_strides t)) * (hbi_dtype_bits (dtype t) div 8)"

lemma elems_loop_offset:
  "in_box is ds \<Longrightarrow> length ss = length ds \<Longrightarrow> (\<forall>s \<in> set ss. 0 \<le> s) \<Longrightarrow> 0 \<le> acc \<Longrightarrow>
     acc + max_offset ds ss \<le> INT64_MAX \<Longrightarrow> elems_loop is ss acc = acc + offset is ss"
proof (induction ds arbitrary: "is" ss acc)
  case (Cons d ds)
  obtain i is' s ss' where e: "is = i # is'" "0 \<le> i" "i < d" "in_box is' ds" "ss = s # ss'"
    using Cons.prems by (auto simp: in_box_Cons length_Suc_conv)
  have t: "0 \<le> i * s" "i * s \<le> (d - 1) * s"
    using e Cons.prems(3) by (auto intro!: mult_right_mono)
  have m: "0 \<le> max_offset ds ss'"
    using offset_le_max [OF e(4), of ss'] Cons.prems e by auto
  have "wrap_i64 (i * s) = i * s" "wrap_i64 (acc + i * s) = acc + i * s"
    using t m Cons.prems(4,5) by (auto simp: e intro!: wrap_i64_id in_i64I)
  moreover have "elems_loop is' ss' (acc + i * s) = acc + i * s + offset is' ss'"
    using Cons.prems t m e by (intro Cons.IH) auto
  ultimately show ?case by (simp add: e)
qed simp

lemma quot8_mult: "quot8 (8 * x) = x"
  using quot8_exact [of "8 * x"] by simp

lemma elem_byte_offset_exact:
  assumes t: "tensor_inv t" and i: "in_box idx (tdims t)" and nb: "\<not> hbi_dtype_is_sub_byte (dtype t)"
  shows "addr_add (data t) (elem_byte_offset (strides t) idx (rank (shape t))
      (hbi_dtype_bits (dtype t) div 8 * 8)) = elem_addr t idx"
proof -
  let ?o = "offset idx (used_strides t)" and ?eb = "hbi_dtype_bits (dtype t) div 8"
  have valid: "hbi_dtype_is_valid (dtype t)" and ok: "strides_ok t" using t by (auto simp: tensor_inv_def)
  have eb: "hbi_dtype_bits (dtype t) = 8 * ?eb" using dtype_byte_bits [OF valid nb] by simp
  have li: "take (rank (shape t)) idx = idx"
    using in_box_length [OF i] strides_ok_lengths [OF ok] by simp
  have sp: "span_of t \<le> INT64_MAX" using t span_bits_ge [of t] ok unfolding tensor_inv_def by auto
  have "elems_loop idx (used_strides t) 0 = 0 + ?o"
    using i ok strides_ok_lengths [OF ok] sp
    by (intro elems_loop_offset) (auto simp: strides_ok_def span_of_def)
  moreover have o: "0 \<le> ?o" "?o \<le> span_of t"
    using offset_le_max [OF i, of "used_strides t"] ok strides_ok_lengths [OF ok]
    by (auto simp: strides_ok_def span_of_def)
  moreover have le: "0 \<le> ?o * tbits t" "?o * tbits t \<le> span_of t * tbits t"
    using o by (auto intro: mult_right_mono)
  moreover have cap: "span_of t * tbits t \<le> INT64_MAX - 7" "span_of t * tbits t \<le> 8 * int (nbytes t)"
    "int (data t) + int (nbytes t) < 2 ^ 64"
    using t by (auto simp: tensor_inv_def)
  moreover have "wrap_i64 (?o * tbits t) = ?o * tbits t"
    using le cap(1) by (intro wrap_i64_id in_i64I) linarith+
  moreover have b8: "?o * tbits t = 8 * (?o * int ?eb)" using eb by (metis (no_types) int_ops(7) mult.left_commute of_nat_numeral)
  ultimately have "elem_byte_offset (strides t) idx (rank (shape t)) (hbi_dtype_bits (dtype t))
      = quot8 (8 * (?o * int ?eb))"
    by (simp only: elem_byte_offset_def li add_0)
  then have off: "elem_byte_offset (strides t) idx (rank (shape t)) (?eb * 8) = ?o * int ?eb"
    using eb by (simp add: quot8_mult mult.commute [of ?eb 8])
  have "int (data t) + ?o * int ?eb < 2 ^ 64" using le(2) cap(2,3) b8 by linarith
  then show ?thesis using o(1) by (simp add: off addr_add_def elem_addr_def nat_add_distrib nat_mult_distrib)
qed

text \<open>A sequence of block copies to pairwise disjoint destinations, none of which is a source.\<close>

fun block_copies :: "(nat \<times> nat) list \<Rightarrow> nat \<Rightarrow> memory \<Rightarrow> memory" where
  "block_copies [] n m = m"
| "block_copies ((d, s) # ps) n m = block_copies ps n (memcpy d s n m)"

definition apart :: "nat \<Rightarrow> nat \<Rightarrow> nat \<Rightarrow> bool" where
  "apart n a b \<longleftrightarrow> a + n \<le> b \<or> b + n \<le> a"

lemma block_copies_frame:
  "(\<And>x. x \<in> set xs \<Longrightarrow> a < D x \<or> D x + n \<le> a) \<Longrightarrow>
     block_copies (map (\<lambda>x. (D x, S x)) xs) n m a = m a"
proof (induction xs arbitrary: m)
  case (Cons x xs)
  have "a < D x \<or> D x + n \<le> a" using Cons.prems by simp
  then have "memcpy (D x) (S x) n m a = m a" by (auto simp: memcpy_def)
  then show ?case using Cons.IH [of "memcpy (D x) (S x) n m"] Cons.prems by simp
qed simp

lemma block_copies_get:
  assumes "distinct xs" and "x \<in> set xs" and "k < n"
    and "\<And>x y. x \<in> set xs \<Longrightarrow> y \<in> set xs \<Longrightarrow> x \<noteq> y \<Longrightarrow> apart n (D x) (D y)"
    and "\<And>x y. x \<in> set xs \<Longrightarrow> y \<in> set xs \<Longrightarrow> apart n (D x) (S y)"
  shows "block_copies (map (\<lambda>x. (D x, S x)) xs) n m (D x + k) = m (S x + k)"
  using assms
proof (induction xs arbitrary: m)
  case (Cons y xs)
  show ?case
  proof (cases "x = y")
    case True
    have "D x + k < D z \<or> D z + n \<le> D x + k" if "z \<in> set xs" for z
    proof -
      have "apart n (D x) (D z)" using Cons.prems(1,4) that True by auto
      then show ?thesis using Cons.prems(3) by (auto simp: apart_def)
    qed
    then have "block_copies (map (\<lambda>x. (D x, S x)) xs) n (memcpy (D x) (S x) n m) (D x + k)
        = memcpy (D x) (S x) n m (D x + k)"
      by (rule block_copies_frame)
    then show ?thesis using True Cons.prems(3) by (simp add: memcpy_def)
  next
    case False
    have "block_copies (map (\<lambda>x. (D x, S x)) xs) n (memcpy (D y) (S y) n m) (D x + k)
        = memcpy (D y) (S y) n m (S x + k)"
      using Cons.prems False by (intro Cons.IH) auto
    moreover have "apart n (D y) (S x)" using Cons.prems(2,5) by simp
    ultimately show ?thesis using Cons.prems(3) by (auto simp: memcpy_def apart_def)
  qed
qed simp

text \<open>The multi-indices of a shape in row-major order.\<close>

definition box_list :: "int list \<Rightarrow> int list list" where
  "box_list ds = map (\<lambda>j. unrank ds (int j)) [0..<nat (prod_list ds)]"

lemma box_list_props:
  assumes pos: "\<forall>d \<in> set ds. 0 < d"
  shows "distinct (box_list ds) \<and> set (box_list ds) = {idx. in_box idx ds}"
proof
  have u: "in_box (unrank ds (int j)) ds \<and> offset (unrank ds (int j)) (cstr ds) = int j"
    if "j < nat (prod_list ds)" for j
    using unrank_in_box [OF pos, of "int j"] that by simp
  show "distinct (box_list ds)"
    unfolding box_list_def distinct_map by (auto intro!: inj_onI dest: u) (metis u of_nat_eq_iff)
  show "set (box_list ds) = {idx. in_box idx ds}"
  proof (intro equalityI subsetI)
    fix x assume "x \<in> {idx. in_box idx ds}"
    then have "unrank ds (offset x (cstr ds)) = x" "0 \<le> offset x (cstr ds)" "offset x (cstr ds) < prod_list ds"
      using unrank_offset [OF pos] offset_cstr_bound [OF pos] by auto
    then show "x \<in> set (box_list ds)"
      by (auto simp: box_list_def intro!: image_eqI [where x = "nat (offset x (cstr ds))"])
  qed (auto simp: box_list_def u)
qed

lemma copy_loop_block_copies:
  assumes pos: "\<forall>d \<in> set (tdims src). 0 < d" and "int n + int k \<le> prod_list (tdims src)"
    and ss: "\<And>idx. in_box idx (tdims src) \<Longrightarrow>
        addr_add (data src) (elem_byte_offset (strides src) idx (rank (shape src)) (eb * 8)) = S idx"
    and dd: "\<And>idx. in_box idx (tdims src) \<Longrightarrow>
        addr_add (data dst) (elem_byte_offset (strides dst) idx (rank (shape src)) (eb * 8)) = D idx"
  shows "copy_loop src dst eb k (unrank (tdims src) (int n)) m =
    block_copies (map (\<lambda>j. (D (unrank (tdims src) (int j)), S (unrank (tdims src) (int j)))) [n..<n + k]) eb m"
  using assms(2)
proof (induction k arbitrary: n m)
  case (Suc k)
  let ?i = "unrank (tdims src) (int n)"
  have ib: "in_box ?i (tdims src)" using unrank_in_box [OF pos] Suc.prems by simp
  have up: "[n..<n + Suc k] = n # [Suc n..<Suc n + k]" by (simp add: upt_rec)
  have "copy_loop src dst eb (Suc k) ?i m =
      copy_loop src dst eb k (rev (odometer (rev ?i) (rev (tdims src)))) (memcpy (D ?i) (S ?i) eb m)"
    using ss [OF ib] dd [OF ib] by (simp add: Let_def)
  also have "\<dots> = block_copies
      (map (\<lambda>j. (D (unrank (tdims src) (int j)), S (unrank (tdims src) (int j)))) [Suc n..<Suc n + k])
      eb (memcpy (D ?i) (S ?i) eb m)"
  proof (cases k)
    case (Suc k')
    then have "rev (odometer (rev ?i) (rev (tdims src))) = unrank (tdims src) (int (Suc n))"
      using odometer_unrank [OF pos, of "int n"] Suc.prems by (simp add: add.commute)
    then show ?thesis using Suc.IH [of "Suc n"] Suc.prems by simp
  qed simp
  finally show ?case unfolding up by simp
qed simp

lemma total_foldl:
  "1 \<le> acc \<Longrightarrow> (\<forall>d \<in> set ds. 0 < d) \<Longrightarrow> acc * prod_list ds < 2 ^ 63 \<Longrightarrow>
     foldl (\<lambda>acc d. wrap_i64 (acc * d)) acc ds = acc * prod_list ds"
proof (induction ds arbitrary: acc)
  case (Cons d ds)
  have p: "1 \<le> prod_list ds" using Cons.prems(2) prod_list_pos [of ds] by fastforce
  have a: "1 \<le> acc * d" using Cons.prems mult_ge_1 [of acc d] by auto
  have "acc * d \<le> acc * d * prod_list ds" using a p by (rule mult_ge_left)
  then have "wrap_i64 (acc * d) = acc * d"
    using a Cons.prems(3) by (intro wrap_i64_id) (simp add: in_i64_def mult.assoc)
  then show ?case using Cons.IH [of "acc * d"] Cons.prems a by (simp add: mult.assoc)
qed simp

text \<open>
  The strided copy between two tensors of one shape and byte-addressable type, when the elements
  of the destination do not overlap each other or the source.
\<close>

definition dst_injective :: "hbi_tensor \<Rightarrow> bool" where
  "dst_injective t \<longleftrightarrow> inj_on (\<lambda>idx. offset idx (used_strides t)) {idx. in_box idx (tdims t)}"

definition separate :: "hbi_tensor \<Rightarrow> hbi_tensor \<Rightarrow> bool" where
  "separate a b \<longleftrightarrow> data a + nbytes a \<le> data b \<or> data b + nbytes b \<le> data a"

lemma elem_addr_range:
  assumes "tensor_inv t" and "in_box idx (tdims t)" and "\<not> hbi_dtype_is_sub_byte (dtype t)"
  shows "data t \<le> elem_addr t idx \<and>
    elem_addr t idx + hbi_dtype_bits (dtype t) div 8 \<le> data t + nbytes t \<and>
    8 * int (elem_addr t idx) = elem_bit t idx"
proof -
  let ?eb = "hbi_dtype_bits (dtype t) div 8"
  have valid: "hbi_dtype_is_valid (dtype t)" using assms(1) by (simp add: tensor_inv_def)
  have eb: "hbi_dtype_bits (dtype t) = 8 * ?eb" using dtype_byte_bits [OF valid assms(3)] by simp
  have "0 \<le> offset idx (used_strides t)"
    using offset_le_max [OF assms(2), of "used_strides t"] assms(1) strides_ok_lengths [of t]
    by (auto simp: tensor_inv_def strides_ok_def)
  then have a: "8 * int (elem_addr t idx) = elem_bit t idx"
    using arg_cong [OF eb, of int] by (simp add: elem_addr_def elem_bit_def)
  have "tbits t = 8 * int ?eb" using arg_cong [OF eb, of int] by simp
  then have "8 * int (elem_addr t idx) + 8 * int ?eb \<le> 8 * int (data t + nbytes t)"
    using elem_bit_range [OF assms(1,2)] a by linarith
  then have "elem_addr t idx + ?eb \<le> data t + nbytes t" by (intro nat8_le) simp
  moreover have "data t \<le> elem_addr t idx" by (simp add: elem_addr_def)
  ultimately show ?thesis using a by blast
qed

lemma elem_addr_apart:
  assumes t: "tensor_inv t" "dst_injective t" "\<not> hbi_dtype_is_sub_byte (dtype t)"
    and x: "in_box x (tdims t)" and y: "in_box y (tdims t)" and "x \<noteq> y"
  shows "apart (hbi_dtype_bits (dtype t) div 8) (elem_addr t x) (elem_addr t y)"
proof -
  let ?eb = "hbi_dtype_bits (dtype t) div 8"
  let ?o = "\<lambda>idx. nat (offset idx (used_strides t))"
  have nn: "0 \<le> offset idx (used_strides t)" if "in_box idx (tdims t)" for idx
    using offset_le_max [OF that, of "used_strides t"] t(1) strides_ok_lengths [of t]
    by (auto simp: tensor_inv_def strides_ok_def)
  have "offset x (used_strides t) \<noteq> offset y (used_strides t)"
    using t(2) x y \<open>x \<noteq> y\<close> by (auto simp: dst_injective_def inj_on_def)
  then have "?o x \<noteq> ?o y" using nn [OF x] nn [OF y] by simp
  then consider "?o x + 1 \<le> ?o y" | "?o y + 1 \<le> ?o x" by linarith
  then show ?thesis
  proof cases
    case 1
    then have "(?o x + 1) * ?eb \<le> ?o y * ?eb" by (rule mult_le_mono1)
    then show ?thesis by (simp add: apart_def elem_addr_def)
  next
    case 2
    then have "(?o y + 1) * ?eb \<le> ?o x * ?eb" by (rule mult_le_mono1)
    then show ?thesis by (simp add: apart_def elem_addr_def)
  qed
qed

lemma strided_copy_block_copies:
  assumes src: "tensor_inv src" and dst: "tensor_inv dst"
    and same: "dtype dst = dtype src" "tdims dst = tdims src" "rank (shape dst) = rank (shape src)"
    and nb: "\<not> hbi_dtype_is_sub_byte (dtype src)"
  shows "strided_copy_bytes src dst (hbi_dtype_bits (dtype src) div 8) m =
    block_copies (map (\<lambda>x. (elem_addr dst x, elem_addr src x)) (box_list (tdims src)))
      (hbi_dtype_bits (dtype src) div 8) m"
proof -
  let ?ds = "tdims src"
  have pos: "\<forall>d \<in> set ?ds. 0 < d" and lt: "prod_list ?ds < 2 ^ 63"
    using src by (auto simp: tensor_inv_def strides_ok_def shape_wf_def)
  have P: "0 < prod_list ?ds" using pos by (intro prod_list_pos) simp
  have tot: "foldl (\<lambda>acc d. wrap_i64 (acc * d)) 1 ?ds = prod_list ?ds"
    using total_foldl [of 1 ?ds] pos lt by simp
  have z: "replicate (rank (shape src)) 0 = unrank ?ds (int 0)"
    using unrank_0 [OF pos] src strides_ok_lengths [of src] by (simp add: tensor_inv_def)
  have "copy_loop src dst (hbi_dtype_bits (dtype src) div 8) (nat (prod_list ?ds)) (unrank ?ds (int 0)) m
      = block_copies (map (\<lambda>j. (elem_addr dst (unrank ?ds (int j)), elem_addr src (unrank ?ds (int j))))
          [0..<0 + nat (prod_list ?ds)]) (hbi_dtype_bits (dtype src) div 8) m"
    using pos P elem_byte_offset_exact [OF src _ nb] elem_byte_offset_exact [OF dst] same nb
    by (intro copy_loop_block_copies) auto
  then show ?thesis
    unfolding strided_copy_bytes_def Let_def tot z by (simp add: box_list_def comp_def)
qed

lemma strided_copy_correct:
  assumes src: "tensor_inv src" and dst: "tensor_inv dst" "dst_injective dst"
    and same: "dtype dst = dtype src" "tdims dst = tdims src" "rank (shape dst) = rank (shape src)"
    and sep: "separate src dst" and nb: "\<not> hbi_dtype_is_sub_byte (dtype src)"
    and m': "m' = strided_copy_bytes src dst (hbi_dtype_bits (dtype src) div 8) m"
  shows "\<And>idx k. in_box idx (tdims src) \<Longrightarrow> k < hbi_dtype_bits (dtype src) div 8 \<Longrightarrow>
        m' (elem_addr dst idx + k) = m (elem_addr src idx + k)"
    and "\<And>a. a < data dst \<or> data dst + nbytes dst \<le> a \<Longrightarrow> m' a = m a"
proof -
  let ?eb = "hbi_dtype_bits (dtype src) div 8" and ?ds = "tdims src"
  have pos: "\<forall>d \<in> set ?ds. 0 < d"
    using src by (auto simp: tensor_inv_def strides_ok_def shape_wf_def)
  note bl = box_list_props [OF pos]
  have mb: "m' = block_copies (map (\<lambda>x. (elem_addr dst x, elem_addr src x)) (box_list ?ds)) ?eb m"
    unfolding m' using src dst(1) same nb by (rule strided_copy_block_copies)
  have rng: "data dst \<le> elem_addr dst x" "elem_addr dst x + ?eb \<le> data dst + nbytes dst"
      "data src \<le> elem_addr src x" "elem_addr src x + ?eb \<le> data src + nbytes src"
    if "x \<in> set (box_list ?ds)" for x
    using elem_addr_range [OF dst(1), of x] elem_addr_range [OF src, of x] that same nb bl by auto
  have ap: "apart ?eb (elem_addr dst x) (elem_addr dst y)"
    if "x \<in> set (box_list ?ds)" "y \<in> set (box_list ?ds)" "x \<noteq> y" for x y
    using elem_addr_apart [OF dst, of x y] that same nb bl by simp
  have as: "apart ?eb (elem_addr dst x) (elem_addr src y)"
    if "x \<in> set (box_list ?ds)" "y \<in> set (box_list ?ds)" for x y
    using rng(1,2) [OF that(1)] rng(3,4) [OF that(2)] sep unfolding apart_def separate_def by linarith
  show "m' (elem_addr dst idx + k) = m (elem_addr src idx + k)" if "in_box idx ?ds" "k < ?eb" for idx k
    unfolding mb using bl that ap as by (intro block_copies_get) auto
  show "m' a = m a" if "a < data dst \<or> data dst + nbytes dst \<le> a" for a
    unfolding mb using rng(1,2) that by (intro block_copies_frame) fastforce
qed

section \<open>Created tensors\<close>

lemma contiguous_created:
  assumes s: "length (dims sh) = HBI_TENSOR_MAX_RANK" "hbi_shape_validate (Some sh) = HBI_OK"
    and c: "hbi_shape_elem_count (Some sh) = Inr count" "hbi_dtype_packed_nbytes dt count = Inr need"
    and st: "hbi_strides_init_contiguous (Some sh) = Inr st"
    and t: "dtype t = dt" "shape t = sh" "strides t = st" "contiguous t" "need \<le> nbytes t"
      "0 < data t" "data t + nbytes t < 2 ^ 64" "align_ok t"
  shows "tensor_inv t \<and> dst_injective t \<and> 8 * int need < prod_list (used_dims sh) * int (hbi_dtype_bits dt) + 8"
proof -
  have wf: "shape_wf sh" using s shape_validate_OK by blast
  then have pos: "\<forall>d \<in> set (used_dims sh). 0 < d" by (simp add: shape_wf_def)
  note f = strides_init_contiguous_Inr [OF st s(1)]
  have cnt: "count = prod_list (used_dims sh)" using c(1) elem_count_wf [OF wf] by simp
  have ok: "strides_ok t"
    using f t cstr_nonneg [OF pos] by (auto simp: strides_ok_def intro: order_less_imp_le)
  have sp: "span_of t = count" using f t max_offset_cstr [OF pos] cnt by (simp add: span_of_def)
  have n: "hbi_dtype_is_valid dt" "count * int (hbi_dtype_bits dt) \<le> INT64_MAX - 7"
    "need = nat ((count * int (hbi_dtype_bits dt) + 7) div 8)" "0 \<le> count"
    using c(2) by (auto simp: packed_nbytes_Inr)
  have "0 \<le> count * int (hbi_dtype_bits dt)" using n(4) by simp
  note cb = ceil8_bounds [OF this, folded n(3)]
  have "count * int (hbi_dtype_bits dt) \<le> 8 * int (nbytes t)" using cb t(5) by simp
  then have "tensor_inv t" using n(1,2) ok sp t f by (simp add: tensor_inv_def)
  moreover have "dst_injective t"
    using unrank_offset [OF pos] f t by (auto simp: dst_injective_def intro!: inj_on_inverseI [where g = "unrank (used_dims sh)"])
  ultimately show ?thesis using cb cnt by simp
qed

lemma contiguous_capacity:
  assumes "tensor_inv t" and "contiguous t" and "8 * int n < prod_list (tdims t) * tbits t + 8"
  shows "n \<le> nbytes t"
proof -
  have "\<forall>d \<in> set (tdims t). 0 < d" using assms(1) strides_ok_pos by (auto simp: tensor_inv_def)
  then have "span_of t = prod_list (tdims t)"
    using assms(1,2) max_offset_cstr by (simp add: span_of_def tensor_inv_def)
  then have "prod_list (tdims t) * tbits t \<le> 8 * int (nbytes t)"
    using assms(1) by (simp add: tensor_inv_def)
  then show ?thesis using assms(3) by linarith
qed

lemma set_quant_simps [simp]:
  "tensor_inv (t\<lparr>quant := q\<rparr>) = tensor_inv t"
  "dst_injective (t\<lparr>quant := q\<rparr>) = dst_injective t"
  "elem_addr (t\<lparr>quant := q\<rparr>) idx = elem_addr t idx"
  by (simp_all add: tensor_inv_def dst_injective_def strides_ok_def align_ok_def span_of_def elem_addr_def)

lemma pow2_64: "hbi_is_pow2 (64 :: u64)"
  by (simp add: hbi_is_pow2_def)

lemma dtype_align_dvd_64: "hbi_dtype_is_valid dt \<Longrightarrow> hbi_dtype_align dt dvd 64"
  by (cases dt) (simp_all add: dtype_valid_iff)

lemma alloc_ok:
  assumes a: "hbi_tensor_alloc dt (Some sh) buf m = Inr (t, m')"
    and len: "length (dims sh) = HBI_TENSOR_MAX_RANK" and buf: "64 dvd buf" "buf + nbytes t < 2 ^ 64"
  shows "tensor_inv t \<and> dst_injective t \<and> dtype t = dt \<and> shape t = sh \<and> data t = buf \<and> buf \<noteq> 0 \<and>
    ownership t = HBI_TENSOR_OWNED \<and> quant t = zero_quant \<and> contiguous t \<and> \<not> read_only t \<and>
    m' = memset0 buf (nbytes t) m \<and>
    8 * int (nbytes t) < prod_list (used_dims sh) * int (hbi_dtype_bits dt) + 8"
proof -
  obtain count bytes st where h: "hbi_dtype_is_valid dt" "hbi_shape_validate (Some sh) = HBI_OK"
    "hbi_shape_elem_count (Some sh) = Inr count" "hbi_dtype_packed_nbytes dt count = Inr bytes"
    "hbi_strides_init_contiguous (Some sh) = Inr st" "buf \<noteq> 0"
    and t: "t = zero_tensor\<lparr>dtype := dt, shape := sh, strides := st, data := buf,
      nbytes := bytes, align := 64, ownership := HBI_TENSOR_OWNED,
      device := HBI_TENSOR_DEVICE_CPU, read_only := False, contiguous := True\<rparr>"
    and m': "m' = memset0 buf bytes m"
    using a by (auto simp: hbi_tensor_alloc_def tensor_alloc_impl_def HBI_TENSOR_DEFAULT_ALIGN_def
        res_simps split: if_splits)
  have "align_ok t"
    using buf pow2_64 dtype_align_dvd_64 [OF h(1)] by (auto simp: t align_ok_def dvd_trans)
  then have "tensor_inv t \<and> dst_injective t \<and>
      8 * int bytes < prod_list (used_dims sh) * int (hbi_dtype_bits dt) + 8"
    using h(6) buf(2) by (intro contiguous_created [OF len h(2-5)]) (simp_all add: t)
  then show ?thesis using h(6) m' by (simp add: t zero_tensor_def)
qed

lemma wrap_ok:
  assumes a: "tensor_wrap_impl dt (Some sh) p n ro = Inr t"
    and len: "length (dims sh) = HBI_TENSOR_MAX_RANK" and buf: "p + n < 2 ^ 64"
  shows "tensor_inv t \<and> quant t = zero_quant \<and> data t = p \<and> nbytes t = n \<and> read_only t = ro \<and>
    ownership t = HBI_TENSOR_BORROWED"
proof -
  obtain count need st where h: "hbi_dtype_is_valid dt" "hbi_shape_validate (Some sh) = HBI_OK"
    "hbi_shape_elem_count (Some sh) = Inr count" "hbi_dtype_packed_nbytes dt count = Inr need"
    "hbi_strides_init_contiguous (Some sh) = Inr st" "p \<noteq> 0" "need \<le> n"
    "hbi_dtype_align dt = 0 \<or> p mod hbi_dtype_align dt = 0"
    and t: "t = zero_tensor\<lparr>dtype := dt, shape := sh, strides := st, data := p, nbytes := n,
       align := (if hbi_dtype_align dt = 0 then 1 else hbi_dtype_align dt),
       ownership := HBI_TENSOR_BORROWED,
       device := HBI_TENSOR_DEVICE_CPU, read_only := ro, contiguous := True\<rparr>"
    using a by (auto simp: tensor_wrap_impl_def Let_def res_simps split: if_splits)
  have "align_ok t"
    using h(8) dtype_align_pos [OF h(1)] dtype_align_pow2 [OF h(1)] by (simp add: t align_ok_def)
  then have "tensor_inv t"
    using h(6,7) buf contiguous_created [OF len h(2-5), of t] by (simp add: t)
  then show ?thesis by (simp add: t zero_tensor_def)
qed

text \<open>
  A tensor as a caller obtains it: allocated at an address of the platform allocator (64-byte
  aligned, inside the address space), or wrapped around a buffer inside the address space.
\<close>

definition created :: "hbi_tensor \<Rightarrow> bool" where
  "created p \<longleftrightarrow>
     (\<exists>dt sh buf m m'. hbi_tensor_alloc dt (Some sh) buf m = Inr (p, m') \<and>
        length (dims sh) = HBI_TENSOR_MAX_RANK \<and> 64 dvd buf \<and> buf + nbytes p < 2 ^ 64) \<or>
     (\<exists>dt sh buf n ro. tensor_wrap_impl dt (Some sh) buf n ro = Inr p \<and>
        length (dims sh) = HBI_TENSOR_MAX_RANK \<and> buf + n < 2 ^ 64)"

lemma created_ok: "created p \<Longrightarrow> tensor_inv p \<and> quant p = zero_quant"
  unfolding created_def using alloc_ok wrap_ok by blast


lemma validate_strides_ok:
  assumes "hbi_tensor_validate (Some t) = HBI_OK" and "length (dims (shape t)) = HBI_TENSOR_MAX_RANK"
    and "length (stride (strides t)) = HBI_TENSOR_MAX_RANK"
  shows "hbi_dtype_is_valid (dtype t) \<and> strides_ok t \<and> span_of t * tbits t \<le> 8 * int (nbytes t)"
proof -
  have v: "hbi_dtype_is_valid (dtype t)" "hbi_shape_validate (Some (shape t)) = HBI_OK"
    "hbi_strides_validate (Some (strides t)) (Some (shape t)) = HBI_OK"
    using assms(1) by (auto simp: hbi_tensor_validate_def split: if_splits)
  have wf: "shape_wf (shape t)" using v(2) assms(2) shape_validate_OK by blast
  then have l: "length (used_strides t) = length (tdims t)" using assms(2,3) by (simp add: shape_wf_def)
  have rk: "st_rank (strides t) = rank (shape t)" and sc: "strides_scan (tdims t) (used_strides t) 0 = HBI_OK"
    using v(3) by (auto simp: hbi_strides_validate_def split: if_splits)
  have nn: "(\<forall>s \<in> set (used_strides t). 0 \<le> s) \<and> 0 + max_offset (tdims t) (used_strides t) < 2 ^ 63"
    using strides_scan_OK [OF shape_wf_dims_bound [OF wf] l, of 0] sc by simp
  then have ok: "strides_ok t" using wf rk assms(3) by (simp add: strides_ok_def)
  have lo: "span_loop (tdims t) (used_strides t) 0 = Inr (wrap_i64 (0 + max_offset (tdims t) (used_strides t) + 1))"
    using nn by (intro span_loop_ok [OF shape_wf_dims_bound [OF wf] l]) auto
  then have se: "span_elems (shape t) (strides t) = Inr (wrap_i64 (span_of t))"
    by (simp add: span_elems_def span_of_def)
  obtain need where need: "hbi_dtype_packed_nbytes (dtype t) (wrap_i64 (span_of t)) = Inr need" "need \<le> nbytes t"
    using assms(1) v se packed_nbytes_err [of "dtype t" "wrap_i64 (span_of t)"]
    by (cases "hbi_dtype_packed_nbytes (dtype t) (wrap_i64 (span_of t))")
      (auto simp: hbi_tensor_validate_def split: if_splits)
  have "span_of t < 2 ^ 63"
  proof (rule ccontr)
    assume "\<not> span_of t < 2 ^ 63"
    then have "span_of t = 2 ^ 63" using nn by (simp add: span_of_def)
    then have "wrap_i64 (span_of t) < 0" by (simp add: wrap_i64_def)
    then show False using need(1) by (simp add: packed_nbytes_Inr)
  qed
  then have "wrap_i64 (span_of t) = span_of t"
    using span_pos [OF ok] by (intro wrap_i64_id) (simp add: in_i64_def)
  then have n: "need = nat ((span_of t * tbits t + 7) div 8)"
    using need(1) by (simp add: packed_nbytes_Inr)
  have "0 \<le> span_of t * tbits t" using span_pos [OF ok] by simp
  from ceil8_bounds [OF this, folded n] have "span_of t * tbits t \<le> 8 * int (nbytes t)"
    using need(2) by simp
  then show ?thesis using v ok by simp
qed

section \<open>Properties\<close>

text \<open>
  A tensor that passes \<open>hbi_tensor_validate\<close> is memory safe to index: every element named by
  a multi-index of its shape lies, bit for bit, inside the \<open>nbytes\<close> bytes at \<open>data\<close>.\<close>

lemma validate_sound:
  assumes "hbi_tensor_validate (Some t) = HBI_OK" and "length (dims (shape t)) = HBI_TENSOR_MAX_RANK"
    and "length (stride (strides t)) = HBI_TENSOR_MAX_RANK" and "in_box idx (tdims t)"
  shows "8 * int (data t) \<le> elem_bit t idx \<and>
    elem_bit t idx + tbits t \<le> 8 * int (data t + nbytes t) \<and> data t \<noteq> 0"
proof -
  have v: "strides_ok t" "span_of t * tbits t \<le> 8 * int (nbytes t)"
    using validate_strides_ok [OF assms(1-3)] by auto
  have o: "0 \<le> offset idx (used_strides t) \<and>
      offset idx (used_strides t) \<le> max_offset (tdims t) (used_strides t)"
    using assms(4) strides_ok_lengths [OF v(1)] v(1) by (intro offset_le_max) (auto simp: strides_ok_def)
  have "(offset idx (used_strides t) + 1) * tbits t \<le> span_of t * tbits t"
    using o by (intro mult_right_mono) (auto simp: span_of_def)
  moreover have "data t \<noteq> 0" using assms(1) by (auto simp: hbi_tensor_validate_def split: if_splits)
  ultimately show ?thesis using o v(2) by (simp add: elem_bit_def algebra_simps)
qed

definition demo_shape :: hbi_shape where
  "demo_shape = \<lparr>rank = 2, dims = [2, 3, 0, 0, 0, 0, 0, 0]\<rparr>"

definition demo_tensor :: hbi_tensor where
  "demo_tensor = zero_tensor\<lparr>dtype := HBI_DTYPE_FP32, shape := demo_shape,
     strides := \<lparr>st_rank = 2, stride = [3, 1, 0, 0, 0, 0, 0, 0]\<rparr>, data := 64, nbytes := 24,
     align := 4, ownership := HBI_TENSOR_BORROWED, contiguous := True\<rparr>"

lemma demo_wrap: "hbi_tensor_wrap HBI_DTYPE_FP32 (Some demo_shape) 64 24 = Inr demo_tensor"
  by code_simp

lemma demo_created: "created demo_tensor"
proof -
  have "tensor_wrap_impl HBI_DTYPE_FP32 (Some demo_shape) 64 24 False = Inr demo_tensor"
    using demo_wrap by (simp add: hbi_tensor_wrap_def)
  moreover have "length (dims demo_shape) = HBI_TENSOR_MAX_RANK"
    by (simp add: demo_shape_def HBI_TENSOR_MAX_RANK_def)
  moreover have "64 + 24 < (2 ^ 64 :: nat)" by simp
  ultimately show ?thesis unfolding created_def by blast
qed



text \<open>The two ways \<open>hbi_tensor_clone\<close> fills the fresh buffer.\<close>

definition same_elements :: "hbi_tensor \<Rightarrow> memory \<Rightarrow> hbi_tensor \<Rightarrow> memory \<Rightarrow> bool" where
  "same_elements a m b m' \<longleftrightarrow>
     (if hbi_dtype_is_sub_byte (dtype a)
      then \<forall>k < nbytes b. m' (data b + k) = m (data a + k)
      else \<forall>idx k. in_box idx (tdims a) \<and> k < hbi_dtype_bits (dtype a) div 8 \<longrightarrow>
             m' (elem_addr b idx + k) = m (elem_addr a idx + k))"

lemma same_elements_quant [simp]:
  "same_elements a m (b\<lparr>quant := q\<rparr>) m' = same_elements a m b m'"
  by (simp add: same_elements_def)

lemma copy_contiguous:
  assumes src: "tensor_inv src" "contiguous src" and out: "tensor_inv out" "contiguous out"
    and same: "shape out = shape src" "dtype out = dtype src"
      "8 * int (nbytes out) < prod_list (tdims src) * tbits src + 8"
    and sep: "separate src out" and m1: "\<And>a. a < data out \<or> data out + nbytes out \<le> a \<Longrightarrow> m1 a = m a"
  shows "same_elements src m out (memcpy (data out) (data src) (nbytes out) m1)"
proof -
  let ?m' = "memcpy (data out) (data src) (nbytes out) m1"
  have nb: "nbytes out \<le> nbytes src" using src same(3) by (rule contiguous_capacity)
  have cp: "?m' (data out + k) = m (data src + k)" if "k < nbytes out" for k
    using that sep nb m1 [of "data src + k"] by (auto simp: memcpy_def separate_def)
  have us: "used_strides out = used_strides src"
    using src out same by (simp add: tensor_inv_def)
  have "?m' (elem_addr out idx + k) = m (elem_addr src idx + k)"
    if "in_box idx (tdims src)" "k < hbi_dtype_bits (dtype src) div 8" "\<not> hbi_dtype_is_sub_byte (dtype src)" for idx k
  proof -
    let ?d = "nat (offset idx (used_strides src)) * (hbi_dtype_bits (dtype src) div 8)"
    have e: "elem_addr out idx = data out + ?d" "elem_addr src idx = data src + ?d"
      using us same by (simp_all add: elem_addr_def)
    have "?d + k < nbytes out"
      using elem_addr_range [OF out(1), of idx] that same e(1) by simp
    then show ?thesis using cp [of "?d + k"] by (simp add: e add.assoc)
  qed
  then show ?thesis using cp by (simp add: same_elements_def)
qed

lemma copy_strided:
  assumes src: "tensor_inv src" and out: "tensor_inv out" "dst_injective out"
    and same: "shape out = shape src" "dtype out = dtype src"
    and nb: "\<not> hbi_dtype_is_sub_byte (dtype src)"
    and sep: "separate src out" and m1: "\<And>a. a < data out \<or> data out + nbytes out \<le> a \<Longrightarrow> m1 a = m a"
    and m': "m' = strided_copy_bytes src out (hbi_dtype_bits (dtype src) div 8) m1"
  shows "same_elements src m out m' \<and> (\<forall>a. a < data out \<or> data out + nbytes out \<le> a \<longrightarrow> m' a = m a)"
proof -
  note S = strided_copy_correct [OF src out same(2) _ _ sep nb m']
  have "m' (elem_addr out idx + k) = m (elem_addr src idx + k)"
    if "in_box idx (tdims src)" "k < hbi_dtype_bits (dtype src) div 8" for idx k
  proof -
    have "m' (elem_addr out idx + k) = m1 (elem_addr src idx + k)" using S(1) same that by simp
    also have "\<dots> = m (elem_addr src idx + k)"
      using elem_addr_range [OF src that(1) nb] that(2) sep
      unfolding separate_def by (intro m1) linarith
    finally show ?thesis .
  qed
  then show ?thesis using S(2) same m1 nb by (simp add: same_elements_def)
qed

text \<open>
  C25. \<open>hbi_tensor_clone\<close> of a created tensor or any chain of views of one makes a faithful deep
  copy: the clone owns the fresh buffer, satisfies the layout invariant, holds element for element
  the bytes of the source (for a packed sub-byte type, byte for byte), and no byte outside the
  fresh buffer changes.\<close>

theorem clone_deep_copy:
  assumes src: "tensor_inv src" and c: "hbi_tensor_clone (Some src) buf m = (fr, Inr (out, m'))"
    and buf: "64 dvd buf" "buf + nbytes out < 2 ^ 64"
    and sep: "data src + nbytes src \<le> buf \<or> buf + nbytes out \<le> data src"
  shows "fr = [] \<and> tensor_inv out \<and> data out = buf \<and> ownership out = HBI_TENSOR_OWNED \<and>
    shape out = shape src \<and> contiguous out \<and> quant out = quant src \<and>
    same_elements src m out m' \<and> (\<forall>a. a < buf \<or> buf + nbytes out \<le> a \<longrightarrow> m' a = m a)"
proof -
  obtain out0 m1 where al: "hbi_tensor_alloc (dtype src) (Some (shape src)) buf m = Inr (out0, m1)"
    using c by (cases "hbi_tensor_alloc (dtype src) (Some (shape src)) buf m")
      (auto simp: hbi_tensor_clone_def split: if_splits)
  have o: "out = out0\<lparr>quant := quant src\<rparr>" "fr = []"
    using c al by (auto simp: hbi_tensor_clone_def split: if_splits)
  have len: "length (dims (shape src)) = HBI_TENSOR_MAX_RANK"
    using src by (simp add: tensor_inv_def strides_ok_def shape_wf_def)
  have n0: "nbytes out0 = nbytes out" by (simp add: o)
  note A = alloc_ok [OF al len buf(1) buf(2) [folded n0]]
  have m1: "m1 a = m a" if "a < data out0 \<or> data out0 + nbytes out0 \<le> a" for a
    using A that by (auto simp: memset0_def)
  have sp: "separate src out0" using sep A n0 by (simp add: separate_def)
  have "same_elements src m out0 m' \<and> (\<forall>a. a < data out0 \<or> data out0 + nbytes out0 \<le> a \<longrightarrow> m' a = m a)"
  proof (cases "contiguous src")
    case True
    then have m': "m' = memcpy (data out0) (data src) (nbytes out0) m1"
      using c al by (simp add: hbi_tensor_clone_def split: if_splits)
    have "same_elements src m out0 m'"
      unfolding m' by (rule copy_contiguous [OF src True _ _ _ _ _ sp m1]) (use A in blast)+
    then show ?thesis using m1 by (auto simp: m' memcpy_def)
  next
    case False
    have nb: "\<not> hbi_dtype_is_sub_byte (dtype src)" and
      m': "m' = strided_copy_bytes src out0 (hbi_dtype_bits (dtype src) div 8) m1"
      using c al False by (auto simp: hbi_tensor_clone_def split: if_splits)
    show ?thesis by (rule copy_strided [OF src _ _ _ _ nb sp m1 m']) (use A in blast)+
  qed
  then show ?thesis using A by (simp add: o)
qed

definition demo_transposed :: hbi_tensor where
  "demo_transposed = demo_tensor\<lparr>shape := \<lparr>rank = 2, dims = [3, 2, 0, 0, 0, 0, 0, 0]\<rparr>,
     strides := \<lparr>st_rank = 2, stride = [1, 3, 0, 0, 0, 0, 0, 0]\<rparr>,
     ownership := HBI_TENSOR_VIEW, contiguous := False\<rparr>"

lemma demo_transposed_view: "apply_views [Transpose 0 1] demo_tensor = Inr demo_transposed"
  by code_simp

theorem clone_deep_copy_witness:
  "\<exists>out m'. hbi_tensor_clone (Some demo_transposed) 128 of_nat = ([], Inr (out, m')) \<and>
     nbytes out = 24 \<and> tensor_inv out \<and> same_elements demo_transposed of_nat out m'"
proof -
  have inv: "tensor_inv demo_transposed"
    using apply_views_ok [OF _ _ demo_transposed_view] created_ok [OF demo_created] by simp
  have "\<not> isl (hbi_tensor_alloc HBI_DTYPE_FP32 (Some (shape demo_transposed)) 128 of_nat) \<and>
      nbytes (fst (projr (hbi_tensor_alloc HBI_DTYPE_FP32 (Some (shape demo_transposed)) 128 of_nat))) = 24"
    by code_simp
  then obtain out0 m1 where
    al: "hbi_tensor_alloc HBI_DTYPE_FP32 (Some (shape demo_transposed)) 128 of_nat = Inr (out0, m1)"
      "nbytes out0 = 24"
    by (cases "hbi_tensor_alloc HBI_DTYPE_FP32 (Some (shape demo_transposed)) 128 of_nat") auto
  have "data demo_transposed \<noteq> 0" "\<not> contiguous demo_transposed" "dtype demo_transposed = HBI_DTYPE_FP32"
    by (simp_all add: demo_transposed_def demo_tensor_def)
  then obtain fr out m' where c: "hbi_tensor_clone (Some demo_transposed) 128 of_nat = (fr, Inr (out, m'))"
    and n: "nbytes out = 24"
    using al by (simp add: hbi_tensor_clone_def hbi_dtype_is_sub_byte_def)
  then show ?thesis
    using clone_deep_copy [OF inv c] by (auto simp: demo_transposed_def demo_tensor_def)
qed

end
