(* ===== verification/Memory.thy ===== *)
theory Memory
  imports Common
begin

text \<open>
  The \<open>memory\<close> module (src/src/memory/memory.h, memory.c) and the aligned-allocation shim of
  src/src/platform/platform.c: the system allocator with its headers, statistics, canaries and
  leak list, and the arena allocator.

  Addresses and sizes are \<open>u64\<close> (the source's \<open>uintptr_t\<close> and \<open>size_t\<close> on an LP64 target), so that
  every wrap-around the code guards against can happen in the model; NULL is 0. What the operating
  system returns is a parameter: \<open>posix_memalign\<close> maps an alignment and a size to an address, or to
  0 when it fails. The atomic counters are plain fields, updated by each operation as a whole. The
  headers that the code stores in front of each block are a map from user pointers to records.
\<close>

section \<open>Platform shim\<close>

definition hbi_aligned_alloc :: "(u64 \<Rightarrow> u64 \<Rightarrow> u64) \<Rightarrow> u64 \<Rightarrow> u64 \<Rightarrow> u64" where
  "hbi_aligned_alloc pm alignment sz =
     (if \<not> hbi_is_pow2 alignment \<or> alignment < 8 then 0
      else pm alignment (if sz = 0 then 1 else sz))"

section \<open>Tags and statistics\<close>

datatype hbi_mem_tag =
  HBI_MEM_GENERAL | HBI_MEM_WEIGHTS | HBI_MEM_KV | HBI_MEM_SCRATCH | HBI_MEM_TAG_COUNT

fun hbi_mem_tag_str :: "hbi_mem_tag \<Rightarrow> string" where
  "hbi_mem_tag_str HBI_MEM_GENERAL = ''general''"
| "hbi_mem_tag_str HBI_MEM_WEIGHTS = ''weights''"
| "hbi_mem_tag_str HBI_MEM_KV = ''kv''"
| "hbi_mem_tag_str HBI_MEM_SCRATCH = ''scratch''"
| "hbi_mem_tag_str HBI_MEM_TAG_COUNT = ''unknown''"

fun tag_value :: "hbi_mem_tag \<Rightarrow> nat" where
  "tag_value HBI_MEM_GENERAL = 0"
| "tag_value HBI_MEM_WEIGHTS = 1"
| "tag_value HBI_MEM_KV = 2"
| "tag_value HBI_MEM_SCRATCH = 3"
| "tag_value HBI_MEM_TAG_COUNT = 4"

definition HBI_MEM_NATURAL_ALIGN :: u64 where
  "HBI_MEM_NATURAL_ALIGN = 16"

definition normalize_alignment :: "u64 \<Rightarrow> u64" where
  "normalize_alignment alignment = (if alignment = 0 then HBI_MEM_NATURAL_ALIGN else alignment)"

definition HBI_CANARY_HEAD :: u32 where "HBI_CANARY_HEAD = 0xA10CA71E"
definition HBI_CANARY_TAIL :: u32 where "HBI_CANARY_TAIL = 0x5AFEF00D"

text \<open>\<open>sizeof(sys_header)\<close>: three 8-byte fields, two 4-byte fields and two pointers.\<close>

definition sizeof_sys_header :: u64 where "sizeof_sys_header = 48"

text \<open>
  The header, without the links of the leak list (kept as a list in \<open>sys_ctx\<close>); \<open>h_tail\<close> is the
  word the code reads through \<open>tail_canary_ptr\<close>, which a client that overruns its block changes.
\<close>

record sys_header =
  h_base :: u64
  h_size :: u64
  h_alignment :: u64
  h_tag :: hbi_mem_tag
  h_canary :: u32
  h_tail :: u32

record sys_ctx =
  live_bytes :: u64
  peak_bytes :: u64
  total_alloc_calls :: u64
  total_free_calls :: u64
  live_blocks :: u64
  bytes_by_tag :: "u64 list"
  dbg_mtx :: bool
  dbg_list :: "u64 list"
  dbg_live_blocks :: u64
  dbg_live_bytes :: u64
  debug_enabled :: bool
  blocks :: "u64 \<rightharpoonup> sys_header"

definition sys_ctx_init :: sys_ctx where
  "sys_ctx_init = \<lparr>live_bytes = 0, peak_bytes = 0, total_alloc_calls = 0, total_free_calls = 0,
     live_blocks = 0, bytes_by_tag = replicate 4 0, dbg_mtx = True, dbg_list = [],
     dbg_live_blocks = 0, dbg_live_bytes = 0, debug_enabled = False, blocks = Map.empty\<rparr>"

definition stats_add :: "sys_ctx \<Rightarrow> u64 \<Rightarrow> hbi_mem_tag \<Rightarrow> sys_ctx" where
  "stats_add c sz tag =
     (let live = live_bytes c + sz in
      c\<lparr>live_bytes := live,
        total_alloc_calls := total_alloc_calls c + 1,
        live_blocks := live_blocks c + 1,
        bytes_by_tag := (if tag_value tag < 4
          then (bytes_by_tag c)[tag_value tag := bytes_by_tag c ! tag_value tag + sz]
          else bytes_by_tag c),
        peak_bytes := (if live > peak_bytes c then live else peak_bytes c)\<rparr>)"

definition stats_sub :: "sys_ctx \<Rightarrow> u64 \<Rightarrow> hbi_mem_tag \<Rightarrow> sys_ctx" where
  "stats_sub c sz tag =
     c\<lparr>live_bytes := live_bytes c - sz,
       total_free_calls := total_free_calls c + 1,
       live_blocks := live_blocks c - 1,
       bytes_by_tag := (if tag_value tag < 4
         then (bytes_by_tag c)[tag_value tag := bytes_by_tag c ! tag_value tag - sz]
         else bytes_by_tag c)\<rparr>"

definition sys_overhead :: "u64 \<Rightarrow> u64" where
  "sys_overhead alignment =
     (let stride = (if alignment > sizeof_sys_header then alignment else sizeof_sys_header) in
      hbi_align_up stride alignment)"

definition debug_link :: "sys_ctx \<Rightarrow> u64 \<Rightarrow> u64 \<Rightarrow> sys_ctx" where
  "debug_link c user sz =
     (if \<not> dbg_mtx c then c
      else c\<lparr>dbg_list := user # dbg_list c, dbg_live_blocks := dbg_live_blocks c + 1,
             dbg_live_bytes := dbg_live_bytes c + sz\<rparr>)"

definition debug_unlink :: "sys_ctx \<Rightarrow> u64 \<Rightarrow> u64 \<Rightarrow> sys_ctx" where
  "debug_unlink c user sz =
     (if \<not> dbg_mtx c then c
      else c\<lparr>dbg_list := remove1 user (dbg_list c), dbg_live_blocks := dbg_live_blocks c - 1,
             dbg_live_bytes := dbg_live_bytes c - sz\<rparr>)"

section \<open>System allocator\<close>

definition sys_alloc ::
  "(u64 \<Rightarrow> u64 \<Rightarrow> u64) \<Rightarrow> sys_ctx \<Rightarrow> u64 \<Rightarrow> u64 \<Rightarrow> hbi_mem_tag \<Rightarrow> u64 outcome \<times> sys_ctx" where
  "sys_alloc pm c size0 alignment0 tag =
     (let debug = debug_enabled c in
      if tag_value tag \<ge> 4 then (Inl HBI_ERR_INVALID_ARG, c)
      else let alignment = normalize_alignment alignment0 in
      if \<not> hbi_is_pow2 alignment then (Inl HBI_ERR_INVALID_ARG, c)
      else
        let sz = (if size0 = 0 then 1 else size0);
            overhead = sys_overhead alignment;
            canary_bytes = (if debug then 4 else 0);
            total = overhead + sz + canary_bytes in
        if total < sz then (Inl HBI_ERR_OOM, c)
        else
          let base = hbi_aligned_alloc pm alignment (hbi_align_up total alignment) in
          if base = 0 then (Inl HBI_ERR_OOM, c)
          else
            let user = base + overhead;
                h = \<lparr>h_base = base, h_size = sz, h_alignment = alignment, h_tag = tag,
                     h_canary = (if debug then HBI_CANARY_HEAD else 0),
                     h_tail = (if debug then HBI_CANARY_TAIL else 0)\<rparr>;
                c1 = c\<lparr>blocks := (blocks c)(user \<mapsto> h)\<rparr>;
                c2 = (if debug then debug_link c1 user sz else c1)
            in (Inr user, stats_add c2 sz tag))"

text \<open>
  \<open>sys_free\<close> returns the status it reports, the address handed to \<open>hbi_aligned_free\<close> and the new
  context. Freeing a pointer without a live header is undefined in the source; the model leaves
  the context alone.
\<close>

definition sys_free :: "sys_ctx \<Rightarrow> u64 \<Rightarrow> hbi_status \<times> u64 option \<times> sys_ctx" where
  "sys_free c ptr =
     (if ptr = 0 then (HBI_OK, None, c)
      else case blocks c ptr of
        None \<Rightarrow> (HBI_OK, None, c)
      | Some h \<Rightarrow>
          let tracked = debug_enabled c \<and> h_canary h = HBI_CANARY_HEAD;
              st = (if tracked \<and> h_tail h \<noteq> HBI_CANARY_TAIL then HBI_ERR_CORRUPT else HBI_OK);
              c1 = (if tracked then debug_unlink c ptr (h_size h) else c);
              c2 = stats_sub c1 (h_size h) (h_tag h)
          in (st, Some (h_base h), c2\<lparr>blocks := (blocks c2)(ptr := None)\<rparr>))"

text \<open>
  \<open>sys_realloc\<close> returns the new pointer (0 for NULL), the number of bytes it copied from the old
  block, and the new context.
\<close>

definition sys_realloc ::
  "(u64 \<Rightarrow> u64 \<Rightarrow> u64) \<Rightarrow> sys_ctx \<Rightarrow> u64 \<Rightarrow> u64 \<Rightarrow> u64 \<Rightarrow> hbi_mem_tag \<Rightarrow> u64 \<times> u64 \<times> sys_ctx" where
  "sys_realloc pm c ptr new_size alignment tag =
     (if ptr = 0 then
        (case sys_alloc pm c new_size alignment tag of
           (Inl _, c') \<Rightarrow> (0, 0, c') | (Inr p, c') \<Rightarrow> (p, 0, c'))
      else if new_size = 0 then (0, 0, snd (snd (sys_free c ptr)))
      else case blocks c ptr of
        None \<Rightarrow> (0, 0, c)
      | Some h \<Rightarrow>
          (case sys_alloc pm c new_size (if alignment \<noteq> 0 then alignment else h_alignment h) tag of
             (Inl _, c') \<Rightarrow> (0, 0, c')
           | (Inr fresh, c') \<Rightarrow>
               (fresh, if h_size h < new_size then h_size h else new_size,
                snd (snd (sys_free c' ptr)))))"

record hbi_mem_stats =
  s_live_bytes :: u64
  s_peak_bytes :: u64
  s_total_alloc_calls :: u64
  s_total_free_calls :: u64
  s_live_blocks :: u64
  s_bytes_by_tag :: "u64 list"

definition hbi_mem_debug_set_enabled :: "bool \<Rightarrow> sys_ctx \<Rightarrow> sys_ctx" where
  "hbi_mem_debug_set_enabled enabled c = c\<lparr>debug_enabled := enabled\<rparr>"

definition hbi_mem_check_leaks :: "sys_ctx \<Rightarrow> hbi_status" where
  "hbi_mem_check_leaks c = (if dbg_live_blocks c = 0 then HBI_OK else HBI_ERR_STATE)"

section \<open>Arena allocator\<close>

record hbi_arena =
  ar_base :: u64
  ar_capacity :: u64
  ar_offset :: u64
  ar_last_offset :: u64

definition arena_alloc :: "hbi_arena \<Rightarrow> u64 \<Rightarrow> u64 \<Rightarrow> u64 outcome \<times> hbi_arena" where
  "arena_alloc ar size0 alignment0 =
     (let alignment = normalize_alignment alignment0 in
      if \<not> hbi_is_pow2 alignment then (Inl HBI_ERR_INVALID_ARG, ar)
      else
        let sz = (if size0 = 0 then 1 else size0);
            base_addr = ar_base ar;
            cur_addr = base_addr + ar_offset ar;
            aligned_addr = hbi_align_up cur_addr alignment in
        if aligned_addr = 0 \<and> cur_addr \<noteq> 0 then (Inl HBI_ERR_OOM, ar)
        else
          let start = aligned_addr - base_addr;
              end' = start + sz in
          if end' < start \<or> end' > ar_capacity ar then (Inl HBI_ERR_OOM, ar)
          else (Inr (ar_base ar + start), ar\<lparr>ar_last_offset := start, ar_offset := end'\<rparr>))"

text \<open>
  Besides the new pointer (0 for NULL) and arena, \<open>arena_realloc\<close> returns the copy it performs:
  destination, source and length.
\<close>

definition arena_realloc ::
  "hbi_arena \<Rightarrow> u64 \<Rightarrow> u64 \<Rightarrow> u64 \<Rightarrow> u64 \<times> (u64 \<times> u64 \<times> u64) option \<times> hbi_arena" where
  "arena_realloc ar ptr new_size alignment =
     (if ptr = 0 then
        (case arena_alloc ar new_size alignment of
           (Inl _, ar') \<Rightarrow> (0, None, ar') | (Inr p, ar') \<Rightarrow> (p, None, ar'))
      else if new_size = 0 then (0, None, ar)
      else
        let end' = ar_last_offset ar + new_size in
        if ptr = ar_base ar + ar_last_offset ar \<and> end' \<ge> ar_last_offset ar \<and> end' \<le> ar_capacity ar
        then (ptr, None, ar\<lparr>ar_offset := end'\<rparr>)
        else
          (case arena_alloc ar new_size alignment of
             (Inl _, ar') \<Rightarrow> (0, None, ar')
           | (Inr fresh, ar') \<Rightarrow>
               let old_avail = ar_base ar' + ar_offset ar' - ptr;
                   copy = (if new_size < old_avail then new_size else old_avail)
               in (fresh, Some (fresh, ptr, copy), ar')))"

definition arena_free :: "hbi_arena \<Rightarrow> u64 \<Rightarrow> hbi_arena" where
  "arena_free ar ptr = ar"

definition hbi_arena_create ::
  "(u64 \<Rightarrow> u64 \<Rightarrow> u64) \<Rightarrow> sys_ctx \<Rightarrow> u64 \<Rightarrow> (u64 \<times> hbi_arena) outcome \<times> sys_ctx" where
  "hbi_arena_create pm c capacity =
     (if capacity = 0 then (Inl HBI_ERR_INVALID_ARG, c)
      else case sys_alloc pm c 56 0 HBI_MEM_GENERAL of
        (Inl _, c1) \<Rightarrow> (Inl HBI_ERR_OOM, c1)
      | (Inr ar, c1) \<Rightarrow>
          (case sys_alloc pm c1 capacity HBI_MEM_NATURAL_ALIGN HBI_MEM_SCRATCH of
             (Inl _, c2) \<Rightarrow> (Inl HBI_ERR_OOM, snd (snd (sys_free c2 ar)))
           | (Inr base, c2) \<Rightarrow>
               (Inr (ar, \<lparr>ar_base = base, ar_capacity = capacity, ar_offset = 0,
                          ar_last_offset = 0\<rparr>), c2)))"

definition hbi_arena_destroy :: "sys_ctx \<Rightarrow> (u64 \<times> hbi_arena) ptr \<Rightarrow> sys_ctx" where
  "hbi_arena_destroy c arena =
     (case arena of
        None \<Rightarrow> c
      | Some (p, ar) \<Rightarrow> snd (snd (sys_free (snd (snd (sys_free c (ar_base ar)))) p)))"

definition hbi_arena_reset :: "hbi_arena \<Rightarrow> hbi_arena" where
  "hbi_arena_reset ar = ar\<lparr>ar_offset := 0, ar_last_offset := 0\<rparr>"

definition hbi_arena_used :: "hbi_arena ptr \<Rightarrow> u64" where
  "hbi_arena_used ar = (case ar of None \<Rightarrow> 0 | Some ar \<Rightarrow> ar_offset ar)"

definition hbi_arena_capacity :: "hbi_arena ptr \<Rightarrow> u64" where
  "hbi_arena_capacity ar = (case ar of None \<Rightarrow> 0 | Some ar \<Rightarrow> ar_capacity ar)"

section \<open>Generic dispatchers\<close>

text \<open>
  An allocator is its vtable together with its context. The two vtables of the source are the two
  constructors, each carrying the state behind its \<open>ctx\<close> pointer; a NULL allocator is \<open>None\<close>.
  The dispatchers return NULL as 0.
\<close>

datatype hbi_allocator = SystemAllocator sys_ctx | ArenaAllocator hbi_arena

definition hbi_alloc ::
  "(u64 \<Rightarrow> u64 \<Rightarrow> u64) \<Rightarrow> hbi_allocator ptr \<Rightarrow> u64 \<Rightarrow> u64 \<Rightarrow> hbi_mem_tag \<Rightarrow> u64 \<times> hbi_allocator ptr" where
  "hbi_alloc pm a sz alignment tag =
     (case a of
        None \<Rightarrow> (0, None)
      | Some (SystemAllocator c) \<Rightarrow>
          (case sys_alloc pm c sz alignment tag of
             (Inl _, c') \<Rightarrow> (0, Some (SystemAllocator c'))
           | (Inr p, c') \<Rightarrow> (p, Some (SystemAllocator c')))
      | Some (ArenaAllocator ar) \<Rightarrow>
          (case arena_alloc ar sz alignment of
             (Inl _, ar') \<Rightarrow> (0, Some (ArenaAllocator ar'))
           | (Inr p, ar') \<Rightarrow> (p, Some (ArenaAllocator ar'))))"

definition hbi_realloc ::
  "(u64 \<Rightarrow> u64 \<Rightarrow> u64) \<Rightarrow> hbi_allocator ptr \<Rightarrow> u64 \<Rightarrow> u64 \<Rightarrow> u64 \<Rightarrow> hbi_mem_tag \<Rightarrow>
     u64 \<times> hbi_allocator ptr" where
  "hbi_realloc pm a p new_size alignment tag =
     (case a of
        None \<Rightarrow> (0, None)
      | Some (SystemAllocator c) \<Rightarrow>
          (case sys_realloc pm c p new_size alignment tag of
             (q, _, c') \<Rightarrow> (q, Some (SystemAllocator c')))
      | Some (ArenaAllocator ar) \<Rightarrow>
          (case arena_realloc ar p new_size alignment of
             (q, _, ar') \<Rightarrow> (q, Some (ArenaAllocator ar'))))"

definition hbi_free :: "hbi_allocator ptr \<Rightarrow> u64 \<Rightarrow> hbi_allocator ptr" where
  "hbi_free a p =
     (case a of
        None \<Rightarrow> None
      | Some (SystemAllocator c) \<Rightarrow> Some (SystemAllocator (snd (snd (sys_free c p))))
      | Some (ArenaAllocator ar) \<Rightarrow> Some (ArenaAllocator (arena_free ar p)))"

definition hbi_allocator_stats :: "hbi_allocator ptr \<Rightarrow> hbi_mem_stats outcome" where
  "hbi_allocator_stats a =
     (case a of
        None \<Rightarrow> Inl HBI_ERR_INVALID_ARG
      | Some (ArenaAllocator _) \<Rightarrow> Inl HBI_ERR_UNSUPPORTED
      | Some (SystemAllocator c) \<Rightarrow>
          Inr \<lparr>s_live_bytes = live_bytes c, s_peak_bytes = peak_bytes c,
            s_total_alloc_calls = total_alloc_calls c, s_total_free_calls = total_free_calls c,
            s_live_blocks = live_blocks c, s_bytes_by_tag = take 4 (bytes_by_tag c)\<rparr>)"

section \<open>Statistics of the system allocator\<close>

definition sys_inv :: "sys_ctx \<Rightarrow> bool" where
  "sys_inv c \<longleftrightarrow> finite (dom (blocks c)) \<and> length (bytes_by_tag c) = 4 \<and>
     (\<forall>h \<in> ran (blocks c). tag_value (h_tag h) < 4) \<and>
     live_bytes c = msum (blocks c) h_size \<and> live_blocks c = msum (blocks c) (\<lambda>_. 1) \<and>
     total_alloc_calls c = total_free_calls c + live_blocks c \<and>
     (\<forall>i < 4. bytes_by_tag c ! i = msum (blocks c) (\<lambda>h. if tag_value (h_tag h) = i then h_size h else 0))"

definition dbg_inv :: "sys_ctx \<Rightarrow> bool" where
  "dbg_inv c \<longleftrightarrow> debug_enabled c \<and> dbg_mtx c \<and> (\<forall>h \<in> ran (blocks c). h_canary h = HBI_CANARY_HEAD) \<and>
     distinct (dbg_list c) \<and> set (dbg_list c) = dom (blocks c) \<and>
     dbg_live_blocks c = live_blocks c \<and> dbg_live_bytes c = live_bytes c"

lemma sys_init_inv: "sys_inv sys_ctx_init"
  by (simp add: sys_inv_def sys_ctx_init_def nth_Cons')

text \<open>What a successful \<open>sys_alloc\<close> did.\<close>

lemma sys_alloc_Inr:
  assumes "sys_alloc pm c sz al tag = (Inr u, c')"
  obtains h where "c' = stats_add (if debug_enabled c
        then debug_link (c\<lparr>blocks := (blocks c)(u \<mapsto> h)\<rparr>) u (h_size h)
        else c\<lparr>blocks := (blocks c)(u \<mapsto> h)\<rparr>) (h_size h) (h_tag h)"
    and "tag_value (h_tag h) < 4" and "debug_enabled c \<longrightarrow> h_canary h = HBI_CANARY_HEAD"
    and "h_tag h = tag" and "h_size h = (if sz = 0 then 1 else sz)"
  using assms that
  by (auto simp: sys_alloc_def Let_def split: if_splits)

lemma sys_alloc_Inl: "sys_alloc pm c sz al tag = (Inl e, c') \<Longrightarrow> c' = c"
  by (auto simp: sys_alloc_def Let_def split: if_splits)

lemma stats_add_simps [simp]:
  "live_bytes (stats_add c sz t) = live_bytes c + sz"
  "total_alloc_calls (stats_add c sz t) = total_alloc_calls c + 1"
  "total_free_calls (stats_add c sz t) = total_free_calls c"
  "live_blocks (stats_add c sz t) = live_blocks c + 1"
  "blocks (stats_add c sz t) = blocks c" "dbg_list (stats_add c sz t) = dbg_list c"
  "dbg_mtx (stats_add c sz t) = dbg_mtx c" "debug_enabled (stats_add c sz t) = debug_enabled c"
  "dbg_live_blocks (stats_add c sz t) = dbg_live_blocks c"
  "dbg_live_bytes (stats_add c sz t) = dbg_live_bytes c"
  by (simp_all add: stats_add_def Let_def)

lemma stats_sub_simps [simp]:
  "live_bytes (stats_sub c sz t) = live_bytes c - sz"
  "total_alloc_calls (stats_sub c sz t) = total_alloc_calls c"
  "total_free_calls (stats_sub c sz t) = total_free_calls c + 1"
  "live_blocks (stats_sub c sz t) = live_blocks c - 1"
  "blocks (stats_sub c sz t) = blocks c" "dbg_list (stats_sub c sz t) = dbg_list c"
  "dbg_mtx (stats_sub c sz t) = dbg_mtx c" "debug_enabled (stats_sub c sz t) = debug_enabled c"
  "dbg_live_blocks (stats_sub c sz t) = dbg_live_blocks c"
  "dbg_live_bytes (stats_sub c sz t) = dbg_live_bytes c"
  by (simp_all add: stats_sub_def)

lemma debug_link_simps [simp]:
  "live_bytes (debug_link c u s) = live_bytes c" "live_blocks (debug_link c u s) = live_blocks c"
  "total_alloc_calls (debug_link c u s) = total_alloc_calls c"
  "total_free_calls (debug_link c u s) = total_free_calls c"
  "bytes_by_tag (debug_link c u s) = bytes_by_tag c" "blocks (debug_link c u s) = blocks c"
  "dbg_mtx (debug_link c u s) = dbg_mtx c" "debug_enabled (debug_link c u s) = debug_enabled c"
  "live_bytes (debug_unlink c u s) = live_bytes c" "live_blocks (debug_unlink c u s) = live_blocks c"
  "total_alloc_calls (debug_unlink c u s) = total_alloc_calls c"
  "total_free_calls (debug_unlink c u s) = total_free_calls c"
  "bytes_by_tag (debug_unlink c u s) = bytes_by_tag c" "blocks (debug_unlink c u s) = blocks c"
  "dbg_mtx (debug_unlink c u s) = dbg_mtx c" "debug_enabled (debug_unlink c u s) = debug_enabled c"
  by (simp_all add: debug_link_def debug_unlink_def)

lemma sys_alloc_inv:
  assumes a: "sys_alloc pm c sz al tag = (Inr u, c')" and u: "u \<notin> dom (blocks c)"
    and inv: "sys_inv c"
  shows "sys_inv c' \<and> dom (blocks c') = insert u (dom (blocks c)) \<and> debug_enabled c' = debug_enabled c \<and>
    dbg_mtx c' = dbg_mtx c"
proof -
  obtain h where c': "c' = stats_add (if debug_enabled c
        then debug_link (c\<lparr>blocks := (blocks c)(u \<mapsto> h)\<rparr>) u (h_size h)
        else c\<lparr>blocks := (blocks c)(u \<mapsto> h)\<rparr>) (h_size h) (h_tag h)"
    and t: "tag_value (h_tag h) < 4"
    using a by (rule sys_alloc_Inr)
  have fin: "finite (dom (blocks c))" using inv by (simp add: sys_inv_def)
  have ran: "ran ((blocks c)(u \<mapsto> h)) = insert h (ran (blocks c))"
    using u by (auto simp: ran_map_upd)
  have "bytes_by_tag c' = (bytes_by_tag c)[tag_value (h_tag h) := bytes_by_tag c ! tag_value (h_tag h) + h_size h]"
    using t by (simp add: c' stats_add_def Let_def)
  then show ?thesis
    using inv t fin u ran by (auto simp: sys_inv_def c' msum_upd nth_list_update)
qed

lemma sys_free_skip: "p = 0 \<or> blocks c p = None \<Longrightarrow> sys_free c p = (HBI_OK, None, c)"
  by (auto simp: sys_free_def)

lemma sys_free_Some:
  assumes "p \<noteq> 0" and "blocks c p = Some h"
  shows "snd (snd (sys_free c p)) =
    (stats_sub (if debug_enabled c \<and> h_canary h = HBI_CANARY_HEAD then debug_unlink c p (h_size h) else c)
       (h_size h) (h_tag h))\<lparr>blocks := (blocks c)(p := None)\<rparr>"
  using assms by (simp add: sys_free_def Let_def)

lemma sys_free_inv:
  assumes inv: "sys_inv c" and h: "p \<noteq> 0" "blocks c p = Some h"
  shows "sys_inv (snd (snd (sys_free c p)))"
proof -
  let ?c = "if debug_enabled c \<and> h_canary h = HBI_CANARY_HEAD then debug_unlink c p (h_size h) else c"
  have fin: "finite (dom (blocks c))" using inv by (simp add: sys_inv_def)
  have t: "tag_value (h_tag h) < 4" using inv h by (auto simp: sys_inv_def ran_def)
  have ran: "ran ((blocks c)(p := None)) \<subseteq> ran (blocks c)" by (auto simp: ran_def)
  have b: "bytes_by_tag (stats_sub ?c (h_size h) (h_tag h)) =
      (bytes_by_tag c)[tag_value (h_tag h) := bytes_by_tag c ! tag_value (h_tag h) - h_size h]"
    using t by (simp add: stats_sub_def)
  show ?thesis
    unfolding sys_free_Some [OF h] sys_inv_def
    using inv t fin ran b h(2) by (auto simp: sys_inv_def msum_del nth_list_update)
qed

lemma sys_alloc_dbg_inv:
  assumes a: "sys_alloc pm c sz al tag = (Inr u, c')" and u: "u \<notin> dom (blocks c)" and d: "dbg_inv c"
  shows "dbg_inv c'"
proof -
  obtain h where c': "c' = stats_add (if debug_enabled c
        then debug_link (c\<lparr>blocks := (blocks c)(u \<mapsto> h)\<rparr>) u (h_size h)
        else c\<lparr>blocks := (blocks c)(u \<mapsto> h)\<rparr>) (h_size h) (h_tag h)"
    and hc: "debug_enabled c \<longrightarrow> h_canary h = HBI_CANARY_HEAD"
    using a by (rule sys_alloc_Inr)
  have "ran ((blocks c)(u \<mapsto> h)) = insert h (ran (blocks c))" using u by (auto simp: ran_map_upd)
  then show ?thesis using d hc u by (auto simp: dbg_inv_def c' debug_link_def)
qed

lemma sys_free_dbg_inv:
  assumes d: "dbg_inv c" and h: "p \<noteq> 0" "blocks c p = Some h"
  shows "dbg_inv (snd (snd (sys_free c p)))"
proof -
  have "h_canary h = HBI_CANARY_HEAD" using d h by (auto simp: dbg_inv_def ran_def)
  moreover have "ran ((blocks c)(p := None)) \<subseteq> ran (blocks c)" by (auto simp: ran_def)
  ultimately show ?thesis
    unfolding sys_free_Some [OF h] using d h
    by (auto simp: dbg_inv_def debug_unlink_def)
qed

text \<open>
  The reachable states of the system allocator with debug mode fixed to \<open>d\<close>: allocations that
  return a fresh non-NULL pointer, failing allocations, frees, reallocations, and a client that
  overwrites the word behind one of its blocks.
\<close>

definition fresh_ptr :: "sys_ctx \<Rightarrow> u64 \<Rightarrow> bool" where
  "fresh_ptr c u \<longleftrightarrow> u \<noteq> 0 \<and> u \<notin> dom (blocks c)"

text \<open>The platform hands out memory that no live block uses.\<close>

definition pm_fresh :: "(u64 \<Rightarrow> u64 \<Rightarrow> u64) \<Rightarrow> sys_ctx \<Rightarrow> bool" where
  "pm_fresh pm c \<longleftrightarrow>
     (\<forall>sz al tag u c'. sys_alloc pm c sz al tag = (Inr u, c') \<longrightarrow> fresh_ptr c u)"

inductive sys_reach :: "bool \<Rightarrow> sys_ctx \<Rightarrow> bool" for d where
  init: "sys_reach d (hbi_mem_debug_set_enabled d sys_ctx_init)"
| alloc: "sys_reach d c \<Longrightarrow> sys_alloc pm c sz al tag = (r, c') \<Longrightarrow>
    pm_fresh pm c \<Longrightarrow> sys_reach d c'"
| free: "sys_reach d c \<Longrightarrow> sys_free c p = (st, b, c') \<Longrightarrow> sys_reach d c'"
| realloc: "sys_reach d c \<Longrightarrow> sys_realloc pm c p n al tag = (q, k, c') \<Longrightarrow>
    pm_fresh pm c \<Longrightarrow> sys_reach d c'"
| overrun: "sys_reach d c \<Longrightarrow> blocks c p = Some h \<Longrightarrow>
    sys_reach d (c\<lparr>blocks := (blocks c)(p \<mapsto> h\<lparr>h_tail := w\<rparr>)\<rparr>)"

definition good :: "bool \<Rightarrow> sys_ctx \<Rightarrow> bool" where
  "good d c \<longleftrightarrow> sys_inv c \<and> 0 \<notin> dom (blocks c) \<and> (d \<longrightarrow> dbg_inv c)"

lemma good_alloc:
  assumes "good d c" and a: "sys_alloc pm c sz al tag = (r, c')" and "pm_fresh pm c"
  shows "good d c'"
proof (cases r)
  case (Inl e)
  then show ?thesis using a assms(1) sys_alloc_Inl by fastforce
next
  case (Inr u)
  then have "fresh_ptr c u" using assms(3) a unfolding pm_fresh_def by blast
  then show ?thesis
    using assms(1) sys_alloc_inv [OF a [unfolded Inr]] sys_alloc_dbg_inv [OF a [unfolded Inr]]
    by (auto simp: good_def fresh_ptr_def)
qed

lemma good_free: "good d c \<Longrightarrow> good d (snd (snd (sys_free c p)))"
proof (cases "p = 0 \<or> blocks c p = None")
  case False
  assume g: "good d c"
  obtain h where h: "p \<noteq> 0" "blocks c p = Some h" using False by auto
  then have "blocks (snd (snd (sys_free c p))) = (blocks c)(p := None)"
    using sys_free_Some [OF h] by simp
  then show ?thesis using g sys_free_inv [OF _ h] sys_free_dbg_inv [OF _ h] by (auto simp: good_def)
qed (simp add: sys_free_skip)

lemma good_realloc:
  assumes g: "good d c" and r: "sys_realloc pm c p n al tag = (q, k, c')" and f: "pm_fresh pm c"
  shows "good d c'"
  using r g good_alloc [OF g _ f] good_free
  by (auto simp: sys_realloc_def split: if_splits option.splits prod.splits sum.splits)

lemma good_overrun:
  assumes g: "good d c" and p: "blocks c p = Some h"
  shows "good d (c\<lparr>blocks := (blocks c)(p \<mapsto> h\<lparr>h_tail := w\<rparr>)\<rparr>)"
proof -
  let ?m = "(blocks c)(p \<mapsto> h\<lparr>h_tail := w\<rparr>)"
  have dom: "dom ?m = dom (blocks c)" using p by auto
  have ran: "ran ?m \<subseteq> insert (h\<lparr>h_tail := w\<rparr>) (ran (blocks c))" "h \<in> ran (blocks c)"
    using p by (auto simp: ran_def)
  have inv: "sys_inv c" using g by (simp add: good_def)
  have "\<forall>x \<in> ran ?m. tag_value (h_tag x) < 4" using inv ran by (auto simp: sys_inv_def)
  then have "sys_inv (c\<lparr>blocks := ?m\<rparr>)"
    using inv dom by (simp add: sys_inv_def msum_cong [where m = "blocks c" and p = p, OF p] del: fun_upd_apply dom_fun_upd)
  moreover have "dbg_inv (c\<lparr>blocks := ?m\<rparr>)" if d
  proof -
    have dbg: "dbg_inv c" using g that by (simp add: good_def)
    then have "\<forall>x \<in> ran ?m. h_canary x = HBI_CANARY_HEAD" using ran by (auto simp: dbg_inv_def)
    then show ?thesis using dbg dom by (simp add: dbg_inv_def del: fun_upd_apply dom_fun_upd)
  qed
  ultimately show ?thesis using g dom by (simp add: good_def del: fun_upd_apply dom_fun_upd)
qed

lemma reach_good: "sys_reach d c \<Longrightarrow> good d c"
proof (induction rule: sys_reach.induct)
  case init
  have "sys_inv (hbi_mem_debug_set_enabled d sys_ctx_init)"
    using sys_init_inv by (simp add: sys_inv_def hbi_mem_debug_set_enabled_def)
  then show ?case
    by (simp add: good_def dbg_inv_def hbi_mem_debug_set_enabled_def sys_ctx_init_def)
next
  case (free c p st b c')
  then show ?case using good_free [of d c p] by simp
next
  case (alloc c pm sz al tag r c')
  then show ?case using good_alloc by blast
next
  case (realloc c pm p n al tag q k c')
  then show ?case using good_realloc by blast
next
  case (overrun c p h w)
  then show ?case using good_overrun by blast
qed

lemma dom_card_bound:
  fixes m :: "u64 \<rightharpoonup> 'a"
  assumes "0 \<notin> dom m"
  shows "card (dom m) < 2 ^ 64"
proof -
  have "dom m \<subseteq> UNIV - {0}" using assms by auto
  then have "card (dom m) \<le> card (UNIV - {0 :: u64})" by (intro card_mono) simp_all
  also have "\<dots> < 2 ^ 64" by (simp add: card_Diff_singleton card_word)
  finally show ?thesis .
qed

section \<open>Properties of the system allocator\<close>

text \<open>
  C9. The counters of the system allocator are exact in every reachable state: live bytes, live
  blocks and the bytes per tag are the totals over the blocks that were allocated and not yet
  freed, and allocations minus frees is the number of live blocks; with debug mode on, the leak
  check succeeds exactly when no block is outstanding.\<close>

theorem sys_stats_exact:
  assumes "sys_reach d c"
  shows "\<exists>st. hbi_allocator_stats (Some (SystemAllocator c)) = Inr st \<and>
    s_live_bytes st = msum (blocks c) h_size \<and>
    unat (s_live_blocks st) = card (dom (blocks c)) \<and>
    s_total_alloc_calls st = s_total_free_calls st + s_live_blocks st \<and>
    (\<forall>i < 4. s_bytes_by_tag st ! i
      = msum (blocks c) (\<lambda>h. if tag_value (h_tag h) = i then h_size h else 0)) \<and>
    (d \<longrightarrow> (hbi_mem_check_leaks c = HBI_OK \<longleftrightarrow> blocks c = Map.empty))"
proof -
  have g: "sys_inv c" "0 \<notin> dom (blocks c)" "d \<longrightarrow> dbg_inv c"
    using reach_good [OF assms] by (auto simp: good_def)
  have n: "unat (live_blocks c) = card (dom (blocks c))"
    using g(1) dom_card_bound [OF g(2)] by (simp add: sys_inv_def msum_card unat_of_nat)
  have "hbi_mem_check_leaks c = HBI_OK \<longleftrightarrow> blocks c = Map.empty" if d
  proof -
    have "hbi_mem_check_leaks c = HBI_OK \<longleftrightarrow> live_blocks c = 0"
      using g(3) that by (simp add: hbi_mem_check_leaks_def dbg_inv_def)
    also have "\<dots> \<longleftrightarrow> card (dom (blocks c)) = 0" using n by (simp add: unat_eq_zero [symmetric])
    finally show ?thesis using g(1) by (simp add: sys_inv_def)
  qed
  then show ?thesis using g(1) n by (simp add: hbi_allocator_stats_def sys_inv_def)
qed

definition demo_pm :: "u64 \<Rightarrow> u64 \<Rightarrow> u64" where
  "demo_pm al sz = (if al = 64 \<and> sz < 65536 then 4096 else 0)"

theorem sys_stats_exact_witness:
  "\<exists>u c st. sys_alloc demo_pm sys_ctx_init 100 64 HBI_MEM_KV = (Inr u, c) \<and> sys_reach False c \<and>
     hbi_allocator_stats (Some (SystemAllocator c)) = Inr st \<and>
     unat (s_live_blocks st) = card (dom (blocks c)) \<and> s_live_bytes st = msum (blocks c) h_size"
proof -
  let ?a = "sys_alloc demo_pm sys_ctx_init 100 64 HBI_MEM_KV"
  have "\<not> isl (fst ?a)" by code_simp
  then obtain u c where a: "?a = (Inr u, c)" by (cases ?a; cases "fst ?a") auto
  have "sys_overhead 64 = 64" by code_simp
  then have f: "pm_fresh demo_pm sys_ctx_init"
    by (auto simp: pm_fresh_def fresh_ptr_def sys_alloc_def Let_def hbi_aligned_alloc_def demo_pm_def
        sys_ctx_init_def split: if_splits)
  have "sys_reach False (hbi_mem_debug_set_enabled False sys_ctx_init)" by (rule sys_reach.init)
  then have "sys_reach False sys_ctx_init" by (simp add: hbi_mem_debug_set_enabled_def sys_ctx_init_def)
  then have "sys_reach False c" using a f by (rule sys_reach.alloc)
  then show ?thesis using a sys_stats_exact [of False c] by blast
qed

lemma sys_overhead_ok:
  assumes "hbi_is_pow2 al"
  shows "unat al dvd unat (sys_overhead al) \<and> 48 \<le> unat (sys_overhead al)"
proof -
  let ?st = "if al > sizeof_sys_header then al else sizeof_sys_header"
  have st: "unat ?st = max 48 (unat al)"
    by (auto simp: sizeof_sys_header_def max_def word_less_nat_alt)
  have "unat ?st + unat al \<le> 2 ^ 64" using hbi_is_pow2_le [OF assms] st by simp
  then show ?thesis
    unfolding sys_overhead_def Let_def using hbi_align_up_fits [OF assms, of ?st] st by simp
qed

text \<open>What the operating system promises: aligned blocks inside the address space.\<close>

definition pm_ok :: "(u64 \<Rightarrow> u64 \<Rightarrow> u64) \<Rightarrow> bool" where
  "pm_ok pm \<longleftrightarrow> (\<forall>al sz. pm al sz \<noteq> 0 \<longrightarrow>
     unat al dvd unat (pm al sz) \<and> unat (pm al sz) + unat sz \<le> 2 ^ 64)"

lemma sys_alloc_base:
  assumes a: "sys_alloc pm c sz al0 tag = (Inr u, c')" and al: "al = normalize_alignment al0"
    and size: "s = (if sz = 0 then 1 else sz)" and cb: "cb = (if debug_enabled c then 4 else 0 :: u64)"
  obtains base where "hbi_is_pow2 al" and "u = base + sys_overhead al" and "base \<noteq> 0"
    and "base = hbi_aligned_alloc pm al (hbi_align_up (sys_overhead al + s + cb) al)"
  using a that unfolding sys_alloc_def al size cb
  by (auto simp: Let_def split: if_splits)

lemma pow2_dvd_2p64: "hbi_is_pow2 al \<Longrightarrow> unat al dvd 2 ^ 64"
  by (auto elim!: hbi_is_pow2E intro!: le_imp_power_dvd simp del: power_numeral)

lemma sys_alloc_aligned:
  assumes a: "sys_alloc pm c sz al0 tag = (Inr u, c')" and pm: "pm_ok pm"
  shows "unat (normalize_alignment al0) dvd unat u"
proof -
  let ?al = "normalize_alignment al0"
  obtain base req where b: "hbi_is_pow2 ?al" "u = base + sys_overhead ?al" "base \<noteq> 0"
    "base = hbi_aligned_alloc pm ?al req"
    using sys_alloc_base [OF a refl refl refl] by metis
  have "unat ?al dvd unat base"
    using b(3,4) pm by (auto simp: hbi_aligned_alloc_def pm_ok_def split: if_splits)
  then have "unat ?al dvd unat base + unat (sys_overhead ?al)" using sys_overhead_ok [OF b(1)] by simp
  then have "unat ?al dvd (unat base + unat (sys_overhead ?al)) mod 2 ^ 64"
    using pow2_dvd_2p64 [OF b(1)] by (simp add: dvd_mod)
  then show ?thesis using b(2) by (simp add: unat_word_ariths)
qed

lemma arena_alloc_aligned:
  assumes a: "arena_alloc ar sz al0 = (Inr p, ar')"
  shows "unat (normalize_alignment al0) dvd unat p"
proof -
  let ?al = "normalize_alignment al0" and ?cur = "ar_base ar + ar_offset ar"
  have "hbi_is_pow2 ?al" "hbi_align_up ?cur ?al \<noteq> 0 \<or> ?cur = 0" "p = hbi_align_up ?cur ?al"
    using a by (auto simp: arena_alloc_def Let_def split: if_splits)
  then show ?thesis using hbi_align_up_ok [of ?al ?cur] by blast
qed

lemma hbi_alloc_aligned:
  assumes "hbi_alloc pm a sz al tag = (p, a')" and "p \<noteq> 0" and "pm_ok pm"
  shows "unat (normalize_alignment al) dvd unat p"
  using assms sys_alloc_aligned [of pm _ sz al tag p] arena_alloc_aligned [of _ sz al p]
  by (auto simp: hbi_alloc_def split: option.splits hbi_allocator.splits prod.splits sum.splits)



section \<open>The arena\<close>

text \<open>
  A block handed out by the arena is a pair of its start offset and its length. The invariant of
  an arena whose live blocks, oldest first, are \<open>bs\<close>: they lie one after the other inside the
  capacity, and the cursor and \<open>last_offset\<close> describe the youngest one.
\<close>

fun stacked :: "nat \<Rightarrow> (nat \<times> nat) list \<Rightarrow> nat" where
  "stacked n [] = n"
| "stacked n ((s, l) # bs) = stacked (s + l) bs"

fun ordered :: "nat \<Rightarrow> (nat \<times> nat) list \<Rightarrow> bool" where
  "ordered n [] = True"
| "ordered n ((s, l) # bs) \<longleftrightarrow> n \<le> s \<and> 0 < l \<and> ordered (s + l) bs"

definition arena_inv :: "hbi_arena \<Rightarrow> (nat \<times> nat) list \<Rightarrow> bool" where
  "arena_inv ar bs \<longleftrightarrow> ar_base ar \<noteq> 0 \<and> unat (ar_base ar) + unat (ar_capacity ar) < 2 ^ 64 \<and>
     ordered 0 bs \<and> unat (ar_offset ar) = stacked 0 bs \<and> unat (ar_offset ar) \<le> unat (ar_capacity ar) \<and>
     (bs \<noteq> [] \<longrightarrow> unat (ar_last_offset ar) = fst (last bs))"

lemma stacked_append: "stacked n (bs @ [(s, l)]) = s + l"
  by (induction n bs rule: stacked.induct) simp_all

lemma ordered_append: "ordered n (bs @ [(s, l)]) \<longleftrightarrow> ordered n bs \<and> stacked n bs \<le> s \<and> 0 < l"
  by (induction n bs rule: ordered.induct) auto

lemma ordered_stacked: "ordered n bs \<Longrightarrow> n \<le> stacked n bs"
  by (induction n bs rule: ordered.induct) auto

lemma ordered_bounds:
  "ordered n bs \<Longrightarrow> (s, l) \<in> set bs \<Longrightarrow> n \<le> s \<and> 0 < l \<and> s + l \<le> stacked n bs"
proof (induction n bs rule: ordered.induct)
  case (2 n s0 l0 bs)
  have "s0 + l0 \<le> stacked (s0 + l0) bs" using 2(2) ordered_stacked [of "s0 + l0" bs] by simp
  then show ?case using 2 by auto
qed simp

definition disjoint_blocks :: "(nat \<times> nat) list \<Rightarrow> bool" where
  "disjoint_blocks bs \<longleftrightarrow>
     (\<forall>i < length bs. \<forall>j < length bs. i \<noteq> j \<longrightarrow>
        {fst (bs ! i)..<fst (bs ! i) + snd (bs ! i)} \<inter> {fst (bs ! j)..<fst (bs ! j) + snd (bs ! j)} = {})"

lemma ordered_nth:
  "ordered n bs \<Longrightarrow> i < j \<Longrightarrow> j < length bs \<Longrightarrow> fst (bs ! i) + snd (bs ! i) \<le> fst (bs ! j)"
proof (induction n bs arbitrary: i j rule: ordered.induct)
  case (2 n s l bs)
  then obtain j' where j: "j = Suc j'" "j' < length bs" by (cases j) auto
  show ?case
  proof (cases i)
    case 0
    have "(fst (bs ! j'), snd (bs ! j')) \<in> set bs" using j by simp
    then show ?thesis using 0 j ordered_bounds [of "s + l" bs] 2(2) by fastforce
  next
    case (Suc i')
    then show ?thesis using 2 j by simp
  qed
qed simp

lemma ordered_disjoint: "ordered n bs \<Longrightarrow> disjoint_blocks bs"
  unfolding disjoint_blocks_def
proof (intro allI impI)
  fix i j assume o: "ordered n bs" and ij: "i < length bs" "j < length bs" "i \<noteq> j"
  then consider "i < j" | "j < i" by linarith
  then show "{fst (bs ! i)..<fst (bs ! i) + snd (bs ! i)} \<inter> {fst (bs ! j)..<fst (bs ! j) + snd (bs ! j)} = {}"
    using ordered_nth [OF o, of i j] ordered_nth [OF o, of j i] ij by cases auto
qed

text \<open>What a successful \<open>arena_alloc\<close> did, in unbounded arithmetic.\<close>

lemma arena_alloc_Inr:
  assumes a: "arena_alloc ar sz al = (Inr p, ar')" and inv: "arena_inv ar bs"
  obtains s where "unat p = unat (ar_base ar) + s" and "stacked 0 bs \<le> s"
    and "s + max 1 (unat sz) \<le> unat (ar_capacity ar)" and "unat (normalize_alignment al) dvd unat p"
    and "unat (ar_last_offset ar') = s" and "unat (ar_offset ar') = s + max 1 (unat sz)"
    and "ar_base ar' = ar_base ar" and "ar_capacity ar' = ar_capacity ar"
proof -
  let ?al = "normalize_alignment al" and ?sz = "if sz = 0 then 1 else sz"
  let ?cur = "ar_base ar + ar_offset ar"
  let ?A = "hbi_align_up ?cur ?al"
  let ?s = "?A - ar_base ar"
  have p2: "hbi_is_pow2 ?al" and nz: "\<not> (?A = 0 \<and> ?cur \<noteq> 0)"
    and e: "\<not> (?s + ?sz < ?s \<or> ?s + ?sz > ar_capacity ar)" and p: "p = ar_base ar + ?s"
    and ar': "ar' = ar\<lparr>ar_last_offset := ?s, ar_offset := ?s + ?sz\<rparr>"
    using a by (auto simp: arena_alloc_def Let_def split: if_splits)
  have i: "ar_base ar \<noteq> 0" "unat (ar_base ar) + unat (ar_capacity ar) < 2 ^ 64"
    "unat (ar_offset ar) \<le> unat (ar_capacity ar)" "unat (ar_offset ar) = stacked 0 bs"
    using inv by (auto simp: arena_inv_def)
  have cur: "unat ?cur = unat (ar_base ar) + stacked 0 bs"
    using i by (subst unat_plus_if') simp
  have A: "unat ?cur \<le> unat ?A \<and> unat ?al dvd unat ?A"
    using hbi_align_up_ok [OF p2, of ?cur] nz by blast
  have s: "unat ?s = unat ?A - unat (ar_base ar)"
    using A cur by (simp add: unat_sub word_le_nat_alt)
  have sz: "unat ?sz = max 1 (unat sz)" by (auto simp: max_def unat_eq_zero [symmetric] Suc_le_eq)
  have nw: "unat (?s + ?sz) = unat ?s + unat ?sz"
    using e by (simp only: de_Morgan_disj not_less) (metis unat_plus_simple)
  have le: "unat ?s + unat ?sz \<le> unat (ar_capacity ar)"
    using e nw by (simp add: not_less word_le_nat_alt)
  have "unat p = unat ?A" using p by simp
  moreover have "stacked 0 bs \<le> unat ?s" "unat ?A = unat (ar_base ar) + unat ?s"
    using s A cur by linarith+
  ultimately show thesis
    using that [of "unat ?s"] A le sz nw ar' by (simp del: unat_sub)
qed

lemma arena_alloc_inv:
  assumes a: "arena_alloc ar sz al = (Inr p, ar')" and inv: "arena_inv ar bs"
  shows "arena_inv ar' (bs @ [(unat p - unat (ar_base ar), max 1 (unat sz))])"
proof -
  obtain s where "unat p = unat (ar_base ar) + s" "stacked 0 bs \<le> s"
    "s + max 1 (unat sz) \<le> unat (ar_capacity ar)"
    "unat (ar_last_offset ar') = s" "unat (ar_offset ar') = s + max 1 (unat sz)"
    "ar_base ar' = ar_base ar" "ar_capacity ar' = ar_capacity ar"
    using a inv by (rule arena_alloc_Inr)
  then show ?thesis
    using inv by (simp add: arena_inv_def stacked_append ordered_append)
qed

lemma arena_alloc_Inl: "arena_alloc ar sz al = (Inl e, ar') \<Longrightarrow> ar' = ar"
  by (auto simp: arena_alloc_def Let_def split: if_splits)

text \<open>Growing or shrinking in place concerns the youngest block only.\<close>

lemma arena_in_place_inv:
  assumes r: "arena_realloc ar ptr n al = (ptr, None, ar')" and "ptr \<noteq> 0" "n \<noteq> 0"
    and inv: "arena_inv ar bs" and b: "(s, l) \<in> set bs" "unat ptr = unat (ar_base ar) + s"
  shows "arena_inv ar' (map (\<lambda>b. if b = (s, l) then (s, unat n) else b) bs)"
proof -
  let ?e = "ar_last_offset ar + n"
  have al: "ptr = ar_base ar + ar_last_offset ar" "\<not> ?e < ar_last_offset ar" "?e \<le> ar_capacity ar"
    and ar': "ar' = ar\<lparr>ar_offset := ?e\<rparr>"
    using r assms(2,3) by (auto simp: arena_realloc_def Let_def split: if_splits prod.splits sum.splits)
  obtain bs' s' l' where bs: "bs = bs' @ [(s', l')]" using b(1) by (cases bs rule: rev_cases) auto
  have i: "unat (ar_base ar) + unat (ar_capacity ar) < 2 ^ 64" "ordered 0 (bs' @ [(s', l')])"
    "unat (ar_last_offset ar) = s'" "s' + l' \<le> unat (ar_capacity ar)"
    using inv by (auto simp: arena_inv_def bs stacked_append)
  have "unat ptr = unat (ar_base ar) + s'"
    unfolding al(1) using i by (subst unat_plus_if') simp
  then have ss: "s = s'" using b(2) by simp
  have o: "ordered 0 bs'" "stacked 0 bs' \<le> s'" "0 < l'" using i(2) by (auto simp: ordered_append)
  have nb: "x \<noteq> (s, l)" if "x \<in> set bs'" for x
    using ordered_bounds [OF o(1), of "fst x" "snd x"] that o(2) ss by auto
  then have "(s, l) = (s', l')" using b(1) by (auto simp: bs)
  then have m: "map (\<lambda>b. if b = (s, l) then (s, unat n) else b) bs = bs' @ [(s', unat n)]"
    using map_idI [of bs' "\<lambda>b. if b = (s, l) then (s, unat n) else b"] nb by (simp add: bs)
  have e: "unat ?e = s' + unat n" using al(2) i(3) by (metis not_less unat_plus_simple)
  have "0 < unat n" using assms(3) by (simp add: unat_gt_0)
  then show ?thesis
    unfolding m using inv e al(3) o i
    by (simp add: arena_inv_def ar' bs ordered_append stacked_append word_le_nat_alt)
qed

lemma arena_moved_inv:
  assumes r: "arena_realloc ar ptr n al = (q, Some cp, ar')" and inv: "arena_inv ar bs" and "n \<noteq> 0"
  shows "arena_inv ar' (bs @ [(unat q - unat (ar_base ar), unat n)])"
proof -
  have "arena_alloc ar n al = (Inr q, ar')"
    using r by (auto simp: arena_realloc_def Let_def split: if_splits prod.splits sum.splits)
  moreover have "max 1 (unat n) = unat n" using assms(3) by (simp add: max_def Suc_le_eq unat_gt_0)
  ultimately show ?thesis using arena_alloc_inv [OF _ inv, of n al q ar'] by simp
qed

inductive arena_reach :: "hbi_arena \<Rightarrow> (nat \<times> nat) list \<Rightarrow> bool" where
  create: "base \<noteq> 0 \<Longrightarrow> unat base + unat cap < 2 ^ 64 \<Longrightarrow>
    arena_reach \<lparr>ar_base = base, ar_capacity = cap, ar_offset = 0, ar_last_offset = 0\<rparr> []"
| alloc: "arena_reach ar bs \<Longrightarrow> arena_alloc ar sz al = (Inr p, ar') \<Longrightarrow>
    arena_reach ar' (bs @ [(unat p - unat (ar_base ar), max 1 (unat sz))])"
| alloc_fails: "arena_reach ar bs \<Longrightarrow> arena_alloc ar sz al = (Inl e, ar') \<Longrightarrow> arena_reach ar' bs"
| resized: "arena_reach ar bs \<Longrightarrow> (s, l) \<in> set bs \<Longrightarrow> unat ptr = unat (ar_base ar) + s \<Longrightarrow> ptr \<noteq> 0 \<Longrightarrow>
    n \<noteq> 0 \<Longrightarrow> arena_realloc ar ptr n al = (ptr, None, ar') \<Longrightarrow>
    arena_reach ar' (map (\<lambda>b. if b = (s, l) then (s, unat n) else b) bs)"
| moved: "arena_reach ar bs \<Longrightarrow> n \<noteq> 0 \<Longrightarrow> arena_realloc ar ptr n al = (q, Some cp, ar') \<Longrightarrow>
    arena_reach ar' (bs @ [(unat q - unat (ar_base ar), unat n)])"
| free: "arena_reach ar bs \<Longrightarrow> arena_reach (arena_free ar p) bs"
| reset: "arena_reach ar bs \<Longrightarrow> arena_reach (hbi_arena_reset ar) []"

lemma arena_reach_inv: "arena_reach ar bs \<Longrightarrow> arena_inv ar bs"
proof (induction rule: arena_reach.induct)
  case (alloc_fails ar bs sz al e ar')
  then show ?case using arena_alloc_Inl by blast
next
  case (resized ar bs s l ptr n al ar')
  then show ?case using arena_in_place_inv by blast
next
  case (alloc ar bs sz al p ar')
  then show ?case using arena_alloc_inv by blast
next
  case (moved ar bs n ptr al q cp ar')
  then show ?case using arena_moved_inv by blast
qed (auto simp: arena_free_def hbi_arena_reset_def arena_inv_def)

text \<open>
  C27. Arena allocation is memory safe: for every sequence of allocations, reallocations, frees and
  resets, the blocks handed out since the last reset are non-empty, pairwise disjoint and inside
  the used part of the backing block, and the next successful allocation returns an address
  aligned as requested, past every live block and inside the backing block.\<close>

theorem arena_blocks_safe:
  assumes "arena_reach ar bs"
  shows "disjoint_blocks bs \<and>
    (\<forall>(s, l) \<in> set bs. 0 < l \<and> s + l \<le> unat (hbi_arena_used (Some ar))) \<and>
    unat (hbi_arena_used (Some ar)) \<le> unat (hbi_arena_capacity (Some ar)) \<and>
    (\<forall>sz al p ar'. arena_alloc ar sz al = (Inr p, ar') \<longrightarrow>
       unat (normalize_alignment al) dvd unat p \<and>
       unat (ar_base ar) + unat (hbi_arena_used (Some ar)) \<le> unat p \<and>
       unat p + max 1 (unat sz) \<le> unat (ar_base ar) + unat (ar_capacity ar))"
proof -
  have inv: "arena_inv ar bs" using assms by (rule arena_reach_inv)
  then have o: "ordered 0 bs" "unat (ar_offset ar) = stacked 0 bs" by (auto simp: arena_inv_def)
  have "\<forall>(s, l) \<in> set bs. 0 < l \<and> s + l \<le> unat (ar_offset ar)"
    using ordered_bounds [OF o(1)] o(2) by auto
  moreover have "unat (normalize_alignment al) dvd unat p \<and>
       unat (ar_base ar) + unat (ar_offset ar) \<le> unat p \<and>
       unat p + max 1 (unat sz) \<le> unat (ar_base ar) + unat (ar_capacity ar)"
    if "arena_alloc ar sz al = (Inr p, ar')" for sz al p ar'
  proof -
    note a = that
    obtain s where "unat p = unat (ar_base ar) + s" "stacked 0 bs \<le> s"
      "s + max 1 (unat sz) \<le> unat (ar_capacity ar)" "unat (normalize_alignment al) dvd unat p"
      using a inv by (rule arena_alloc_Inr)
    then show ?thesis using o(2) by simp
  qed
  ultimately show ?thesis
    using ordered_disjoint [OF o(1)] inv
    by (auto simp: hbi_arena_used_def hbi_arena_capacity_def arena_inv_def)
qed

definition demo_arena :: hbi_arena where
  "demo_arena = \<lparr>ar_base = 4096, ar_capacity = 256, ar_offset = 0, ar_last_offset = 0\<rparr>"

theorem arena_blocks_safe_witness:
  "\<exists>ar bs. arena_reach ar bs \<and> length bs = 2 \<and> disjoint_blocks bs \<and>
     unat (hbi_arena_used (Some ar)) \<le> unat (hbi_arena_capacity (Some ar))"
proof -
  have r0: "arena_reach demo_arena []"
    unfolding demo_arena_def by (rule arena_reach.create) simp_all
  have a: "arena_alloc demo_arena 10 0 = (Inr 4096, demo_arena\<lparr>ar_offset := 10\<rparr>)"
    "arena_alloc (demo_arena\<lparr>ar_offset := 10\<rparr>) 20 64 =
       (Inr 4160, demo_arena\<lparr>ar_offset := 84, ar_last_offset := 64\<rparr>)"
    by code_simp+
  let ?ar = "demo_arena\<lparr>ar_offset := 84, ar_last_offset := 64\<rparr>"
  have r: "arena_reach ?ar [(0, 10), (64, 20)]"
    using arena_reach.alloc [OF arena_reach.alloc [OF r0 a(1)] a(2)] by (simp add: demo_arena_def)
  have "length [(0 :: nat, 10 :: nat), (64, 20)] = 2" by simp
  then show ?thesis using r arena_blocks_safe [OF r] by blast
qed

section \<open>Two boundary cases\<close>

text \<open>
  A request so large that rounding its total up to the alignment overflows makes \<open>hbi_align_up\<close>
  return 0, which \<open>sys_alloc\<close> passes on: the platform is asked for a single byte and the
  allocation is reported as a success.
\<close>

lemma sys_alloc_rounding_overflow:
  "hbi_align_up (sys_overhead 16 + (- 50)) 16 = 0 \<and>
   fst (sys_alloc (\<lambda>al sz. if sz = 1 then 4096 else 0) sys_ctx_init (- 50) 16 HBI_MEM_GENERAL) = Inr 4144"
  by code_simp

text \<open>
  Reallocating a block that is not the youngest reads the cursor after the fresh block has been
  carved, so the copy may run into the fresh block: here source and destination overlap.
\<close>

lemma arena_realloc_copy_overlaps:
  "fst (snd (arena_realloc \<lparr>ar_base = 4096, ar_capacity = 256, ar_offset = 32, ar_last_offset = 16\<rparr>
     4096 64 0)) = Some (4128, 4096, 64)"
  by code_simp

end
