(* ===== verification/Registry.thy ===== *)
theory Registry
  imports Common
begin

text \<open>
  The contract that the registries of the runtime share (kernels, tokenizers, model formats,
  backends): a bounded table filled by a \<open>register\<close> operation that appends a new entry unless the
  entry is rejected, the table is full, or the entry conflicts with one that is present. A locale
  states the contract and derives what a client relies on: the entries never conflict with each
  other, and a search for a property that only one non-conflicting entry can have does not depend
  on the order of registration.
\<close>

locale registry =
  fixes items :: "'r \<Rightarrow> 'k list"
    and register :: "'r \<Rightarrow> 'k \<Rightarrow> hbi_status \<times> 'r"
    and conflict :: "'k \<Rightarrow> 'k \<Rightarrow> bool"
    and capacity :: nat
  assumes register_ok: "register r k = (HBI_OK, r') \<Longrightarrow>
      items r' = items r @ [k] \<and> length (items r) < capacity \<and> (\<forall>e \<in> set (items r). \<not> conflict e k)"
    and register_err: "register r k = (st, r') \<Longrightarrow> st \<noteq> HBI_OK \<Longrightarrow> items r' = items r"
begin

fun no_conflict :: "'k list \<Rightarrow> bool" where
  "no_conflict [] = True"
| "no_conflict (k # ks) \<longleftrightarrow> (\<forall>e \<in> set ks. \<not> conflict k e) \<and> no_conflict ks"

definition reg_inv :: "'r \<Rightarrow> bool" where
  "reg_inv r \<longleftrightarrow> no_conflict (items r) \<and> length (items r) \<le> capacity"

lemma no_conflict_snoc: "no_conflict (ks @ [k]) \<longleftrightarrow> no_conflict ks \<and> (\<forall>e \<in> set ks. \<not> conflict e k)"
  by (induction ks) auto

lemma register_inv: "reg_inv r \<Longrightarrow> reg_inv (snd (register r k))"
proof -
  assume inv: "reg_inv r"
  obtain st r' where e: "register r k = (st, r')" by fastforce
  show ?thesis
  proof (cases "st = HBI_OK")
    case True
    then show ?thesis using register_ok [of r k r'] inv e by (simp add: reg_inv_def no_conflict_snoc)
  next
    case False
    then show ?thesis using register_err [OF e] inv e by (simp add: reg_inv_def)
  qed
qed

lemma register_all_inv: "reg_inv r \<Longrightarrow> reg_inv (foldl (\<lambda>r k. snd (register r k)) r ks)"
  by (induction ks arbitrary: r) (simp_all add: register_inv)

lemma register_keeps: "set (items r) \<subseteq> set (items (snd (register r k)))"
proof -
  obtain st r' where e: "register r k = (st, r')" by fastforce
  show ?thesis
    using register_ok [of r k r'] register_err [OF e] e by (cases "st = HBI_OK") auto
qed

lemma no_conflict_find:
  assumes "no_conflict ks" and "k \<in> set ks" and "P k"
    and "\<And>a b. P a \<Longrightarrow> P b \<Longrightarrow> conflict a b"
  shows "find P ks = Some k"
  using assms by (induction ks) auto

lemma find_unique:
  assumes "reg_inv r" and "k \<in> set (items r)" and "P k"
    and "\<And>a b. P a \<Longrightarrow> P b \<Longrightarrow> conflict a b"
  shows "find P (items r) = Some k"
  using assms by (intro no_conflict_find) (auto simp: reg_inv_def)

end

text \<open>
  The registries that are keyed by a name or a format: two entries conflict when their keys are
  equal. An entry that was accepted is found by its key, whatever is registered afterwards.
\<close>

locale keyed_registry = registry items register "\<lambda>a b. key_of a = key_of b" capacity
  for items :: "'r \<Rightarrow> 'k list"
    and register :: "'r \<Rightarrow> 'k \<Rightarrow> hbi_status \<times> 'r"
    and key_of :: "'k \<Rightarrow> 'n"
    and capacity :: nat
begin

lemma find_key: "reg_inv r \<Longrightarrow> k \<in> set (items r) \<Longrightarrow> find (\<lambda>e. key_of e = key_of k) (items r) = Some k"
  by (rule find_unique) auto

lemma register_all_keeps: "set (items r) \<subseteq> set (items (foldl (\<lambda>r k. snd (register r k)) r ks))"
proof (induction ks arbitrary: r)
  case (Cons k ks)
  show ?case using register_keeps [of r k] Cons.IH [of "snd (register r k)"] by simp
qed simp

lemma accepted_is_found:
  assumes "reg_inv r" and "register r k = (HBI_OK, r')"
  shows "find (\<lambda>e. key_of e = key_of k) (items (foldl (\<lambda>r k. snd (register r k)) r' ks)) = Some k"
proof (rule find_key)
  have "reg_inv r'" using register_inv [OF assms(1), of k] assms(2) by simp
  then show "reg_inv (foldl (\<lambda>r k. snd (register r k)) r' ks)" by (rule register_all_inv)
  have "k \<in> set (items r')" using register_ok [OF assms(2)] by simp
  then show "k \<in> set (items (foldl (\<lambda>r k. snd (register r k)) r' ks))" using register_all_keeps by blast
qed

lemma key_taken:
  assumes "reg_inv r" and "e \<in> set (items r)" and "key_of k = key_of e"
  shows "fst (register r k) \<noteq> HBI_OK"
  using register_ok [of r k "snd (register r k)"] assms(2,3) by (cases "register r k") auto

end

end
