(* ===== verification/Kernel.thy ===== *)
theory Kernel
  imports Tensor Memory Registry
begin

text \<open>
  The \<open>kernel\<close> module (src/src/kernel/kernel.h, kernel.c): the operation taxonomy, call arguments,
  reusable workspaces, the kernel registry and dispatch.

  A kernel descriptor's \<open>run\<close> and \<open>workspace_size\<close> are functions supplied by a backend; they are
  fields of the descriptor, and \<open>run\<close> acts on a state of type \<open>'s\<close> that the model leaves open
  (the memory behind the tensors). A workspace carries the state of the allocator it is bound to.
\<close>

section \<open>Operations and parameters\<close>

datatype hbi_kernel_op =
    HBI_KERNEL_OP_INVALID | HBI_KERNEL_OP_COPY | HBI_KERNEL_OP_FILL | HBI_KERNEL_OP_CAST
  | HBI_KERNEL_OP_TRANSPOSE | HBI_KERNEL_OP_ELEMENTWISE | HBI_KERNEL_OP_MATMUL
  | HBI_KERNEL_OP_RESHAPE | HBI_KERNEL_OP_REDUCE | HBI_KERNEL_OP_BATCHED_MATMUL
  | HBI_KERNEL_OP_SOFTMAX | HBI_KERNEL_OP_RMSNORM | HBI_KERNEL_OP_LAYERNORM | HBI_KERNEL_OP_ROPE
  | HBI_KERNEL_OP_ACTIVATION | HBI_KERNEL_OP_MOE_ROUTING | HBI_KERNEL_OP_ATTENTION
  | HBI_KERNEL_OP_COUNT

fun hbi_kernel_op_str :: "hbi_kernel_op \<Rightarrow> string" where
  "hbi_kernel_op_str HBI_KERNEL_OP_COPY = ''copy''"
| "hbi_kernel_op_str HBI_KERNEL_OP_FILL = ''fill''"
| "hbi_kernel_op_str HBI_KERNEL_OP_CAST = ''cast''"
| "hbi_kernel_op_str HBI_KERNEL_OP_TRANSPOSE = ''transpose''"
| "hbi_kernel_op_str HBI_KERNEL_OP_ELEMENTWISE = ''elementwise''"
| "hbi_kernel_op_str HBI_KERNEL_OP_MATMUL = ''matmul''"
| "hbi_kernel_op_str HBI_KERNEL_OP_RESHAPE = ''reshape''"
| "hbi_kernel_op_str HBI_KERNEL_OP_REDUCE = ''reduce''"
| "hbi_kernel_op_str HBI_KERNEL_OP_BATCHED_MATMUL = ''batched_matmul''"
| "hbi_kernel_op_str HBI_KERNEL_OP_SOFTMAX = ''softmax''"
| "hbi_kernel_op_str HBI_KERNEL_OP_RMSNORM = ''rmsnorm''"
| "hbi_kernel_op_str HBI_KERNEL_OP_LAYERNORM = ''layernorm''"
| "hbi_kernel_op_str HBI_KERNEL_OP_ROPE = ''rope''"
| "hbi_kernel_op_str HBI_KERNEL_OP_ACTIVATION = ''activation''"
| "hbi_kernel_op_str HBI_KERNEL_OP_MOE_ROUTING = ''moe_routing''"
| "hbi_kernel_op_str HBI_KERNEL_OP_ATTENTION = ''attention''"
| "hbi_kernel_op_str _ = ''invalid''"

text \<open>The enum is consecutive, so the source's range test excludes exactly the two sentinels.\<close>

definition hbi_kernel_op_is_valid :: "hbi_kernel_op \<Rightarrow> bool" where
  "hbi_kernel_op_is_valid op \<longleftrightarrow> op \<noteq> HBI_KERNEL_OP_INVALID \<and> op \<noteq> HBI_KERNEL_OP_COUNT"

datatype hbi_elementwise_kind =
  HBI_ELEMENTWISE_ADD | HBI_ELEMENTWISE_MUL | HBI_ELEMENTWISE_KIND_COUNT

datatype hbi_reduce_kind = HBI_REDUCE_SUM | HBI_REDUCE_MAX | HBI_REDUCE_KIND_COUNT

datatype hbi_activation_kind =
    HBI_ACTIVATION_GELU | HBI_ACTIVATION_SILU | HBI_ACTIVATION_RELU | HBI_ACTIVATION_KIND_COUNT

text \<open>
  The parameter union, with every member kept: which one is read is fixed by the operation, and no
  code reads a member other than the one written. \<open>fill_value\<close> is the bit pattern of the double.
\<close>

record hbi_kernel_params =
  fill_value :: u64
  cast_target :: hbi_dtype
  elementwise :: hbi_elementwise_kind
  reduce :: hbi_reduce_kind
  activation :: hbi_activation_kind
  axis_a :: nat
  axis_b :: nat

definition zero_params :: hbi_kernel_params where
  "zero_params = \<lparr>fill_value = 0, cast_target = HBI_DTYPE_INVALID, elementwise = HBI_ELEMENTWISE_ADD,
     reduce = HBI_REDUCE_SUM, activation = HBI_ACTIVATION_GELU, axis_a = 0, axis_b = 0\<rparr>"

definition HBI_KERNEL_MAX_INPUTS :: nat where "HBI_KERNEL_MAX_INPUTS = 8"
definition HBI_KERNEL_MAX_OUTPUTS :: nat where "HBI_KERNEL_MAX_OUTPUTS = 2"
definition HBI_KERNEL_LAYOUT_ANY :: u32 where "HBI_KERNEL_LAYOUT_ANY = 0"
definition HBI_KERNEL_LAYOUT_REQUIRE_CONTIGUOUS :: u32 where "HBI_KERNEL_LAYOUT_REQUIRE_CONTIGUOUS = 1"

record hbi_kernel_args =
  inputs :: "hbi_tensor ptr list"
  num_inputs :: nat
  outputs :: "hbi_tensor ptr list"
  num_outputs :: nat
  params :: hbi_kernel_params

definition hbi_kernel_args_init :: hbi_kernel_args where
  "hbi_kernel_args_init = \<lparr>inputs = replicate HBI_KERNEL_MAX_INPUTS None, num_inputs = 0,
     outputs = replicate HBI_KERNEL_MAX_OUTPUTS None, num_outputs = 0, params = zero_params\<rparr>"

section \<open>Workspaces\<close>

record hbi_kernel_workspace =
  ws_allocator :: "hbi_allocator ptr"
  ws_buffer :: u64
  ws_capacity :: u64
  ws_alignment :: u64

definition hbi_kernel_workspace_init :: "hbi_allocator \<Rightarrow> hbi_kernel_workspace" where
  "hbi_kernel_workspace_init a =
     \<lparr>ws_allocator = Some a, ws_buffer = 0, ws_capacity = 0, ws_alignment = 0\<rparr>"

definition hbi_kernel_workspace_reserve ::
  "(u64 \<Rightarrow> u64 \<Rightarrow> u64) \<Rightarrow> hbi_kernel_workspace ptr \<Rightarrow> u64 \<Rightarrow> u64 \<Rightarrow>
     hbi_status \<times> hbi_kernel_workspace ptr" where
  "hbi_kernel_workspace_reserve pm ws0 bytes alignment =
     (case ws0 of
        None \<Rightarrow> (HBI_ERR_INVALID_ARG, None)
      | Some ws \<Rightarrow>
          if ws_allocator ws = None then (HBI_ERR_INVALID_ARG, ws0)
          else if alignment \<noteq> 0 \<and> \<not> hbi_is_pow2 alignment then (HBI_ERR_INVALID_ARG, ws0)
          else if bytes = 0 then (HBI_OK, ws0)
          else
            let aligned_ok = (alignment = 0 \<or> ws_buffer ws \<noteq> 0 \<and> ws_buffer ws mod alignment = 0) in
            if ws_buffer ws \<noteq> 0 \<and> ws_capacity ws \<ge> bytes \<and> aligned_ok then (HBI_OK, ws0)
            else
              (case hbi_alloc pm (ws_allocator ws) bytes alignment HBI_MEM_SCRATCH of
                 (fresh, a) \<Rightarrow>
                   if fresh = 0 then (HBI_ERR_OOM, Some (ws\<lparr>ws_allocator := a\<rparr>))
                   else
                     let a' = (if ws_buffer ws \<noteq> 0 then hbi_free a (ws_buffer ws) else a) in
                     (HBI_OK, Some \<lparr>ws_allocator = a', ws_buffer = fresh, ws_capacity = bytes,
                                    ws_alignment = (if alignment = 0 then 1 else alignment)\<rparr>)))"

definition hbi_kernel_workspace_ptr :: "hbi_kernel_workspace ptr \<Rightarrow> u64" where
  "hbi_kernel_workspace_ptr ws = (case ws of None \<Rightarrow> 0 | Some ws \<Rightarrow> ws_buffer ws)"

definition hbi_kernel_workspace_capacity :: "hbi_kernel_workspace ptr \<Rightarrow> u64" where
  "hbi_kernel_workspace_capacity ws = (case ws of None \<Rightarrow> 0 | Some ws \<Rightarrow> ws_capacity ws)"

definition hbi_kernel_workspace_reset :: "hbi_kernel_workspace ptr \<Rightarrow> hbi_kernel_workspace ptr" where
  "hbi_kernel_workspace_reset ws0 =
     (case ws0 of
        None \<Rightarrow> None
      | Some ws \<Rightarrow>
          if ws_buffer ws = 0 then ws0
          else Some \<lparr>ws_allocator = hbi_free (ws_allocator ws) (ws_buffer ws), ws_buffer = 0,
                     ws_capacity = 0, ws_alignment = 0\<rparr>)"

text \<open>
  \<open>hbi_kernel_workspace_destroy\<close> also unbinds the allocator; the model returns the allocator's
  state next to the zeroed struct.
\<close>

definition hbi_kernel_workspace_destroy ::
  "hbi_kernel_workspace ptr \<Rightarrow> hbi_allocator ptr \<times> hbi_kernel_workspace ptr" where
  "hbi_kernel_workspace_destroy ws =
     (case hbi_kernel_workspace_reset ws of
        None \<Rightarrow> (None, None)
      | Some w \<Rightarrow> (ws_allocator w,
          Some \<lparr>ws_allocator = None, ws_buffer = 0, ws_capacity = 0, ws_alignment = 0\<rparr>))"

section \<open>Registry\<close>

record 's hbi_kernel =
  k_op :: hbi_kernel_op
  k_name :: "string ptr"
  k_device :: hbi_tensor_device
  supported_dtypes :: "hbi_dtype list ptr"
  num_dtypes :: nat
  layout_flags :: u32
  workspace_size :: "(hbi_kernel_args \<Rightarrow> u64 outcome) ptr"
  run :: "(hbi_kernel_args \<Rightarrow> hbi_kernel_workspace ptr \<Rightarrow> 's \<Rightarrow> hbi_status \<times> 's) ptr"

definition hbi_kernel_supports_dtype :: "'s hbi_kernel ptr \<Rightarrow> hbi_dtype \<Rightarrow> bool" where
  "hbi_kernel_supports_dtype k dt =
     (case k of
        None \<Rightarrow> False
      | Some k \<Rightarrow>
          (case supported_dtypes k of
             None \<Rightarrow> False
           | Some ds \<Rightarrow> dt \<in> set (take (num_dtypes k) ds)))"

record 's kernel_registry =
  g_kernels :: "'s hbi_kernel list"
  g_kernel_dispatched :: bool




definition hbi_kernel_registry_count :: "'s kernel_registry \<Rightarrow> nat" where
  "hbi_kernel_registry_count reg = length (g_kernels reg)"

definition hbi_kernel_at :: "'s kernel_registry \<Rightarrow> int \<Rightarrow> 's hbi_kernel ptr" where
  "hbi_kernel_at reg index =
     (if index < 0 \<or> index \<ge> int (length (g_kernels reg)) then None
      else Some (g_kernels reg ! nat index))"

section \<open>Dispatch\<close>

record hbi_kernel_key =
  key_op :: hbi_kernel_op
  key_device :: hbi_tensor_device
  key_dtype :: hbi_dtype
  key_layout_flags :: u32

definition key_matches :: "hbi_kernel_key \<Rightarrow> 's hbi_kernel \<Rightarrow> bool" where
  "key_matches key k \<longleftrightarrow> k_op k = key_op key \<and> k_device k = key_device key \<and>
     hbi_kernel_supports_dtype (Some k) (key_dtype key) \<and>
     layout_flags k AND NOT (key_layout_flags key) = 0"

definition hbi_kernel_resolve ::
  "'s kernel_registry \<Rightarrow> hbi_kernel_key ptr \<Rightarrow> 's hbi_kernel outcome \<times> 's kernel_registry" where
  "hbi_kernel_resolve reg0 key =
     (let reg = reg0\<lparr>g_kernel_dispatched := True\<rparr> in
      case key of
        None \<Rightarrow> (Inl HBI_ERR_INVALID_ARG, reg)
      | Some key \<Rightarrow>
          if \<not> hbi_kernel_op_is_valid (key_op key) then (Inl HBI_ERR_INVALID_ARG, reg)
          else
            (case find (key_matches key) (g_kernels reg) of
               None \<Rightarrow> (Inl HBI_ERR_NOT_FOUND, reg)
             | Some k \<Rightarrow> (Inr k, reg)))"

definition infer_dtype :: "hbi_kernel_args \<Rightarrow> hbi_dtype outcome" where
  "infer_dtype args =
     (case (if num_inputs args > 0 then inputs args ! 0 else None) of
        Some t \<Rightarrow> Inr (dtype t)
      | None \<Rightarrow>
          (case (if num_outputs args > 0 then outputs args ! 0 else None) of
             Some t \<Rightarrow> Inr (dtype t)
           | None \<Rightarrow> Inl HBI_ERR_INVALID_ARG))"

text \<open>
  \<open>sys\<close> is the system allocator, over which the temporary workspace is created when the caller
  passes none. The result carries the status, the caller's workspace, the system allocator, the
  registry and the state \<open>run\<close> acted on.
\<close>

definition hbi_kernel_dispatch ::
  "(u64 \<Rightarrow> u64 \<Rightarrow> u64) \<Rightarrow> 's kernel_registry \<Rightarrow> hbi_allocator \<Rightarrow> hbi_kernel_op \<Rightarrow> hbi_tensor_device \<Rightarrow>
     hbi_kernel_args ptr \<Rightarrow> hbi_kernel_workspace ptr \<Rightarrow> 's \<Rightarrow>
     hbi_status \<times> hbi_kernel_workspace ptr \<times> hbi_allocator ptr \<times> 's kernel_registry \<times> 's" where
  "hbi_kernel_dispatch pm reg sys op dev args ws s =
     (case args of
        None \<Rightarrow> (HBI_ERR_INVALID_ARG, ws, Some sys, reg, s)
      | Some args \<Rightarrow>
          if num_inputs args > HBI_KERNEL_MAX_INPUTS \<or> num_outputs args > HBI_KERNEL_MAX_OUTPUTS
          then (HBI_ERR_INVALID_ARG, ws, Some sys, reg, s)
          else case infer_dtype args of
            Inl st \<Rightarrow> (st, ws, Some sys, reg, s)
          | Inr dt \<Rightarrow>
              (case hbi_kernel_resolve reg (Some \<lparr>key_op = op, key_device = dev, key_dtype = dt,
                       key_layout_flags = HBI_KERNEL_LAYOUT_ANY\<rparr>) of
                 (Inl st, reg') \<Rightarrow> (st, ws, Some sys, reg', s)
               | (Inr k, reg') \<Rightarrow>
                   (case (case workspace_size k of None \<Rightarrow> Inr 0 | Some f \<Rightarrow> f args) of
                      Inl st \<Rightarrow> (st, ws, Some sys, reg', s)
                    | Inr need \<Rightarrow>
                        if need > 0 then
                          (case ws of
                             Some _ \<Rightarrow>
                               (case hbi_kernel_workspace_reserve pm ws need (of_nat HBI_TENSOR_DEFAULT_ALIGN) of
                                  (st, ws') \<Rightarrow>
                                    if st \<noteq> HBI_OK then (st, ws', Some sys, reg', s)
                                    else (case the (run k) args ws' s of
                                            (st, s') \<Rightarrow> (st, ws', Some sys, reg', s')))
                           | None \<Rightarrow>
                               (case hbi_kernel_workspace_reserve pm (Some (hbi_kernel_workspace_init sys))
                                       need (of_nat HBI_TENSOR_DEFAULT_ALIGN) of
                                  (st, local) \<Rightarrow>
                                    if st \<noteq> HBI_OK
                                    then (st, None, fst (hbi_kernel_workspace_destroy local), reg', s)
                                    else (case the (run k) args local s of
                                            (st, s') \<Rightarrow>
                                              (st, None, fst (hbi_kernel_workspace_destroy local), reg', s'))))
                        else (case the (run k) args ws s of
                                (st, s') \<Rightarrow> (st, ws, Some sys, reg', s')))))"

section \<open>The registry contract\<close>








section \<open>Properties\<close>




lemma reserve_reuse:
  assumes "ws_allocator ws \<noteq> None" and "hbi_is_pow2 al" and "ws_buffer ws \<noteq> 0"
    and "b \<le> ws_capacity ws" and "ws_buffer ws mod al = 0"
  shows "hbi_kernel_workspace_reserve pm (Some ws) b al = (HBI_OK, Some ws)"
  using assms by (simp add: hbi_kernel_workspace_reserve_def)

lemma reserve_guard:
  "al \<noteq> 0 \<Longrightarrow> ws_allocator ws = None \<or> \<not> hbi_is_pow2 al \<Longrightarrow>
     hbi_kernel_workspace_reserve pm (Some ws) b al = (HBI_ERR_INVALID_ARG, Some ws)"
  by (cases "ws_allocator ws = None") (simp_all add: hbi_kernel_workspace_reserve_def)

lemma reserve_fresh:
  assumes "ws_allocator ws \<noteq> None" and "hbi_is_pow2 al" and "bytes \<noteq> 0" and "al \<noteq> 0"
    and "\<not> (ws_buffer ws \<noteq> 0 \<and> bytes \<le> ws_capacity ws \<and> ws_buffer ws mod al = 0)"
    and "hbi_alloc pm (ws_allocator ws) bytes al HBI_MEM_SCRATCH = (fresh, a)"
  shows "hbi_kernel_workspace_reserve pm (Some ws) bytes al =
    (if fresh = 0 then (HBI_ERR_OOM, Some (ws\<lparr>ws_allocator := a\<rparr>))
     else (HBI_OK, Some \<lparr>ws_allocator = (if ws_buffer ws \<noteq> 0 then hbi_free a (ws_buffer ws) else a),
                         ws_buffer = fresh, ws_capacity = bytes, ws_alignment = al\<rparr>))"
  using assms by (simp add: hbi_kernel_workspace_reserve_def Let_def) metis

lemma alloc_keeps_allocator:
  "a \<noteq> None \<Longrightarrow> snd (hbi_alloc pm a sz al tag) \<noteq> None" "a \<noteq> None \<Longrightarrow> hbi_free a p \<noteq> None"
  by (auto simp: hbi_alloc_def hbi_free_def split: option.splits hbi_allocator.splits prod.splits sum.splits)

text \<open>
  A reserved workspace keeps its promise and is then allocation free: after a successful
  \<open>hbi_kernel_workspace_reserve\<close> of a positive size the buffer is non-NULL, at least that large and
  aligned as requested, and every later request that is no larger, at the same alignment, succeeds
  without touching the workspace or its allocator.\<close>

lemma workspace_reserve_steady:
  assumes r: "hbi_kernel_workspace_reserve pm (Some ws) bytes al = (HBI_OK, Some ws')"
    and nz: "bytes \<noteq> 0" "al \<noteq> 0" and pm: "pm_ok pm"
  shows "ws_buffer ws' \<noteq> 0 \<and> bytes \<le> ws_capacity ws' \<and> unat al dvd unat (ws_buffer ws') \<and>
    (\<forall>b \<le> bytes. hbi_kernel_workspace_reserve pm (Some ws') b al = (HBI_OK, Some ws'))"
proof -
  have "\<not> (ws_allocator ws = None \<or> \<not> hbi_is_pow2 al)"
    using r reserve_guard [OF nz(2), of ws pm bytes] by (metis hbi_status.distinct(1) prod.inject)
  then have g: "ws_allocator ws \<noteq> None" "hbi_is_pow2 al" by simp_all
  have m: "p mod al = 0 \<longleftrightarrow> unat al dvd unat p" for p :: u64
    by (simp only: dvd_eq_mod_eq_0 unat_mod [symmetric] unat_eq_zero)
  have ws': "ws_buffer ws' \<noteq> 0 \<and> bytes \<le> ws_capacity ws' \<and> ws_buffer ws' mod al = 0 \<and> ws_allocator ws' \<noteq> None"
  proof (cases "ws_buffer ws \<noteq> 0 \<and> bytes \<le> ws_capacity ws \<and> ws_buffer ws mod al = 0")
    case True
    then have "ws' = ws" using r reserve_reuse [OF g, of bytes pm] by simp
    then show ?thesis using True g(1) by simp
  next
    case False
    obtain fresh a where al: "hbi_alloc pm (ws_allocator ws) bytes al HBI_MEM_SCRATCH = (fresh, a)" by fastforce
    have a: "a \<noteq> None" using alloc_keeps_allocator(1) [OF g(1), of pm bytes al HBI_MEM_SCRATCH] al by simp
    have f0: "fresh \<noteq> 0" using r unfolding reserve_fresh [OF g nz False al] by (auto split: if_splits)
    then have w: "ws' = \<lparr>ws_allocator = (if ws_buffer ws \<noteq> 0 then hbi_free a (ws_buffer ws) else a),
        ws_buffer = fresh, ws_capacity = bytes, ws_alignment = al\<rparr>"
      using r unfolding reserve_fresh [OF g nz False al] by simp
    have "unat al dvd unat fresh"
      using hbi_alloc_aligned [OF al f0 pm] nz(2) by (simp add: normalize_alignment_def)
    then have "fresh mod al = 0" using m [of fresh] by simp
    then show ?thesis using f0 a alloc_keeps_allocator(2) [OF a] by (simp add: w)
  qed
  have "hbi_kernel_workspace_reserve pm (Some ws') b al = (HBI_OK, Some ws')" if "b \<le> bytes" for b
    using ws' g(2) order_trans [OF that] by (intro reserve_reuse) simp_all
  moreover have "unat al dvd unat (ws_buffer ws')" using ws' m [of "ws_buffer ws'"] by simp
  ultimately show ?thesis using ws' by simp
qed

end
