(* ===== verification/Topo.thy ===== *)
theory Topo
  imports Hb_Prelude
begin

text \<open>
  Dependency orders, shared by the graph's topological sort and the scheduler: \<open>deps v\<close> lists what
  node \<open>v\<close> depends on, nodes are the numbers below \<open>n\<close>. \<open>topo_order\<close> is what both components
  promise their clients, and it exists only for graphs without a cycle.
\<close>

definition edges :: "nat \<Rightarrow> (nat \<Rightarrow> nat list) \<Rightarrow> (nat \<times> nat) set" where
  "edges n deps = {(v, w). v < n \<and> w \<in> set (deps v)}"

definition deps_wf :: "nat \<Rightarrow> (nat \<Rightarrow> nat list) \<Rightarrow> bool" where
  "deps_wf n deps \<longleftrightarrow> list_all (\<lambda>v. list_all (\<lambda>w. w < n) (deps v)) [0..<n]"

definition cyclic :: "nat \<Rightarrow> (nat \<Rightarrow> nat list) \<Rightarrow> bool" where
  "cyclic n deps \<longleftrightarrow> (\<exists>v. (v, v) \<in> (edges n deps)\<^sup>+)"

text \<open>Every entry of the list comes after everything it depends on.\<close>

definition closed_order :: "(nat \<Rightarrow> nat list) \<Rightarrow> nat list \<Rightarrow> bool" where
  "closed_order deps ord \<longleftrightarrow> (\<forall>i < length ord. set (deps (ord ! i)) \<subseteq> set (take i ord))"

definition topo_order :: "nat \<Rightarrow> (nat \<Rightarrow> nat list) \<Rightarrow> nat list \<Rightarrow> bool" where
  "topo_order n deps ord \<longleftrightarrow> distinct ord \<and> set ord = {..<n} \<and> closed_order deps ord"

lemma deps_wfD: "deps_wf n deps \<Longrightarrow> v < n \<Longrightarrow> w \<in> set (deps v) \<Longrightarrow> w < n"
  by (auto simp: deps_wf_def list_all_iff)

lemma closed_order_snoc:
  "closed_order deps (ord @ [v]) \<longleftrightarrow> closed_order deps ord \<and> set (deps v) \<subseteq> set ord"
proof
  assume h: "closed_order deps (ord @ [v])"
  have "closed_order deps ord"
    unfolding closed_order_def
  proof (intro allI impI)
    fix i assume "i < length ord"
    then show "set (deps (ord ! i)) \<subseteq> set (take i ord)"
      using h [unfolded closed_order_def, rule_format, of i] by (simp add: nth_append)
  qed
  moreover have "set (deps v) \<subseteq> set ord"
    using h [unfolded closed_order_def, rule_format, of "length ord"] by simp
  ultimately show "closed_order deps ord \<and> set (deps v) \<subseteq> set ord" ..
next
  assume h: "closed_order deps ord \<and> set (deps v) \<subseteq> set ord"
  show "closed_order deps (ord @ [v])"
    unfolding closed_order_def
  proof (intro allI impI)
    fix i assume "i < length (ord @ [v])"
    then show "set (deps ((ord @ [v]) ! i)) \<subseteq> set (take i (ord @ [v]))"
      using h by (cases "i = length ord") (auto simp: closed_order_def nth_append)
  qed
qed

lemma closed_order_Nil [simp]: "closed_order deps []"
  by (simp add: closed_order_def)

text \<open>Positions in a closed order decrease along the edges, so there is no cycle.\<close>

lemma closed_order_edge:
  assumes "closed_order deps ord" and "w \<in> set (deps (ord ! i))" and "i < length ord"
  shows "\<exists>j < i. ord ! j = w"
  using assms by (fastforce simp: closed_order_def in_set_conv_nth)

lemma topo_order_acyclic:
  assumes "topo_order n deps ord"
  shows "\<not> cyclic n deps"
proof
  assume "cyclic n deps"
  then obtain v where v: "(v, v) \<in> (edges n deps)\<^sup>+" by (auto simp: cyclic_def)
  have o: "distinct ord" "set ord = {..<n}" "closed_order deps ord" using assms by (auto simp: topo_order_def)
  have "\<exists>i j. i < length ord \<and> ord ! i = a \<and> j < i \<and> ord ! j = b" if "(a, b) \<in> (edges n deps)\<^sup>+" for a b
    using that
  proof (induction rule: trancl_induct)
    case (base b)
    then have "a \<in> set ord" using o(2) by (auto simp: edges_def)
    then obtain i where i: "i < length ord" "ord ! i = a" by (auto simp: in_set_conv_nth)
    moreover have "\<exists>j < i. ord ! j = b"
      using base i closed_order_edge [OF o(3)] by (auto simp: edges_def)
    ultimately show ?case by blast
  next
    case (step b c)
    then obtain i j where ij: "i < length ord" "ord ! i = a" "j < i" "ord ! j = b" by blast
    then obtain k where "k < j" "ord ! k = c"
      using step(2) closed_order_edge [OF o(3), of c j] by (auto simp: edges_def)
    then have "k < i" "ord ! k = c" using ij by simp_all
    then show ?case using ij(1,2) by blast
  qed
  from this [OF v] obtain i j where "i < length ord" "ord ! i = v" "j < i" "ord ! j = v" by blast
  then show False using nth_eq_iff_index_eq [OF o(1), of i j] by simp
qed

text \<open>A rank that decreases along the edges rules out cycles, and a set of nodes that each depend on
  a node of the set contains one.\<close>

lemma ranked_acyclic:
  assumes "\<And>v w. v < n \<Longrightarrow> w \<in> set (deps v) \<Longrightarrow> f w < (f v :: nat)"
  shows "\<not> cyclic n deps"
proof
  assume "cyclic n deps"
  then obtain v where v: "(v, v) \<in> (edges n deps)\<^sup>+" by (auto simp: cyclic_def)
  have "f b < f a" if "(a, b) \<in> (edges n deps)\<^sup>+" for a b
    using that by (induction rule: trancl_induct) (use assms in \<open>auto simp: edges_def intro: less_trans\<close>)
  from this [OF v] show False by simp
qed

lemma closed_set_cyclic:
  assumes "V \<subseteq> {..<n}" and "V \<noteq> {}" and "\<And>v. v \<in> V \<Longrightarrow> \<exists>w \<in> V. w \<in> set (deps v)"
  shows "cyclic n deps"
proof (rule ccontr)
  assume "\<not> cyclic n deps"
  then have a: "acyclic (edges n deps)" by (auto simp: cyclic_def acyclic_def)
  have "edges n deps \<subseteq> (\<Union>v<n. {v} \<times> set (deps v))" by (auto simp: edges_def)
  then have "finite (edges n deps)" by (rule finite_subset) auto
  then have "wf ((edges n deps)\<inverse>)" using a by (rule finite_acyclic_wf_converse)
  then obtain v where "v \<in> V" "\<And>w. (w, v) \<in> (edges n deps)\<inverse> \<Longrightarrow> w \<notin> V"
    using assms(2) by (metis wf_eq_minimal ex_in_conv)
  then show False using assms(1,3) by (auto simp: edges_def)
qed

end
