(* ===== verification/Graph.thy ===== *)
theory Graph
  imports Kernel Topo
begin

text \<open>
  The \<open>graph\<close> module (src/src/graph/graph.h, graph_internal.h, graph.c): the graph builder with
  shape inference, and \<open>hbi_graph_build\<close>, which sorts the nodes topologically by a recursive
  depth-first search with cycle detection.

  The builder's node and value tables are lists; the counters \<open>num_nodes\<close> and \<open>num_values\<close> are
  their lengths. A failing \<open>hbi_graph_add_node\<close> has already claimed a node slot, so it returns the
  changed builder next to the status; the bytes the slot held before (the tables are not cleared)
  are the parameter \<open>slot\<close>. The recursion of \<open>topo_visit\<close> takes fuel, with \<open>None\<close> for running out;
  \<open>num_nodes + 1\<close> is proved to be enough.
\<close>

section \<open>Data\<close>

definition UINT32_MAX :: nat where "UINT32_MAX = 4294967295"
definition HBI_GRAPH_NAME_MAX :: nat where "HBI_GRAPH_NAME_MAX = 64"
definition HBI_GRAPH_MAX_NODES :: nat where "HBI_GRAPH_MAX_NODES = 1024"
definition HBI_GRAPH_MAX_VALUES :: nat where "HBI_GRAPH_MAX_VALUES = 4096"

record hbi_value =
  v_id :: nat
  v_name :: string
  v_shape :: hbi_shape
  v_dtype :: hbi_dtype
  is_constant :: bool
  const_tensor :: "hbi_tensor ptr"
  producer_node_id :: nat

record hbi_node =
  n_id :: nat
  n_name :: string
  n_op :: hbi_kernel_op
  n_params :: hbi_kernel_params
  n_inputs :: "nat list"
  n_num_inputs :: nat
  n_outputs :: "nat list"
  n_num_outputs :: nat

record hbi_graph_builder =
  b_nodes :: "hbi_node list"
  b_values :: "hbi_value list"

record hbi_graph =
  g_nodes :: "hbi_node list"
  g_values :: "hbi_value list"
  execution_order :: "nat list"

definition hbi_graph_builder_create :: "bool \<Rightarrow> hbi_graph_builder outcome" where
  "hbi_graph_builder_create alloc_ok =
     (if \<not> alloc_ok then Inl HBI_ERR_OOM else Inr \<lparr>b_nodes = [], b_values = []\<rparr>)"

section \<open>Adding values\<close>

definition graph_name :: "string \<Rightarrow> string" where
  "graph_name s = take (HBI_GRAPH_NAME_MAX - 1) s"

definition add_value ::
  "hbi_graph_builder \<Rightarrow> string ptr \<Rightarrow> hbi_shape \<Rightarrow> hbi_dtype \<Rightarrow> bool \<Rightarrow> hbi_tensor ptr \<Rightarrow> nat \<Rightarrow>
     (nat \<times> hbi_graph_builder) outcome" where
  "add_value b name sh dt is_const ct producer =
     (if length (b_values b) \<ge> HBI_GRAPH_MAX_VALUES then Inl HBI_ERR_OOM
      else
        let i = length (b_values b);
            v = \<lparr>v_id = i,
                 v_name = graph_name (case name of Some s \<Rightarrow> s | None \<Rightarrow> CHR ''v'' # show_nat i),
                 v_shape = sh, v_dtype = dt, is_constant = is_const, const_tensor = ct,
                 producer_node_id = producer\<rparr>
        in Inr (i, b\<lparr>b_values := b_values b @ [v]\<rparr>))"

definition hbi_graph_add_input ::
  "hbi_graph_builder ptr \<Rightarrow> string ptr \<Rightarrow> hbi_shape ptr \<Rightarrow> hbi_dtype \<Rightarrow> (nat \<times> hbi_graph_builder) outcome" where
  "hbi_graph_add_input b name sh dt =
     (case (b, sh) of
        (Some b, Some sh) \<Rightarrow>
          if \<not> hbi_dtype_is_valid dt then Inl HBI_ERR_INVALID_ARG
          else add_value b name sh dt False None UINT32_MAX
      | _ \<Rightarrow> Inl HBI_ERR_INVALID_ARG)"

definition hbi_graph_add_constant ::
  "hbi_graph_builder ptr \<Rightarrow> string ptr \<Rightarrow> hbi_tensor ptr \<Rightarrow> (nat \<times> hbi_graph_builder) outcome" where
  "hbi_graph_add_constant b name t =
     (case (b, t) of
        (Some b, Some t) \<Rightarrow> add_value b name (shape t) (dtype t) True (Some t) UINT32_MAX
      | _ \<Rightarrow> Inl HBI_ERR_INVALID_ARG)"

section \<open>Adding nodes\<close>

definition shape_of_dims :: "int list \<Rightarrow> hbi_shape" where
  "shape_of_dims ds = \<lparr>rank = length ds, dims = ds @ replicate (HBI_TENSOR_MAX_RANK - length ds) 0\<rparr>"

definition infer_output_shape ::
  "hbi_kernel_op \<Rightarrow> hbi_kernel_params \<Rightarrow> hbi_value list \<Rightarrow> (hbi_shape \<times> hbi_dtype) outcome" where
  "infer_output_shape op ps ins =
     (let n = length ins in
      if op = HBI_KERNEL_OP_COPY \<or> op = HBI_KERNEL_OP_CAST then
        (if n \<noteq> 1 then Inl HBI_ERR_INVALID_ARG
         else Inr (v_shape (ins ! 0),
                   if op = HBI_KERNEL_OP_CAST then cast_target ps else v_dtype (ins ! 0)))
      else if op = HBI_KERNEL_OP_FILL then
        (if n \<noteq> 0 then Inl HBI_ERR_INVALID_ARG else Inr (shape_of_dims [1], HBI_DTYPE_FP32))
      else if op = HBI_KERNEL_OP_ELEMENTWISE then
        (if n \<noteq> 2 then Inl HBI_ERR_INVALID_ARG
         else rbind (hbi_shape_broadcast (Some (v_shape (ins ! 0))) (Some (v_shape (ins ! 1))))
           (\<lambda>s. Inr (s, v_dtype (ins ! 0))))
      else if op = HBI_KERNEL_OP_TRANSPOSE then
        (if n \<noteq> 1 then Inl HBI_ERR_INVALID_ARG
         else
           let s = v_shape (ins ! 0); a = axis_a ps; b = axis_b ps in
           if a \<ge> rank s \<or> b \<ge> rank s then Inl HBI_ERR_INVALID_ARG
           else Inr (s\<lparr>dims := swap_nth a b (dims s)\<rparr>, v_dtype (ins ! 0)))
      else if op = HBI_KERNEL_OP_MATMUL then
        (if n \<noteq> 2 then Inl HBI_ERR_INVALID_ARG
         else
           let sA = v_shape (ins ! 0); sB = v_shape (ins ! 1) in
           if rank sA \<noteq> 2 \<or> rank sB \<noteq> 2 then Inl HBI_ERR_INVALID_ARG
           else if dims sA ! 1 \<noteq> dims sB ! 0 then Inl HBI_ERR_INVALID_ARG
           else Inr (shape_of_dims [dims sA ! 0, dims sB ! 1], v_dtype (ins ! 0)))
      else Inl HBI_ERR_UNSUPPORTED)"

text \<open>
  The input loop stores the ids one by one and stops at the first id that is out of range; the
  flag says whether it ran to the end.
\<close>

fun node_inputs :: "hbi_graph_builder \<Rightarrow> nat list \<Rightarrow> nat \<Rightarrow> hbi_node \<Rightarrow> bool \<times> hbi_node" where
  "node_inputs b [] i n = (True, n)"
| "node_inputs b (v # vs) i n =
     (if v \<ge> length (b_values b) then (False, n)
      else node_inputs b vs (Suc i) (n\<lparr>n_inputs := (n_inputs n)[i := v]\<rparr>))"

text \<open>The output loop: \<open>k\<close> outputs are left, the next one has index \<open>i\<close>.\<close>

fun node_outputs ::
  "nat \<Rightarrow> nat \<Rightarrow> hbi_value list \<Rightarrow> hbi_node \<Rightarrow> hbi_graph_builder \<Rightarrow> nat list \<Rightarrow>
     hbi_status \<times> hbi_node \<times> hbi_graph_builder \<times> nat list" where
  "node_outputs 0 i ins n b outs = (HBI_OK, n, b, outs)"
| "node_outputs (Suc k) i ins n b outs =
     (case infer_output_shape (n_op n) (n_params n) ins of
        Inl st \<Rightarrow> (st, n, b, outs)
      | Inr (sh, dt) \<Rightarrow>
          (case add_value b (Some (graph_name (take 40 (n_name n) @ ''_out'' @ show_nat i))) sh dt
                  False None (n_id n) of
             Inl st \<Rightarrow> (st, n, b, outs)
           | Inr (v, b') \<Rightarrow>
               node_outputs k (Suc i) ins (n\<lparr>n_outputs := (n_outputs n)[i := v]\<rparr>) b' (outs @ [v])))"

definition hbi_graph_add_node ::
  "hbi_graph_builder ptr \<Rightarrow> hbi_node \<Rightarrow> string ptr \<Rightarrow> hbi_kernel_op \<Rightarrow> hbi_kernel_params ptr \<Rightarrow>
     nat list ptr \<Rightarrow> nat \<Rightarrow> nat \<Rightarrow> hbi_status \<times> hbi_graph_builder ptr \<times> nat list" where
  "hbi_graph_add_node b0 slot name op ps ins n_in n_out =
     (case b0 of
        None \<Rightarrow> (HBI_ERR_INVALID_ARG, None, [])
      | Some b \<Rightarrow>
          if n_in > 0 \<and> ins = None then (HBI_ERR_INVALID_ARG, b0, [])
          else if n_in > HBI_KERNEL_MAX_INPUTS \<or> n_out > HBI_KERNEL_MAX_OUTPUTS
          then (HBI_ERR_INVALID_ARG, b0, [])
          else if length (b_nodes b) \<ge> HBI_GRAPH_MAX_NODES then (HBI_ERR_OOM, b0, [])
          else
            let i = length (b_nodes b);
                xs = (case ins of None \<Rightarrow> [] | Some xs \<Rightarrow> take n_in xs);
                n1 = slot\<lparr>n_id := i,
                       n_name := graph_name (case name of Some s \<Rightarrow> s | None \<Rightarrow> CHR ''n'' # show_nat i),
                       n_op := op,
                       n_params := (case ps of Some p \<Rightarrow> p | None \<Rightarrow> zero_params),
                       n_num_inputs := n_in\<rparr>
            in case node_inputs b xs 0 n1 of
                 (False, n2) \<Rightarrow> (HBI_ERR_INVALID_ARG, Some (b\<lparr>b_nodes := b_nodes b @ [n2]\<rparr>), [])
               | (True, n2) \<Rightarrow>
                   (case node_outputs n_out 0 (map ((!) (b_values b)) xs) (n2\<lparr>n_num_outputs := n_out\<rparr>) b [] of
                      (st, n3, b', outs) \<Rightarrow> (st, Some (b'\<lparr>b_nodes := b_nodes b @ [n3]\<rparr>), outs)))"

section \<open>Topological sort\<close>

datatype color = White | Gray | Black

type_synonym topo_state = "color list \<times> nat list"

text \<open>The producers of a node's inputs, in order, without graph inputs and constants.\<close>

definition producers :: "hbi_graph_builder \<Rightarrow> nat \<Rightarrow> nat list" where
  "producers b v =
     (let n = b_nodes b ! v in
      filter (\<lambda>p. p \<noteq> UINT32_MAX)
        (map (\<lambda>x. producer_node_id (b_values b ! x)) (take (n_num_inputs n) (n_inputs n))))"

function (sequential) topo_visit ::
    "nat \<Rightarrow> hbi_graph_builder \<Rightarrow> nat \<Rightarrow> topo_state \<Rightarrow> (hbi_status \<times> topo_state) option"
  and topo_inputs ::
    "nat \<Rightarrow> hbi_graph_builder \<Rightarrow> nat list \<Rightarrow> topo_state \<Rightarrow> (hbi_status \<times> topo_state) option" where
  "topo_visit 0 b v s = None"
| "topo_visit (Suc f) b v (visited, order) =
     (if visited ! v = Gray then Some (HBI_ERR_STATE, visited, order)
      else if visited ! v = Black then Some (HBI_OK, visited, order)
      else case topo_inputs f b (producers b v) (visited[v := Gray], order) of
             None \<Rightarrow> None
           | Some (st, visited', order') \<Rightarrow>
               if st \<noteq> HBI_OK then Some (st, visited', order')
               else Some (HBI_OK, visited'[v := Black], order' @ [v]))"
| "topo_inputs f b [] s = Some (HBI_OK, s)"
| "topo_inputs f b (p # ps) s =
     (case topo_visit f b p s of
        None \<Rightarrow> None
      | Some (st, s') \<Rightarrow> if st \<noteq> HBI_OK then Some (st, s') else topo_inputs f b ps s')"
  by pat_completeness auto
termination
  by (relation "measures [\<lambda>x. case x of Inl (f, _) \<Rightarrow> f | Inr (f, _) \<Rightarrow> f,
        \<lambda>x. case x of Inl _ \<Rightarrow> 0 | Inr (_, _, ps, _) \<Rightarrow> Suc (length ps)]") auto

fun build_loop :: "nat \<Rightarrow> hbi_graph_builder \<Rightarrow> nat list \<Rightarrow> topo_state \<Rightarrow> (hbi_status \<times> topo_state) option" where
  "build_loop f b [] s = Some (HBI_OK, s)"
| "build_loop f b (i # is) s =
     (if fst s ! i = White then
        (case topo_visit f b i s of
           None \<Rightarrow> None
         | Some (st, s') \<Rightarrow> if st \<noteq> HBI_OK then Some (st, s') else build_loop f b is s')
      else build_loop f b is s)"

text \<open>
  \<open>hbi_graph_build\<close>; the three flags say whether the allocations of the work buffers and of the
  graph succeed. The outer \<open>None\<close> is running out of fuel.
\<close>

definition hbi_graph_build ::
  "bool \<Rightarrow> bool \<Rightarrow> hbi_graph_builder ptr \<Rightarrow> hbi_graph outcome option" where
  "hbi_graph_build bufs_ok graph_ok builder =
     (case builder of
        None \<Rightarrow> Some (Inl HBI_ERR_INVALID_ARG)
      | Some b \<Rightarrow>
          if \<not> bufs_ok then Some (Inl HBI_ERR_OOM)
          else
            let n = length (b_nodes b) in
            (case build_loop (n + 1) b [0..<n] (replicate n White, []) of
               None \<Rightarrow> None
             | Some (st, visited, order) \<Rightarrow>
                 if st \<noteq> HBI_OK then Some (Inl st)
                 else if \<not> graph_ok then Some (Inl HBI_ERR_OOM)
                 else Some (Inr \<lparr>g_nodes = b_nodes b, g_values = b_values b, execution_order = order\<rparr>)))"

definition hbi_graph_num_values :: "hbi_graph ptr \<Rightarrow> nat" where
  "hbi_graph_num_values g = (case g of None \<Rightarrow> 0 | Some g \<Rightarrow> length (g_values g))"

definition hbi_graph_num_nodes :: "hbi_graph ptr \<Rightarrow> nat" where
  "hbi_graph_num_nodes g = (case g of None \<Rightarrow> 0 | Some g \<Rightarrow> length (g_nodes g))"

definition hbi_graph_value_at :: "hbi_graph ptr \<Rightarrow> nat \<Rightarrow> hbi_value ptr" where
  "hbi_graph_value_at g i =
     (case g of None \<Rightarrow> None | Some g \<Rightarrow> if i \<ge> length (g_values g) then None else Some (g_values g ! i))"

definition hbi_graph_node_at :: "hbi_graph ptr \<Rightarrow> nat \<Rightarrow> hbi_node ptr" where
  "hbi_graph_node_at g i =
     (case g of None \<Rightarrow> None | Some g \<Rightarrow> if i \<ge> length (g_nodes g) then None else Some (g_nodes g ! i))"

definition hbi_graph_execution_order :: "hbi_graph ptr \<Rightarrow> nat list ptr" where
  "hbi_graph_execution_order g = map_option execution_order g"

section \<open>Correctness of the depth-first search\<close>

abbreviation nnodes :: "hbi_graph_builder \<Rightarrow> nat" where
  "nnodes b \<equiv> length (b_nodes b)"

definition nodes_of :: "color \<Rightarrow> topo_state \<Rightarrow> nat set" where
  "nodes_of c s = {v. v < length (fst s) \<and> fst s ! v = c}"

definition topo_inv :: "hbi_graph_builder \<Rightarrow> topo_state \<Rightarrow> bool" where
  "topo_inv b s \<longleftrightarrow> length (fst s) = nnodes b \<and> distinct (snd s) \<and> set (snd s) = nodes_of Black s \<and>
     closed_order (producers b) (snd s)"

text \<open>What a call that returned \<open>HBI_OK\<close> did to the state.\<close>

definition advances :: "hbi_graph_builder \<Rightarrow> topo_state \<Rightarrow> topo_state \<Rightarrow> nat set \<Rightarrow> bool" where
  "advances b s s' V \<longleftrightarrow> topo_inv b s' \<and> nodes_of Gray s' = nodes_of Gray s \<and>
     nodes_of White s' \<subseteq> nodes_of White s \<and> set (snd s) \<subseteq> set (snd s') \<and> V \<subseteq> set (snd s')"

definition below_stack :: "hbi_graph_builder \<Rightarrow> topo_state \<Rightarrow> nat \<Rightarrow> bool" where
  "below_stack b s v \<longleftrightarrow> v < nnodes b \<and> (\<forall>g \<in> nodes_of Gray s. (g, v) \<in> (edges (nnodes b) (producers b))\<^sup>+)"

definition topo_result :: "hbi_graph_builder \<Rightarrow> topo_state \<Rightarrow> nat set \<Rightarrow> (hbi_status \<times> topo_state) option \<Rightarrow> bool" where
  "topo_result b s V r \<longleftrightarrow> (\<exists>st s'. r = Some (st, s') \<and>
     (if st = HBI_OK then advances b s s' V
      else st = HBI_ERR_STATE \<and> cyclic (nnodes b) (producers b)))"

lemma topo_resultE:
  assumes "topo_result b s V r"
  obtains s' where "r = Some (HBI_OK, s')" and "advances b s s' V"
  | st s' where "r = Some (st, s')" and "st \<noteq> HBI_OK" and "st = HBI_ERR_STATE" and "cyclic (nnodes b) (producers b)"
  using assms by (auto simp: topo_result_def split: if_splits)

lemma finite_nodes_of [simp]: "finite (nodes_of c s)"
  by (rule finite_subset [of _ "{..<length (fst s)}"]) (auto simp: nodes_of_def)

lemma nodes_of_update:
  assumes "v < length vis"
  shows "nodes_of c (vis[v := c'], ord) = (if c = c' then insert v (nodes_of c (vis, ord)) else nodes_of c (vis, ord) - {v})"
  using assms by (auto simp: nodes_of_def nth_list_update split: if_splits)

lemma nodes_of_fst: "nodes_of c (vis, ord) = nodes_of c (vis, ord')"
  by (simp add: nodes_of_def)

lemma enter_node:
  assumes "topo_inv b (vis, ord)" and "below_stack b (vis, ord) v" and "vis ! v = White"
  shows "topo_inv b (vis[v := Gray], ord) \<and>
    card (nodes_of White (vis[v := Gray], ord)) < card (nodes_of White (vis, ord)) \<and>
    (\<forall>p \<in> set (producers b v). deps_wf (nnodes b) (producers b) \<longrightarrow> below_stack b (vis[v := Gray], ord) p)"
proof -
  have v: "v < length vis" "v < nnodes b" using assms(1,2) by (auto simp: topo_inv_def below_stack_def)
  have w: "v \<in> nodes_of White (vis, ord)" "v \<notin> nodes_of Black (vis, ord)"
    using v assms(3) by (auto simp: nodes_of_def)
  have "card (nodes_of White (vis, ord) - {v}) < card (nodes_of White (vis, ord))"
    using w(1) by (intro psubset_card_mono) auto
  moreover have "below_stack b (vis[v := Gray], ord) p"
    if p: "p \<in> set (producers b v)" and wf: "deps_wf (nnodes b) (producers b)" for p
  proof -
    have e: "(v, p) \<in> edges (nnodes b) (producers b)" using v p by (simp add: edges_def)
    then show ?thesis
      using assms(2) deps_wfD [OF wf v(2) p] v
      by (auto simp: below_stack_def nodes_of_update intro: trancl_into_trancl)
  qed
  ultimately show ?thesis
    using assms(1) w v by (auto simp: topo_inv_def nodes_of_update)
qed

lemma leave_node:
  assumes adv: "advances b (vis[v := Gray], ord) (vis', ord') (set (producers b v))"
    and v: "v < length vis" "vis ! v = White" and inv: "topo_inv b (vis, ord)"
  shows "advances b (vis, ord) (vis'[v := Black], ord' @ [v]) {v}"
proof -
  have l: "length vis' = nnodes b" "length vis = nnodes b" using adv inv by (auto simp: advances_def topo_inv_def)
  have g: "nodes_of Gray (vis', ord') = insert v (nodes_of Gray (vis, ord))"
    using adv v by (simp add: advances_def nodes_of_update)
  then have gv: "vis' ! v = Gray" by (auto simp: nodes_of_def)
  have vn: "v \<notin> set ord'" using adv gv by (auto simp: advances_def topo_inv_def nodes_of_def)
  have "nodes_of Black (vis'[v := Black], ord' @ [v]) = insert v (set ord')"
    using adv l v by (simp add: nodes_of_update advances_def topo_inv_def nodes_of_fst [of _ vis' "ord' @ [v]" ord'])
  moreover have "v \<notin> nodes_of Gray (vis, ord)" using v by (auto simp: nodes_of_def)
  then have "nodes_of Gray (vis'[v := Black], ord' @ [v]) = nodes_of Gray (vis, ord)"
    using g l v by (simp add: nodes_of_update nodes_of_fst [of _ vis' "ord' @ [v]" ord'])
  moreover have "nodes_of White (vis'[v := Black], ord' @ [v]) \<subseteq> nodes_of White (vis, ord)"
    using adv l v by (auto simp: nodes_of_update advances_def nodes_of_fst [of _ vis' "ord' @ [v]" ord'])
  ultimately show ?thesis
    using adv vn l by (auto simp: advances_def topo_inv_def closed_order_snoc)
qed

lemma advances_trans:
  "advances b s s' V \<Longrightarrow> advances b s' s'' W \<Longrightarrow> advances b s s'' (V \<union> W)"
  unfolding advances_def by blast

lemma advances_refl: "topo_inv b s \<Longrightarrow> V \<subseteq> set (snd s) \<Longrightarrow> advances b s s V"
  by (simp add: advances_def)

lemma topo_correct:
  "deps_wf (nnodes b) (producers b) \<Longrightarrow> topo_inv b s \<Longrightarrow> card (nodes_of White s) < f \<Longrightarrow>
     below_stack b s v \<Longrightarrow> topo_result b s {v} (topo_visit f b v s)"
  "deps_wf (nnodes b) (producers b) \<Longrightarrow> topo_inv b s \<Longrightarrow> card (nodes_of White s) < f \<Longrightarrow>
     \<forall>p \<in> set ps. below_stack b s p \<Longrightarrow> topo_result b s (set ps) (topo_inputs f b ps s)"
proof (induction f b v s and f b ps s rule: topo_visit_topo_inputs.induct)
  case (1 b v s)
  then show ?case by simp
next
  case (2 f b v visited order)
  have v: "v < length visited" using 2 by (auto simp: topo_inv_def below_stack_def)
  consider (gray) "visited ! v = Gray" | (black) "visited ! v = Black" | (white) "visited ! v = White"
    by (cases "visited ! v") auto
  then show ?case
  proof cases
    case gray
    then have "(v, v) \<in> (edges (nnodes b) (producers b))\<^sup>+"
      using 2 v by (auto simp: below_stack_def nodes_of_def)
    then show ?thesis using gray by (auto simp: topo_result_def cyclic_def)
  next
    case black
    then have "v \<in> set order" using 2 v by (auto simp: topo_inv_def nodes_of_def)
    then show ?thesis using black 2 advances_refl [of b "(visited, order)" "{v}"] by (simp add: topo_result_def)
  next
    case white
    note e = enter_node [OF 2(3,5) white]
    have "topo_result b (visited[v := Gray], order) (set (producers b v))
        (topo_inputs f b (producers b v) (visited[v := Gray], order))"
      using 2 white e by auto
    then show ?thesis
    proof (cases rule: topo_resultE)
      case (1 s')
      obtain vis' ord' where s': "s' = (vis', ord')" by fastforce
      have "advances b (visited, order) (vis'[v := Black], ord' @ [v]) {v}"
        using leave_node [OF _ v white 2(3)] 1 s' by simp
      then show ?thesis using 1 white s' by (simp add: topo_result_def)
    next
      case (2 st s')
      then show ?thesis using white by (cases s') (simp add: topo_result_def)
    qed
  qed
next
  case (3 f b s)
  then show ?case by (simp add: topo_result_def advances_refl)
next
  case (4 f b p ps s)
  have "topo_result b s {p} (topo_visit f b p s)" using 4 by simp
  then show ?case
  proof (cases rule: topo_resultE)
    case (1 s')
    have w: "card (nodes_of White s') < f"
      using 1(2) "4.prems"(3) card_mono [of "nodes_of White s" "nodes_of White s'"]
      by (simp add: advances_def)
    have "\<forall>q \<in> set ps. below_stack b s' q"
      using 1(2) "4.prems"(4) by (simp add: below_stack_def advances_def)
    then have "topo_result b s' (set ps) (topo_inputs f b ps s')"
      using 4 1 w by (auto simp: advances_def)
    then show ?thesis
    proof (cases rule: topo_resultE)
      case a: (1 s'')
      then show ?thesis using 1 advances_trans [OF 1(2) a(2)] by (simp add: topo_result_def)
    next
      case a: (2 st s'')
      then show ?thesis using 1 by (simp add: topo_result_def)
    qed
  next
    case (2 st s')
    then show ?thesis by (simp add: topo_result_def)
  qed
qed

lemma build_loop_correct:
  "deps_wf (nnodes b) (producers b) \<Longrightarrow> topo_inv b s \<Longrightarrow> card (nodes_of White s) < f \<Longrightarrow>
     nodes_of Gray s = {} \<Longrightarrow> \<forall>i \<in> set is. i < nnodes b \<Longrightarrow> topo_result b s (set is) (build_loop f b is s)"
proof (induction f b "is" s rule: build_loop.induct)
  case (1 f b s)
  then show ?case by (simp add: topo_result_def advances_refl)
next
  case (2 f b i "is" s)
  note prems = "2.prems"
  show ?case
  proof (cases "fst s ! i = White")
    case True
    have "topo_result b s {i} (topo_visit f b i s)"
      using prems by (intro topo_correct(1)) (auto simp: below_stack_def)
    then show ?thesis
    proof (cases rule: topo_resultE)
      case (1 s')
      have "card (nodes_of White s') < f"
        using 1(2) prems(3) card_mono [of "nodes_of White s" "nodes_of White s'"] by (simp add: advances_def)
      then have "topo_result b s' (set is) (build_loop f b is s')"
        using "2.IH"(1) [OF True 1(1) refl] prems 1(2) by (simp add: advances_def)
      then show ?thesis
      proof (cases rule: topo_resultE)
        case a: (1 s'')
        then show ?thesis using 1 True advances_trans [OF 1(2) a(2)] by (simp add: topo_result_def)
      next
        case a: (2 st s'')
        then show ?thesis using 1 True by (simp add: topo_result_def)
      qed
    next
      case (2 st s')
      then show ?thesis using True by (simp add: topo_result_def)
    qed
  next
    case False
    have i: "i < length (fst s)" using prems by (simp add: topo_inv_def)
    have "fst s ! i = Black" using False i prems(4) by (cases "fst s ! i") (auto simp: nodes_of_def)
    then have "i \<in> set (snd s)" using i prems(2) by (auto simp: topo_inv_def nodes_of_def)
    then have ai: "advances b s s {i}" using prems(2) by (simp add: advances_refl)
    have "topo_result b s (set is) (build_loop f b is s)"
      using "2.IH"(2) [OF False] prems by simp
    then show ?thesis
    proof (cases rule: topo_resultE)
      case (1 s')
      then show ?thesis using False advances_trans [OF ai 1(2)] by (simp add: topo_result_def)
    next
      case (2 st s')
      then show ?thesis using False by (simp add: topo_result_def)
    qed
  qed
qed

lemma build_correct:
  assumes wf: "deps_wf (nnodes b) (producers b)"
  shows "(\<exists>ord. hbi_graph_build True True (Some b)
        = Some (Inr \<lparr>g_nodes = b_nodes b, g_values = b_values b, execution_order = ord\<rparr>) \<and>
      topo_order (nnodes b) (producers b) ord) \<or>
    hbi_graph_build True True (Some b) = Some (Inl HBI_ERR_STATE) \<and> cyclic (nnodes b) (producers b)"
proof -
  let ?s = "(replicate (nnodes b) White, []) :: topo_state"
  have c: "nodes_of White ?s = {..<nnodes b}" "nodes_of Gray ?s = {}" "nodes_of Black ?s = {}"
    by (auto simp: nodes_of_def)
  have "topo_result b ?s (set [0..<nnodes b]) (build_loop (nnodes b + 1) b [0..<nnodes b] ?s)"
    using wf c by (intro build_loop_correct) (auto simp: topo_inv_def)
  then show ?thesis
  proof (cases rule: topo_resultE)
    case (1 s')
    obtain vis ord where s': "s' = (vis, ord)" by fastforce
    have "set ord = {..<nnodes b}"
      using 1(2) by (auto simp: s' advances_def topo_inv_def nodes_of_def)
    then have "topo_order (nnodes b) (producers b) ord"
      using 1(2) by (simp add: s' topo_order_def advances_def topo_inv_def)
    then show ?thesis using 1(1) by (simp add: hbi_graph_build_def s')
  next
    case (2 st s')
    then show ?thesis by (cases s') (simp add: hbi_graph_build_def)
  qed
qed

section \<open>Graphs made through the builder\<close>

definition node_ok :: "hbi_graph_builder \<Rightarrow> nat \<Rightarrow> bool" where
  "node_ok b v \<longleftrightarrow> (\<forall>x \<in> set (take (n_num_inputs (b_nodes b ! v)) (n_inputs (b_nodes b ! v))).
     x < length (b_values b) \<and>
     (producer_node_id (b_values b ! x) = UINT32_MAX \<or> producer_node_id (b_values b ! x) < v))"

definition builder_inv :: "hbi_graph_builder \<Rightarrow> bool" where
  "builder_inv b \<longleftrightarrow> (\<forall>v < nnodes b. node_ok b v) \<and>
     (\<forall>x \<in> set (b_values b). producer_node_id x = UINT32_MAX \<or> producer_node_id x < nnodes b)"

text \<open>Every builder made by successful calls only; \<open>slot\<close> has the arrays of the struct.\<close>

inductive builder_reach :: "hbi_graph_builder \<Rightarrow> bool" where
  create: "hbi_graph_builder_create True = Inr b \<Longrightarrow> builder_reach b"
| input: "builder_reach b \<Longrightarrow> hbi_graph_add_input (Some b) name sh dt = Inr (i, b') \<Longrightarrow> builder_reach b'"
| const: "builder_reach b \<Longrightarrow> hbi_graph_add_constant (Some b) name t = Inr (i, b') \<Longrightarrow> builder_reach b'"
| node: "builder_reach b \<Longrightarrow>
    length (n_inputs slot) = HBI_KERNEL_MAX_INPUTS \<and> length (n_outputs slot) = HBI_KERNEL_MAX_OUTPUTS \<Longrightarrow>
    \<forall>xs. ins = Some xs \<longrightarrow> k \<le> length xs \<Longrightarrow>
    hbi_graph_add_node (Some b) slot name op ps ins k m = (HBI_OK, Some b', outs) \<Longrightarrow> builder_reach b'"

lemma add_value_Inr:
  assumes "add_value b name sh dt c ct p = Inr (i, b')"
  obtains v where "b' = b\<lparr>b_values := b_values b @ [v]\<rparr>" and "producer_node_id v = p"
  using assms by (auto simp: add_value_def Let_def split: if_splits)

lemma node_ok_mono:
  assumes "node_ok b v" and "v < nnodes b" and "b_values b' = b_values b @ vs" and "b_nodes b' = b_nodes b @ ns"
  shows "node_ok b' v"
  using assms by (auto simp: node_ok_def nth_append)

lemma add_value_inv:
  assumes "builder_inv b" and a: "add_value b name sh dt c ct UINT32_MAX = Inr (i, b')"
  shows "builder_inv b'"
proof -
  obtain v where b': "b' = b\<lparr>b_values := b_values b @ [v]\<rparr>" "producer_node_id v = UINT32_MAX"
    using a by (rule add_value_Inr)
  then show ?thesis
    using assms(1) node_ok_mono [of b _ b' "[v]" "[]"] by (auto simp: builder_inv_def)
qed

lemma node_inputs_True:
  assumes "node_inputs b xs i n = (True, n')" and "i + length xs \<le> length (n_inputs n)"
  shows "n' = n\<lparr>n_inputs := take i (n_inputs n) @ xs @ drop (i + length xs) (n_inputs n)\<rparr> \<and>
    (\<forall>x \<in> set xs. x < length (b_values b))"
  using assms
proof (induction b xs i n rule: node_inputs.induct)
  case (2 b v vs i n)
  have "n' = n\<lparr>n_inputs := take (Suc i) ((n_inputs n)[i := v]) @ vs @ drop (Suc i + length vs) ((n_inputs n)[i := v])\<rparr> \<and>
      (\<forall>x \<in> set vs. x < length (b_values b))" and "v < length (b_values b)"
    using 2 by (auto split: if_splits)
  moreover have "take (Suc i) ((n_inputs n)[i := v]) = take i (n_inputs n) @ [v]"
    using 2(3) by (simp add: take_Suc_conv_app_nth)
  ultimately show ?case by (simp add: drop_update_cancel)
qed simp

lemma infer_not_OK: "infer_output_shape op ps ins \<noteq> Inl HBI_OK"
  by (auto simp: infer_output_shape_def Let_def rbind_eq_Inl hbi_shape_broadcast_def)

lemma node_outputs_OK:
  assumes "node_outputs k i ins n b outs = (HBI_OK, n', b', outs')"
  shows "b_nodes b' = b_nodes b \<and> (\<exists>vs. b_values b' = b_values b @ vs \<and> (\<forall>v \<in> set vs. producer_node_id v = n_id n)) \<and>
    n_inputs n' = n_inputs n \<and> n_num_inputs n' = n_num_inputs n"
  using assms
proof (induction k i ins n b outs rule: node_outputs.induct)
  case (2 k i ins n b outs)
  obtain sh dt where i: "infer_output_shape (n_op n) (n_params n) ins = Inr (sh, dt)"
    using "2.prems" infer_not_OK [of "n_op n" "n_params n" ins]
    by (cases "infer_output_shape (n_op n) (n_params n) ins") auto
  obtain v b1 where a: "add_value b (Some (graph_name (take 40 (n_name n) @ ''_out'' @ show_nat i))) sh dt
      False None (n_id n) = Inr (v, b1)"
    using "2.prems" i by (auto simp: add_value_def Let_def split: if_splits)
  have o: "node_outputs k (Suc i) ins (n\<lparr>n_outputs := (n_outputs n)[i := v]\<rparr>) b1 (outs @ [v])
      = (HBI_OK, n', b', outs')"
    using "2.prems" i a by simp
  obtain w where "b1 = b\<lparr>b_values := b_values b @ [w]\<rparr>" "producer_node_id w = n_id n"
    using a by (rule add_value_Inr)
  then show ?case using "2.IH" [OF i refl a refl o] by auto
qed simp

lemma add_node_OK:
  assumes "hbi_graph_add_node (Some b) slot name op ps ins k m = (HBI_OK, Some b', outs)"
    and "length (n_inputs slot) = HBI_KERNEL_MAX_INPUTS" and "\<forall>xs. ins = Some xs \<longrightarrow> k \<le> length xs"
  obtains n vs xs where "b_nodes b' = b_nodes b @ [n]" and "b_values b' = b_values b @ vs"
    and "\<forall>v \<in> set vs. producer_node_id v = nnodes b"
    and "take (n_num_inputs n) (n_inputs n) = xs" and "\<forall>x \<in> set xs. x < length (b_values b)"
proof -
  let ?xs = "case ins of None \<Rightarrow> [] | Some xs \<Rightarrow> take k xs"
  let ?n1 = "slot\<lparr>n_id := nnodes b,
       n_name := graph_name (case name of Some s \<Rightarrow> s | None \<Rightarrow> CHR ''n'' # show_nat (nnodes b)),
       n_op := op, n_params := (case ps of Some p \<Rightarrow> p | None \<Rightarrow> zero_params), n_num_inputs := k\<rparr>"
  have g: "\<not> (k > 0 \<and> ins = None)" "k \<le> HBI_KERNEL_MAX_INPUTS" "m \<le> HBI_KERNEL_MAX_OUTPUTS"
    "nnodes b < HBI_GRAPH_MAX_NODES"
    using assms(1) by (auto simp: hbi_graph_add_node_def split: if_splits)
  obtain ok n2 where ni: "node_inputs b ?xs 0 ?n1 = (ok, n2)" by fastforce
  have ok: ok
    using assms(1) g ni by (cases ok) (auto simp: hbi_graph_add_node_def Let_def split: if_splits)
  obtain st n3 b1 os where no: "node_outputs m 0 (map ((!) (b_values b)) ?xs) (n2\<lparr>n_num_outputs := m\<rparr>) b []
      = (st, n3, b1, os)" by (metis prod_cases4)
  have st: "st = HBI_OK" and b': "b' = b1\<lparr>b_nodes := b_nodes b @ [n3]\<rparr>"
    using assms(1) g ni ok no by (auto simp: hbi_graph_add_node_def Let_def)
  have lx: "length ?xs = k" using g(1) assms(3) by (auto split: option.splits)
  then have "0 + length ?xs \<le> length (n_inputs ?n1)" using g assms(2) by simp
  note N = node_inputs_True [OF ni [unfolded eq_True [THEN iffD2, OF ok]] this]
  note O = node_outputs_OK [OF no [unfolded st]]
  have i: "n_inputs n3 = ?xs @ drop k (n_inputs slot)" "n_num_inputs n3 = k" using N O lx by simp_all
  have "take (n_num_inputs n3) (n_inputs n3) = ?xs" unfolding i using lx by simp
  moreover obtain vs where "b_values b1 = b_values b @ vs" "\<forall>v \<in> set vs. producer_node_id v = nnodes b"
    using O N by auto
  ultimately show thesis using that [of n3 vs ?xs] N b' by simp
qed

lemma builder_reach_inv: "builder_reach b \<Longrightarrow> builder_inv b"
proof (induction rule: builder_reach.induct)
  case (create b)
  then show ?case by (auto simp: hbi_graph_builder_create_def builder_inv_def)
next
  case (input b name sh dt i b')
  then show ?case
    using add_value_inv by (auto simp: hbi_graph_add_input_def split: option.splits if_splits)
next
  case (const b name t i b')
  then show ?case
    using add_value_inv by (auto simp: hbi_graph_add_constant_def split: option.splits)
next
  case (node b slot name op ps ins k m b' outs)
  obtain n vs xs where b': "b_nodes b' = b_nodes b @ [n]" "b_values b' = b_values b @ vs"
    "\<forall>v \<in> set vs. producer_node_id v = nnodes b"
    "take (n_num_inputs n) (n_inputs n) = xs" "\<forall>x \<in> set xs. x < length (b_values b)"
    using node(4) node(2) [THEN conjunct1] node(3) by (rule add_node_OK)
  have "node_ok b' (nnodes b)"
    using b' node(5) by (auto simp: node_ok_def nth_append builder_inv_def)
  moreover have "node_ok b' v" if "v < nnodes b" for v
    using node_ok_mono [OF _ that b'(2,1)] node(5) that by (simp add: builder_inv_def)
  ultimately show ?case
    using node(5) b'(1-3) by (auto simp: builder_inv_def less_Suc_eq)
qed

lemma builder_inv_deps:
  assumes "builder_inv b" and "v < nnodes b" and "w \<in> set (producers b v)"
  shows "w < v"
  using assms by (fastforce simp: builder_inv_def producers_def node_ok_def Let_def)

text \<open>
  Every value is an input or constant of the graph, or an output of exactly the node it names as
  its producer.
\<close>

definition node_outs :: "hbi_node \<Rightarrow> nat list" where
  "node_outs n = take (n_num_outputs n) (n_outputs n)"

definition writers_ok :: "hbi_node list \<Rightarrow> hbi_value list \<Rightarrow> bool" where
  "writers_ok ns vs \<longleftrightarrow> length ns \<le> HBI_GRAPH_MAX_NODES \<and>
     (\<forall>v < length ns. distinct (node_outs (ns ! v)) \<and>
        (\<forall>x \<in> set (node_outs (ns ! v)). x < length vs \<and> producer_node_id (vs ! x) = v)) \<and>
     (\<forall>x < length vs. producer_node_id (vs ! x) \<noteq> UINT32_MAX \<longrightarrow> \<not> is_constant (vs ! x) \<and>
        producer_node_id (vs ! x) < length ns \<and> x \<in> set (node_outs (ns ! producer_node_id (vs ! x)))) \<and>
     (\<forall>x < length vs. is_constant (vs ! x) \<longrightarrow> const_tensor (vs ! x) \<noteq> None)"

lemma node_outputs_ids:
  assumes "node_outputs k i ins n b outs = (HBI_OK, n', b', outs')" and "i + k \<le> length (n_outputs n)"
  shows "n_num_outputs n' = n_num_outputs n \<and>
    n_outputs n' = take i (n_outputs n) @ [length (b_values b)..<length (b_values b) + k] @ drop (i + k) (n_outputs n) \<and>
    (\<exists>vs. b_values b' = b_values b @ vs \<and> length vs = k \<and>
      (\<forall>v \<in> set vs. producer_node_id v = n_id n \<and> \<not> is_constant v))"
  using assms
proof (induction k i ins n b outs rule: node_outputs.induct)
  case (2 k i ins n b outs)
  obtain sh dt where i: "infer_output_shape (n_op n) (n_params n) ins = Inr (sh, dt)"
    using "2.prems"(1) infer_not_OK [of "n_op n" "n_params n" ins]
    by (cases "infer_output_shape (n_op n) (n_params n) ins") auto
  obtain v b1 where a: "add_value b (Some (graph_name (take 40 (n_name n) @ ''_out'' @ show_nat i))) sh dt
      False None (n_id n) = Inr (v, b1)"
    using "2.prems"(1) i by (auto simp: add_value_def Let_def split: if_splits)
  have o: "node_outputs k (Suc i) ins (n\<lparr>n_outputs := (n_outputs n)[i := v]\<rparr>) b1 (outs @ [v])
      = (HBI_OK, n', b', outs')"
    using "2.prems"(1) i a by simp
  obtain w where w: "b1 = b\<lparr>b_values := b_values b @ [w]\<rparr>" "producer_node_id w = n_id n" "\<not> is_constant w"
    and v: "v = length (b_values b)"
    using a by (auto simp: add_value_def Let_def split: if_splits)
  have t: "take (Suc i) ((n_outputs n)[i := v]) = take i (n_outputs n) @ [v]"
    "drop (Suc i + k) ((n_outputs n)[i := v]) = drop (Suc i + k) (n_outputs n)"
    using "2.prems"(2) by (simp_all add: take_Suc_conv_app_nth drop_update_cancel)
  have u: "[length (b_values b)..<length (b_values b) + Suc k] =
      length (b_values b) # [Suc (length (b_values b))..<Suc (length (b_values b)) + k]"
    by (simp add: upt_conv_Cons)
  have "Suc i + k \<le> length (n_outputs (n\<lparr>n_outputs := (n_outputs n)[i := v]\<rparr>))" using "2.prems"(2) by simp
  from "2.IH" [OF i refl a refl o this] obtain vs where
    "n_num_outputs n' = n_num_outputs n"
    "n_outputs n' = take i (n_outputs n) @ [v] @ [Suc v..<Suc v + k] @ drop (Suc i + k) (n_outputs n)"
    "b_values b' = b_values b @ w # vs" "length vs = k"
    "\<forall>v \<in> set vs. producer_node_id v = n_id n \<and> \<not> is_constant v"
    using t by (auto simp: w(1) v simp del: upt_Suc)
  then show ?case using w(2,3) u v by (auto simp del: upt_Suc)
qed simp

lemma add_node_outs:
  assumes "hbi_graph_add_node (Some b) slot name op ps ins k m = (HBI_OK, Some b', outs)"
    and "length (n_inputs slot) = HBI_KERNEL_MAX_INPUTS \<and> length (n_outputs slot) = HBI_KERNEL_MAX_OUTPUTS"
    and "\<forall>xs. ins = Some xs \<longrightarrow> k \<le> length xs"
  obtains n vs where "b_nodes b' = b_nodes b @ [n]" and "b_values b' = b_values b @ vs" and "nnodes b < HBI_GRAPH_MAX_NODES"
    and "\<forall>v \<in> set vs. producer_node_id v = nnodes b \<and> \<not> is_constant v"
    and "node_outs n = [length (b_values b)..<length (b_values b) + length vs]"
proof -
  let ?xs = "case ins of None \<Rightarrow> [] | Some xs \<Rightarrow> take k xs"
  let ?n1 = "slot\<lparr>n_id := nnodes b,
       n_name := graph_name (case name of Some s \<Rightarrow> s | None \<Rightarrow> CHR ''n'' # show_nat (nnodes b)),
       n_op := op, n_params := (case ps of Some p \<Rightarrow> p | None \<Rightarrow> zero_params), n_num_inputs := k\<rparr>"
  have g: "\<not> (k > 0 \<and> ins = None)" "k \<le> HBI_KERNEL_MAX_INPUTS" "m \<le> HBI_KERNEL_MAX_OUTPUTS"
    "nnodes b < HBI_GRAPH_MAX_NODES"
    using assms(1) by (auto simp: hbi_graph_add_node_def split: if_splits)
  obtain ok n2 where ni: "node_inputs b ?xs 0 ?n1 = (ok, n2)" by fastforce
  have ok: ok
    using assms(1) g ni by (cases ok) (auto simp: hbi_graph_add_node_def Let_def split: if_splits)
  obtain st n3 b1 os where no: "node_outputs m 0 (map ((!) (b_values b)) ?xs) (n2\<lparr>n_num_outputs := m\<rparr>) b []
      = (st, n3, b1, os)" by (metis prod_cases4)
  have st: "st = HBI_OK" and b': "b' = b1\<lparr>b_nodes := b_nodes b @ [n3]\<rparr>"
    using assms(1) g ni ok no by (auto simp: hbi_graph_add_node_def Let_def)
  have lx: "length ?xs = k" using g(1) assms(3) by (auto split: option.splits)
  then have "0 + length ?xs \<le> length (n_inputs ?n1)" using g assms(2) by simp
  note N = node_inputs_True [OF ni [unfolded eq_True [THEN iffD2, OF ok]] this]
  have l: "0 + m \<le> length (n_outputs (n2\<lparr>n_num_outputs := m\<rparr>))" using N assms(2) g(3) by simp
  from node_outputs_ids [OF no [unfolded st] l] obtain vs where
    "n_num_outputs n3 = m" "n_outputs n3 = [length (b_values b)..<length (b_values b) + m] @ drop m (n_outputs n2)"
    "b_values b1 = b_values b @ vs" "length vs = m"
    "\<forall>v \<in> set vs. producer_node_id v = nnodes b \<and> \<not> is_constant v"
    using N by auto
  then show thesis using that [of n3 vs] b' g(4) by (simp add: node_outs_def)
qed

lemma writers_add_value:
  assumes "writers_ok ns vs" and "producer_node_id v = UINT32_MAX" and "is_constant v \<longrightarrow> const_tensor v \<noteq> None"
  shows "writers_ok ns (vs @ [v])"
  using assms unfolding writers_ok_def by (auto simp: nth_append less_Suc_eq)

lemma writers_add_node:
  assumes "writers_ok ns vs" and "length ns < HBI_GRAPH_MAX_NODES"
    and "\<forall>v \<in> set ws. producer_node_id v = length ns \<and> \<not> is_constant v"
    and "node_outs n = [length vs..<length vs + length ws]"
  shows "writers_ok (ns @ [n]) (vs @ ws)"
  unfolding writers_ok_def
proof (intro conjI allI impI ballI)
  show "length (ns @ [n]) \<le> HBI_GRAPH_MAX_NODES" using assms(2) by simp
next
  fix v assume "v < length (ns @ [n])"
  then have v: "v < length ns \<or> v = length ns" by auto
  show "distinct (node_outs ((ns @ [n]) ! v))"
    using v assms(1,4) by (auto simp: writers_ok_def nth_append)
  fix x assume x: "x \<in> set (node_outs ((ns @ [n]) ! v))"
  have "x < length (vs @ ws) \<and> producer_node_id ((vs @ ws) ! x) = v"
  proof (cases "v = length ns")
    case False
    then have "x < length vs" "producer_node_id (vs ! x) = v"
      using v x assms(1) by (auto simp: writers_ok_def nth_append)
    then show ?thesis by (simp add: nth_append)
  qed (use x assms(3,4) in \<open>auto simp: nth_append\<close>)
  then show "x < length (vs @ ws)" "producer_node_id ((vs @ ws) ! x) = v" by simp_all
next
  fix x assume x: "x < length (vs @ ws)" "producer_node_id ((vs @ ws) ! x) \<noteq> UINT32_MAX"
  have "\<not> is_constant ((vs @ ws) ! x) \<and> producer_node_id ((vs @ ws) ! x) < length (ns @ [n]) \<and>
    x \<in> set (node_outs ((ns @ [n]) ! producer_node_id ((vs @ ws) ! x)))"
  proof (cases "x < length vs")
    case True
    then have "\<not> is_constant (vs ! x) \<and> producer_node_id (vs ! x) < length ns \<and>
        x \<in> set (node_outs (ns ! producer_node_id (vs ! x)))"
      using x(2) assms(1) by (simp add: writers_ok_def nth_append)
    then show ?thesis using True by (simp add: nth_append)
  next
    case False
    then have w: "(vs @ ws) ! x = ws ! (x - length vs)" "ws ! (x - length vs) \<in> set ws"
      using x(1) by (auto simp: nth_append)
    then show ?thesis using assms(3,4) False x(1) by simp
  qed
  then show "\<not> is_constant ((vs @ ws) ! x)" "producer_node_id ((vs @ ws) ! x) < length (ns @ [n])"
    "x \<in> set (node_outs ((ns @ [n]) ! producer_node_id ((vs @ ws) ! x)))" by simp_all
next
  fix x assume x: "x < length (vs @ ws)" "is_constant ((vs @ ws) ! x)"
  then have "x < length vs" using assms(3) by (cases "x < length vs") (auto simp: nth_append)
  then show "const_tensor ((vs @ ws) ! x) \<noteq> None"
    using assms(1) x(2) by (simp add: writers_ok_def nth_append)
qed

lemma builder_reach_writers: "builder_reach b \<Longrightarrow> writers_ok (b_nodes b) (b_values b)"
proof (induction rule: builder_reach.induct)
  case (create b)
  then show ?case by (auto simp: hbi_graph_builder_create_def writers_ok_def)
next
  case (input b name sh dt i b')
  then show ?case using writers_add_value [OF input(3)]
    by (auto simp: hbi_graph_add_input_def add_value_def Let_def split: option.splits if_splits)
next
  case (const b name t i b')
  then show ?case using writers_add_value [OF const(3)]
    by (auto simp: hbi_graph_add_constant_def add_value_def Let_def split: option.splits if_splits)
next
  case (node b slot name op ps ins k m b' outs)
  obtain n vs where "b_nodes b' = b_nodes b @ [n]" "b_values b' = b_values b @ vs" "nnodes b < HBI_GRAPH_MAX_NODES"
    "\<forall>v \<in> set vs. producer_node_id v = nnodes b \<and> \<not> is_constant v"
    "node_outs n = [length (b_values b)..<length (b_values b) + length vs]"
    using node(4,2,3) by (rule add_node_outs)
  then show ?case using writers_add_node [OF node(5)] by simp
qed

section \<open>Properties\<close>

text \<open>
  C6. \<open>hbi_graph_build\<close> on any builder whose nodes refer to existing nodes terminates within
  \<open>num_nodes + 1\<close> nested visits and is exact: it succeeds with an execution order that lists every
  node once and after all producers of its inputs when the graph has no cycle, and reports
  \<open>HBI_ERR_STATE\<close> when it has one.\<close>

theorem graph_build_exact:
  assumes "deps_wf (length (b_nodes b)) (producers b)"
  shows "if cyclic (length (b_nodes b)) (producers b)
    then hbi_graph_build True True (Some b) = Some (Inl HBI_ERR_STATE)
    else \<exists>g. hbi_graph_build True True (Some b) = Some (Inr g) \<and>
           g_nodes g = b_nodes b \<and> g_values g = b_values b \<and>
           topo_order (length (b_nodes b)) (producers b) (execution_order g)"
  using build_correct [OF assms] topo_order_acyclic by fastforce

definition demo_slot :: hbi_node where
  "demo_slot = \<lparr>n_id = 7, n_name = ''junk'', n_op = HBI_KERNEL_OP_INVALID, n_params = zero_params,
     n_inputs = replicate 8 0, n_num_inputs = 0, n_outputs = replicate 2 0, n_num_outputs = 0\<rparr>"

definition demo_value :: "nat \<Rightarrow> hbi_value" where
  "demo_value p = \<lparr>v_id = 0, v_name = ''v'', v_shape = shape_of_dims [1], v_dtype = HBI_DTYPE_FP32,
     is_constant = False, const_tensor = None, producer_node_id = p\<rparr>"

text \<open>Node 0 consumes what node 1 produces.\<close>

definition demo_builder :: hbi_graph_builder where
  "demo_builder = \<lparr>b_nodes = [demo_slot\<lparr>n_num_inputs := 1\<rparr>, demo_slot], b_values = [demo_value 1]\<rparr>"

theorem graph_build_exact_witness:
  "\<exists>g. hbi_graph_build True True (Some demo_builder) = Some (Inr g) \<and>
     topo_order 2 (producers demo_builder) (execution_order g)"
proof -
  have d: "producers demo_builder 0 = [1]" "producers demo_builder (Suc 0) = []"
      "length (b_nodes demo_builder) = 2"
    by (simp_all add: producers_def demo_builder_def demo_slot_def demo_value_def UINT32_MAX_def)
  have wf: "deps_wf (length (b_nodes demo_builder)) (producers demo_builder)"
    using d by (simp add: deps_wf_def numeral_2_eq_2 less_Suc_eq)
  have "topo_order 2 (producers demo_builder) [1, 0]"
    using d by (auto simp: topo_order_def closed_order_def nth_Cons' numeral_2_eq_2 less_Suc_eq)
  from topo_order_acyclic [OF this] show ?thesis using graph_build_exact [OF wf] d by auto
qed

text \<open>
  A graph assembled through the builder interface always builds: after any sequence of
  successful \<open>add_input\<close>, \<open>add_constant\<close> and \<open>add_node\<close> calls, \<open>hbi_graph_build\<close> returns a graph
  whose execution order is topological; the cycle error cannot occur.\<close>

lemma builder_always_builds:
  assumes "builder_reach b"
  shows "\<exists>g. hbi_graph_build True True (Some b) = Some (Inr g) \<and>
    topo_order (length (b_nodes b)) (producers b) (execution_order g)"
proof -
  have inv: "builder_inv b" using assms by (rule builder_reach_inv)
  have "deps_wf (nnodes b) (producers b)"
    using builder_inv_deps [OF inv] by (fastforce simp: deps_wf_def list_all_iff intro: less_trans)
  moreover have "\<not> cyclic (nnodes b) (producers b)"
    using builder_inv_deps [OF inv] by (rule ranked_acyclic)
  ultimately show ?thesis using build_correct by fastforce
qed

end
