(* ===== verification/Fifo.thy ===== *)
theory Fifo
  imports Hb_Prelude
begin

text \<open>
  The contract of a bounded first-in-first-out queue, as the scheduler's ring buffer of ready tasks
  offers it, and the facts about indices into a ring that its queue and the thread pool's share: \<open>contents\<close> is the abstraction to a list, \<open>wf\<close> the representation invariant. A push
  into a full queue is dropped. The client's lemmas, pushing and popping whole lists, are proved
  here once.
\<close>

locale fifo =
  fixes push :: "'q \<Rightarrow> 'a \<Rightarrow> 'q"
    and pop :: "'q \<Rightarrow> 'a \<times> 'q"
    and size_of :: "'q \<Rightarrow> nat"
    and capacity_of :: "'q \<Rightarrow> nat"
    and contents :: "'q \<Rightarrow> 'a list"
    and wf :: "'q \<Rightarrow> bool"
  assumes size_contents: "wf q \<Longrightarrow> size_of q = length (contents q)"
    and bounded: "wf q \<Longrightarrow> length (contents q) \<le> capacity_of q"
    and push_room: "wf q \<Longrightarrow> length (contents q) < capacity_of q \<Longrightarrow>
      wf (push q x) \<and> contents (push q x) = contents q @ [x] \<and> capacity_of (push q x) = capacity_of q"
    and push_full: "wf q \<Longrightarrow> length (contents q) = capacity_of q \<Longrightarrow> push q x = q"
    and pop_front: "wf q \<Longrightarrow> contents q = x # xs \<Longrightarrow>
      \<exists>q'. pop q = (x, q') \<and> wf q' \<and> contents q' = xs \<and> capacity_of q' = capacity_of q"
begin

definition push_all :: "'a list \<Rightarrow> 'q \<Rightarrow> 'q" where
  "push_all xs q = foldl push q xs"

definition holds :: "nat \<Rightarrow> 'a list \<Rightarrow> 'q \<Rightarrow> bool" where
  "holds cap xs q \<longleftrightarrow> wf q \<and> contents q = xs \<and> capacity_of q = cap"

lemma holds_size: "holds cap xs q \<Longrightarrow> size_of q = length xs"
  by (auto simp: holds_def size_contents)

lemma holds_push: "holds cap xs q \<Longrightarrow> length xs < cap \<Longrightarrow> holds cap (xs @ [x]) (push q x)"
  by (auto simp: holds_def push_room)

lemma holds_pop: "holds cap (x # xs) q \<Longrightarrow> \<exists>q'. pop q = (x, q') \<and> holds cap xs q'"
  using pop_front by (fastforce simp: holds_def)

lemma push_all_room:
  assumes "holds cap xs q" and "length xs + length ys \<le> cap"
  shows "holds cap (xs @ ys) (push_all ys q)"
  using assms
proof (induction ys arbitrary: xs q)
  case Nil
  then show ?case by (simp add: push_all_def)
next
  case (Cons y ys)
  then have "holds cap (xs @ [y]) (push q y)" by (intro holds_push) auto
  then show ?case using Cons.IH [of "xs @ [y]" "push q y"] Cons.prems(2) by (simp add: push_all_def)
qed

end

section \<open>Ring buffers\<close>

text \<open>The \<open>c\<close> elements of the ring \<open>a\<close> that start at index \<open>h\<close>.\<close>

definition slots :: "'a list \<Rightarrow> nat \<Rightarrow> nat \<Rightarrow> 'a list" where
  "slots a h c = map (\<lambda>i. a ! ((h + i) mod length a)) [0..<c]"

lemma length_slots [simp]: "length (slots a h c) = c"
  by (simp add: slots_def)

lemma slots_0 [simp]: "slots a h 0 = []"
  by (simp add: slots_def)

lemma slots_Suc: "slots a h (Suc c) = a ! (h mod length a) # slots a ((h + 1) mod length a) c"
proof -
  have "[0..<Suc c] = 0 # map Suc [0..<c]" by (simp add: map_Suc_upt upt_conv_Cons del: upt_Suc)
  moreover have "((h + 1) mod length a + i) mod length a = (h + Suc i) mod length a" for i
    by (simp add: mod_simps)
  ultimately show ?thesis by (simp add: slots_def comp_def del: upt_Suc)
qed

lemma ring_index_distinct:
  fixes h i c n :: nat
  assumes "i < c" and "c < n"
  shows "(h + i) mod n \<noteq> (h + c) mod n"
proof
  assume "(h + i) mod n = (h + c) mod n"
  then have "(h + c) mod n = (h + i) mod n" by (rule sym)
  then have "n dvd (h + c) - (h + i)"
    using assms mod_eq_dvd_iff_nat [of "h + i" "h + c" n] by linarith
  then have "n dvd c - i" by simp
  then show False using assms by (auto dest: dvd_imp_le)
qed

lemma slots_push:
  assumes "c < length a"
  shows "slots (a[(h + c) mod length a := x]) h (Suc c) = slots a h c @ [x]"
proof -
  have "(h + c) mod length a < length a" using assms by (intro mod_less_divisor) linarith
  moreover have "(h + c) mod length a \<noteq> (h + i) mod length a" if "i < c" for i
    using ring_index_distinct [OF that assms] by metis
  ultimately show ?thesis by (simp add: slots_def)
qed

end
