(* ===== verification/Device.thy ===== *)
theory Device
  imports Common
begin

text \<open>
  Devices (src/device): discovery of the host CPU, the device manager and its accessors.

  \<^item> What the platform reports about the processor is a parameter (\<open>None\<close> when its self-test or
    the query fails), and so are the capability bits the compiler was told to use
    (\<open>detect_compiled_simd\<close> reads predefined macros only).
  \<^item> A fixed-size name buffer holds the text that \<open>snprintf\<close> leaves in it.
\<close>

unbundle bit_operations_syntax

datatype hbi_device_type =
  HBI_DEVICE_TYPE_CPU | HBI_DEVICE_TYPE_CUDA | HBI_DEVICE_TYPE_METAL | HBI_DEVICE_TYPE_ROCM
| HBI_DEVICE_TYPE_VULKAN | HBI_DEVICE_TYPE_COUNT

definition HBI_CAP_NONE :: u64 where "HBI_CAP_NONE = 0"
definition HBI_CAP_UMA :: u64 where "HBI_CAP_UMA = 0x100000000"

record hbi_cpu_info =
  c_logical_cores :: int
  c_physical_cores :: int
  c_page_size :: u64
  c_cacheline_size :: u64
  c_arch :: string

record hbi_memory_region =
  r_total_bytes :: u64
  r_available_bytes :: u64
  numa_node :: int
  r_page_size :: u64

record hbi_device_memory =
  m_total_bytes :: u64
  m_available_bytes :: u64
  m_alignment :: u64
  supports_huge_pages :: bool
  num_regions :: nat
  regions :: "hbi_memory_region list"

record hbi_device_info =
  vendor :: string
  i_name :: string
  i_arch :: string
  logical_cores :: int
  physical_cores :: int
  cacheline_size :: u64

record hbi_device_statistics =
  currently_allocated_bytes :: u64
  peak_allocated_bytes :: u64
  active_allocations :: nat

record hbi_device =
  d_id :: nat
  d_type :: hbi_device_type
  capabilities :: u64
  d_info :: hbi_device_info
  d_memory :: hbi_device_memory
  d_stats :: hbi_device_statistics

record hbi_device_manager =
  devices :: "hbi_device list"

definition buf_text :: "nat \<Rightarrow> string \<Rightarrow> string" where
  "buf_text cap s = (case snd (snprintf_text cap s) of Some t \<Rightarrow> t | None \<Rightarrow> [])"

definition zero_region :: hbi_memory_region where
  "zero_region = \<lparr>r_total_bytes = 0, r_available_bytes = 0, numa_node = 0, r_page_size = 0\<rparr>"

definition zero_stats :: hbi_device_statistics where
  "zero_stats = \<lparr>currently_allocated_bytes = 0, peak_allocated_bytes = 0, active_allocations = 0\<rparr>"

definition hbi_device_cpu_discover :: "u64 \<Rightarrow> hbi_cpu_info ptr \<Rightarrow> hbi_device" where
  "hbi_device_cpu_discover simd cpu =
     (case cpu of
        Some c \<Rightarrow>
          let total = c_page_size c * 1024 * 1024 in
          \<lparr>d_id = 0, d_type = HBI_DEVICE_TYPE_CPU, capabilities = simd OR HBI_CAP_UMA,
           d_info = \<lparr>vendor = buf_text 32 ''Generic'', i_name = buf_text 64 ''Host CPU'',
             i_arch = buf_text 16 (c_arch c), logical_cores = c_logical_cores c,
             physical_cores = c_physical_cores c, cacheline_size = c_cacheline_size c\<rparr>,
           d_memory = \<lparr>m_total_bytes = total, m_available_bytes = total, m_alignment = 64,
             supports_huge_pages = False, num_regions = 1,
             regions = [\<lparr>r_total_bytes = total, r_available_bytes = total, numa_node = 0,
               r_page_size = c_page_size c\<rparr>, zero_region, zero_region, zero_region]\<rparr>,
           d_stats = zero_stats\<rparr>
      | None \<Rightarrow>
          let total = 1024 * 1024 * 1024 in
          \<lparr>d_id = 0, d_type = HBI_DEVICE_TYPE_CPU, capabilities = simd,
           d_info = \<lparr>vendor = buf_text 32 ''Generic'', i_name = buf_text 64 ''Host CPU'',
             i_arch = buf_text 16 ''unknown'', logical_cores = 1, physical_cores = 1, cacheline_size = 64\<rparr>,
           d_memory = \<lparr>m_total_bytes = total, m_available_bytes = total, m_alignment = 64,
             supports_huge_pages = False, num_regions = 1,
             regions = [\<lparr>r_total_bytes = 0, r_available_bytes = 0, numa_node = - 1, r_page_size = 4096\<rparr>,
               zero_region, zero_region, zero_region]\<rparr>,
           d_stats = zero_stats\<rparr>)"

definition hbi_device_manager_create :: "bool \<Rightarrow> u64 \<Rightarrow> hbi_cpu_info ptr \<Rightarrow> hbi_device_manager outcome" where
  "hbi_device_manager_create alloc_ok simd cpu =
     (if \<not> alloc_ok then Inl HBI_ERR_OOM else Inr \<lparr>devices = [hbi_device_cpu_discover simd cpu]\<rparr>)"

definition hbi_device_manager_get_device_count :: "hbi_device_manager ptr \<Rightarrow> nat" where
  "hbi_device_manager_get_device_count m = (case m of None \<Rightarrow> 0 | Some m \<Rightarrow> length (devices m))"

definition hbi_device_manager_get_device :: "hbi_device_manager ptr \<Rightarrow> nat \<Rightarrow> hbi_device ptr" where
  "hbi_device_manager_get_device m i =
     (case m of
        None \<Rightarrow> None
      | Some m \<Rightarrow> if i \<ge> length (devices m) then None else Some (devices m ! i))"

definition hbi_device_manager_get_best :: "hbi_device_manager ptr \<Rightarrow> hbi_device ptr" where
  "hbi_device_manager_get_best m =
     (case m of
        None \<Rightarrow> None
      | Some m \<Rightarrow>
          if devices m = [] then None
          else case find (\<lambda>d. d_type d \<noteq> HBI_DEVICE_TYPE_CPU) (devices m) of
                 Some d \<Rightarrow> Some d
               | None \<Rightarrow> Some (devices m ! 0))"

definition hbi_device_get_type :: "hbi_device ptr \<Rightarrow> hbi_device_type" where
  "hbi_device_get_type d = (case d of None \<Rightarrow> HBI_DEVICE_TYPE_COUNT | Some d \<Rightarrow> d_type d)"

definition hbi_device_get_capabilities :: "hbi_device ptr \<Rightarrow> u64" where
  "hbi_device_get_capabilities d = (case d of None \<Rightarrow> HBI_CAP_NONE | Some d \<Rightarrow> capabilities d)"

definition hbi_device_get_info :: "hbi_device ptr \<Rightarrow> hbi_device_info outcome" where
  "hbi_device_get_info d = (case d of None \<Rightarrow> Inl HBI_ERR_INVALID_ARG | Some d \<Rightarrow> Inr (d_info d))"

definition hbi_device_get_memory :: "hbi_device ptr \<Rightarrow> hbi_device_memory outcome" where
  "hbi_device_get_memory d = (case d of None \<Rightarrow> Inl HBI_ERR_INVALID_ARG | Some d \<Rightarrow> Inr (d_memory d))"

definition hbi_device_get_statistics :: "hbi_device ptr \<Rightarrow> hbi_device_statistics outcome" where
  "hbi_device_get_statistics d = (case d of None \<Rightarrow> Inl HBI_ERR_INVALID_ARG | Some d \<Rightarrow> Inr (d_stats d))"

definition hbi_device_describe :: "hbi_device ptr \<Rightarrow> nat \<Rightarrow> int \<times> string option" where
  "hbi_device_describe d cap =
     (case d of
        None \<Rightarrow> (0, None)
      | Some d \<Rightarrow>
          if cap = 0 then (0, None)
          else
            let type_str = (case d_type d of
                  HBI_DEVICE_TYPE_CPU \<Rightarrow> ''CPU'' | HBI_DEVICE_TYPE_CUDA \<Rightarrow> ''CUDA''
                | HBI_DEVICE_TYPE_METAL \<Rightarrow> ''Metal'' | HBI_DEVICE_TYPE_ROCM \<Rightarrow> ''ROCm''
                | HBI_DEVICE_TYPE_VULKAN \<Rightarrow> ''Vulkan'' | HBI_DEVICE_TYPE_COUNT \<Rightarrow> ''Unknown'')
            in snprintf_text cap
                 (''['' @ type_str @ ''] '' @ vendor (d_info d) @ '' '' @ i_name (d_info d) @ '' ''
                  @ i_arch (d_info d) @ '' '' @ show_int (logical_cores (d_info d)) @ ''c/''
                  @ show_int (physical_cores (d_info d)) @ ''p''))"

section \<open>Properties\<close>

text \<open>The texts fit in the buffers of \<open>hbi_device_info\<close> with their terminating zero.\<close>

definition info_fits :: "hbi_device_info \<Rightarrow> bool" where
  "info_fits i \<longleftrightarrow> length (vendor i) < 32 \<and> length (i_name i) < 64 \<and> length (i_arch i) < 16"

lemma length_buf_text: "0 < cap \<Longrightarrow> length (buf_text cap s) < cap"
  by (simp add: buf_text_def snprintf_text_def)

text \<open>
  A created device manager always has a usable device: whatever the platform reports (at least
  one core, as it documents), the device that \<open>hbi_device_manager_get_best\<close> selects is the host
  CPU, its name buffers are terminated, it has at least one core and 64-byte alignment, and every
  index below the device count, and no other, gives a device.\<close>

lemma manager_has_device:
  assumes "hbi_device_manager_create True simd cpu = Inr m"
    and "case cpu of None \<Rightarrow> True | Some c \<Rightarrow> 1 \<le> c_logical_cores c \<and> 1 \<le> c_physical_cores c"
  shows "(\<exists>d. hbi_device_manager_get_best (Some m) = Some d \<and> d_type d = HBI_DEVICE_TYPE_CPU \<and>
      info_fits (d_info d) \<and> 1 \<le> logical_cores (d_info d) \<and> 1 \<le> physical_cores (d_info d) \<and>
      m_alignment (d_memory d) = 64) \<and>
    (\<forall>i. hbi_device_manager_get_device (Some m) i \<noteq> None \<longleftrightarrow>
      i < hbi_device_manager_get_device_count (Some m))"
proof -
  let ?d = "hbi_device_cpu_discover simd cpu"
  have m: "devices m = [?d]" using assms(1) by (auto simp: hbi_device_manager_create_def)
  have d: "d_type ?d = HBI_DEVICE_TYPE_CPU" "info_fits (d_info ?d)" "m_alignment (d_memory ?d) = 64"
    by (auto simp: hbi_device_cpu_discover_def info_fits_def length_buf_text Let_def split: option.splits)
  have "1 \<le> logical_cores (d_info ?d)" "1 \<le> physical_cores (d_info ?d)"
    using assms(2) by (auto simp: hbi_device_cpu_discover_def Let_def split: option.splits)
  then have "\<exists>e. hbi_device_manager_get_best (Some m) = Some e \<and> d_type e = HBI_DEVICE_TYPE_CPU \<and>
      info_fits (d_info e) \<and> 1 \<le> logical_cores (d_info e) \<and> 1 \<le> physical_cores (d_info e) \<and>
      m_alignment (d_memory e) = 64"
    using m d by (simp add: hbi_device_manager_get_best_def)
  then show ?thesis
    by (simp add: hbi_device_manager_get_device_def hbi_device_manager_get_device_count_def)
qed

end
