(* ===== verification/Scheduler.thy ===== *)
theory Scheduler
  imports Graph Fifo Device
begin

text \<open>
  The scheduler (src/scheduler): it turns a built graph into an execution plan, a list of stages
  whose tasks depend only on tasks of earlier stages. The model follows
  \<open>hbi_scheduler_create_plan\<close>: it counts and then fills the edge arrays, runs Kahn's algorithm
  level by level over the ring buffer of ready tasks, and reports a cycle when some task was never
  ready.

  \<^item> The arrays of the task graph are lists indexed by task; a stage holds task indices where the
    source holds pointers into \<open>plan->tasks\<close>.
  \<^item> \<open>uint32_t\<close> counters are \<open>nat\<close>, except that the decrement of an in-degree wraps at 0.
  \<^item> The flags of \<open>plan_allocs\<close> say which of the allocations that the source checks succeed; the
    allocations it does not check are taken to succeed.
  \<^item> The level loop is a \<open>while\<close> without a bound: it is a \<open>partial_function\<close>, and that it ends is
    part of the theorem.
\<close>

section \<open>Task queue\<close>

record hbi_task_queue =
  q_capacity :: nat
  q_head :: nat
  q_tail :: nat
  q_count :: nat
  q_task_ids :: "nat list"

definition task_queue_init :: "bool \<Rightarrow> (nat \<Rightarrow> nat) \<Rightarrow> nat \<Rightarrow> hbi_task_queue outcome" where
  "task_queue_init alloc_ok junk capacity =
     (if \<not> alloc_ok then Inl HBI_ERR_OOM
      else Inr \<lparr>q_capacity = capacity, q_head = 0, q_tail = 0, q_count = 0,
             q_task_ids = map junk [0..<capacity]\<rparr>)"

definition task_queue_push :: "hbi_task_queue \<Rightarrow> nat \<Rightarrow> hbi_task_queue" where
  "task_queue_push q task_id =
     (if q_count q < q_capacity q then
        q\<lparr>q_task_ids := (q_task_ids q)[q_tail q := task_id],
          q_tail := (q_tail q + 1) mod q_capacity q,
          q_count := q_count q + 1\<rparr>
      else q)"

definition task_queue_pop :: "hbi_task_queue \<Rightarrow> nat \<times> hbi_task_queue" where
  "task_queue_pop q =
     (if q_count q > 0 then
        (q_task_ids q ! q_head q,
         q\<lparr>q_head := (q_head q + 1) mod q_capacity q, q_count := q_count q - 1\<rparr>)
      else (UINT32_MAX, q))"

section \<open>Plans\<close>

datatype hbi_sync_type = HBI_SYNC_NONE | HBI_SYNC_BARRIER | HBI_SYNC_EVENT

record hbi_sync_point =
  sync_type :: hbi_sync_type
  sync_id :: nat

record hbi_task =
  task_id :: nat
  t_node :: "hbi_node ptr"
  dependencies :: "nat list"
  required_workspace :: nat
  required_device :: hbi_device_type
  estimated_cost :: nat
  execution_stage :: nat
  pre_sync :: hbi_sync_point
  post_sync :: hbi_sync_point







section \<open>Edges\<close>

text \<open>
  The producers that the body of both edge passes visits for node \<open>i\<close>, in order; a value that does
  not exist or has no producer is skipped.
\<close>

definition node_deps :: "hbi_graph \<Rightarrow> nat \<Rightarrow> nat list" where
  "node_deps g i =
     (case hbi_graph_node_at (Some g) i of
        None \<Rightarrow> []
      | Some node \<Rightarrow>
          concat (map (\<lambda>vid.
            case hbi_graph_value_at (Some g) vid of
              None \<Rightarrow> []
            | Some val \<Rightarrow> if producer_node_id val \<noteq> UINT32_MAX then [producer_node_id val] else [])
          (take (n_num_inputs node) (n_inputs node))))"





section \<open>Kahn's algorithm by levels\<close>










section \<open>The ring buffer is a queue\<close>

definition queue_contents :: "hbi_task_queue \<Rightarrow> nat list" where
  "queue_contents q = slots (q_task_ids q) (q_head q) (q_count q)"

definition queue_wf :: "hbi_task_queue \<Rightarrow> bool" where
  "queue_wf q \<longleftrightarrow> 0 < q_capacity q \<and> length (q_task_ids q) = q_capacity q \<and> q_head q < q_capacity q \<and>
     q_count q \<le> q_capacity q \<and> q_tail q = (q_head q + q_count q) mod q_capacity q"

lemma queue_pop_front:
  assumes "queue_wf q" and "queue_contents q = x # xs"
  shows "\<exists>q'. task_queue_pop q = (x, q') \<and> queue_wf q' \<and> queue_contents q' = xs \<and>
    q_capacity q' = q_capacity q"
proof -
  have c: "q_count q = Suc (length xs)"
    using arg_cong [OF assms(2), of length] by (simp add: queue_contents_def)
  then have "x = q_task_ids q ! q_head q"
    "xs = slots (q_task_ids q) ((q_head q + 1) mod q_capacity q) (length xs)"
    using assms by (simp_all add: queue_contents_def queue_wf_def slots_Suc)
  then show ?thesis
    using assms(1) c by (simp add: task_queue_pop_def queue_contents_def queue_wf_def mod_simps)
qed

lemma queue_push_room:
  assumes "queue_wf q" and "length (queue_contents q) < q_capacity q"
  shows "queue_wf (task_queue_push q x) \<and> queue_contents (task_queue_push q x) = queue_contents q @ [x] \<and>
    q_capacity (task_queue_push q x) = q_capacity q"
proof -
  have c: "q_count q < q_capacity q" using assms(2) by (simp add: queue_contents_def)
  then have "queue_contents (task_queue_push q x) = queue_contents q @ [x]"
    using assms(1) slots_push [of "q_count q" "q_task_ids q" "q_head q" x]
    by (simp add: task_queue_push_def queue_contents_def queue_wf_def)
  then show ?thesis using assms(1) c by (simp add: task_queue_push_def queue_wf_def mod_simps)
qed

interpretation tq: fifo task_queue_push task_queue_pop q_count q_capacity queue_contents queue_wf
proof unfold_locales
  show "length (queue_contents q) \<le> q_capacity q" if "queue_wf q" for q
    using that by (simp add: queue_contents_def queue_wf_def)
qed (auto simp: queue_push_room queue_pop_front, auto simp: queue_contents_def task_queue_push_def)

lemma task_queue_init_holds:
  assumes "task_queue_init True junk n = Inr q" and "0 < n"
  shows "tq.holds n [] q"
  using assms by (auto simp: task_queue_init_def tq.holds_def queue_wf_def queue_contents_def)

section \<open>Edge arrays\<close>





section \<open>Kahn's algorithm\<close>



definition zeros :: "nat list \<Rightarrow> nat list \<Rightarrow> nat set" where
  "zeros vs deg = {v \<in> set vs. deg ! v = count_list vs v}"

lemma finite_zeros [simp]: "finite (zeros vs deg)"
  by (simp add: zeros_def)





definition mark :: "nat \<Rightarrow> nat list \<Rightarrow> hbi_task list \<Rightarrow> hbi_task list" where
  "mark stage us ts = foldl (\<lambda>ts u. ts[u := (ts ! u)\<lparr>execution_stage := stage\<rparr>]) ts us"

lemma length_mark [simp]: "length (mark stage us ts) = length ts"
  unfolding mark_def by (induction us arbitrary: ts) simp_all











section \<open>Plans\<close>









section \<open>Properties\<close>

text \<open>
  A bounded queue on lists, and what a client sees of a sequence of operations: the popped ids.
\<close>

datatype queue_op = Push nat | Pop

fun list_queue_run :: "nat \<Rightarrow> queue_op list \<Rightarrow> nat list \<Rightarrow> nat list" where
  "list_queue_run cap [] xs = []"
| "list_queue_run cap (Push x # ops) xs = list_queue_run cap ops (if length xs < cap then xs @ [x] else xs)"
| "list_queue_run cap (Pop # ops) [] = UINT32_MAX # list_queue_run cap ops []"
| "list_queue_run cap (Pop # ops) (x # xs) = x # list_queue_run cap ops xs"

fun task_queue_run :: "queue_op list \<Rightarrow> hbi_task_queue \<Rightarrow> nat list" where
  "task_queue_run [] q = []"
| "task_queue_run (Push x # ops) q = task_queue_run ops (task_queue_push q x)"
| "task_queue_run (Pop # ops) q = (case task_queue_pop q of (x, q') \<Rightarrow> x # task_queue_run ops q')"

lemma task_queue_run_correct:
  assumes "tq.holds cap xs q"
  shows "task_queue_run ops q = list_queue_run cap ops xs"
  using assms
proof (induction cap ops xs arbitrary: q rule: list_queue_run.induct)
  case (2 cap x ops xs)
  then have "tq.holds cap (if length xs < cap then xs @ [x] else xs) (task_queue_push q x)"
    using tq.holds_push [of cap xs q x] tq.push_full [of q x] tq.bounded [of q] by (auto simp: tq.holds_def)
  then show ?case using "2.IH" by simp
next
  case (3 cap ops)
  then have "task_queue_pop q = (UINT32_MAX, q)" using tq.holds_size by (fastforce simp: task_queue_pop_def)
  then show ?case using "3.IH" "3.prems" by simp
next
  case (4 cap ops x xs)
  then obtain q' where "task_queue_pop q = (x, q')" "tq.holds cap xs q'" using tq.holds_pop by blast
  then show ?case using "4.IH" by simp
qed simp

text \<open>
  C28. The scheduler's ring buffer refines a bounded list queue: from initialisation on, for every
  interleaving of pushes and pops, it returns the ids in the order they were pushed, drops a push
  exactly when \<open>capacity\<close> ids are waiting, and returns \<open>UINT32_MAX\<close> exactly when none is.\<close>

theorem task_queue_refines:
  assumes "task_queue_init True junk cap = Inr q" and "0 < cap"
  shows "task_queue_run ops q = list_queue_run cap ops []"
  using task_queue_run_correct [OF task_queue_init_holds [OF assms]] .

theorem task_queue_refines_witness:
  "\<exists>q. task_queue_init True (\<lambda>_. 7) 2 = Inr q \<and>
     task_queue_run [Push 3, Push 4, Push 5, Pop, Push 6, Pop, Pop, Pop] q = [3, 4, 6, UINT32_MAX]"
proof -
  obtain q where q: "task_queue_init True (\<lambda>_. 7) 2 = Inr q" by (simp add: task_queue_init_def)
  have "task_queue_run [Push 3, Push 4, Push 5, Pop, Push 6, Pop, Pop, Pop] q = [3, 4, 6, UINT32_MAX]"
    using task_queue_refines [OF q] by simp
  then show ?thesis using q by blast
qed




lemma node_deps_producers:
  assumes "g_nodes g = b_nodes b" and "g_values g = b_values b" and "v < length (b_nodes b)"
    and "list_all (\<lambda>x. x < length (b_values b)) (take (n_num_inputs (b_nodes b ! v)) (n_inputs (b_nodes b ! v)))"
  shows "node_deps g v = producers b v"
proof -
  have "concat (map (\<lambda>vid. case hbi_graph_value_at (Some g) vid of None \<Rightarrow> []
        | Some val \<Rightarrow> if producer_node_id val \<noteq> UINT32_MAX then [producer_node_id val] else []) xs)
      = filter (\<lambda>p. p \<noteq> UINT32_MAX) (map (\<lambda>x. producer_node_id (b_values b ! x)) xs)"
    if "list_all (\<lambda>x. x < length (b_values b)) xs" for xs
    using that assms(2) by (induction xs) (auto simp: hbi_graph_value_at_def)
  from this [OF assms(4)] show ?thesis
    using assms(1,3) by (simp add: node_deps_def producers_def hbi_graph_node_at_def Let_def)
qed

end
