(* ===== verification/Planner.thy ===== *)
theory Planner
  imports Graph "HOL-Library.Multiset"
begin

text \<open>
  The memory planner (src/planner): liveness analysis over the execution order of a graph, and
  greedy first-fit placement of the temporary values in one pool, such that values whose lifetimes
  overlap never share bytes.

  \<^item> Byte sizes and offsets are \<open>size_t\<close> words; positions in the execution order and value ids are
    \<open>nat\<close>.
  \<^item> \<open>qsort\<close> may order equal elements in any way: it is a parameter of \<open>hbi_memory_planner_plan\<close>,
    of which the theorems use only that it permutes its input.
  \<^item> The retry loop of the first-fit search is a \<open>while\<close> without a bound: it is a
    \<open>partial_function\<close>, and that it ends is part of the theorems.
  \<^item> The pool array has one element, whose size is stored in the plan.
\<close>

unbundle bit_operations_syntax

section \<open>Data\<close>

record hbi_live_range =
  lr_value_id :: nat
  first_use :: nat
  last_use :: nat
  lr_size_bytes :: u64
  lr_alignment :: u64

record hbi_allocation =
  a_value_id :: nat
  a_pool_id :: nat
  a_offset :: u64
  a_size_bytes :: u64

record hbi_memory_statistics =
  peak_memory_bytes :: u64
  persistent_memory_bytes :: u64
  temporary_memory_bytes :: u64
  workspace_memory_bytes :: u64
  naive_memory_bytes :: u64
  ms_num_allocations :: nat
  ms_num_pools :: nat

record hbi_memory_plan =
  mp_pools :: "u64 list"
  mp_allocations :: "hbi_allocation list"
  mp_workspace_size :: u64
  mp_stats :: hbi_memory_statistics

record hbi_memory_planner =
  pl_graph :: hbi_graph
  pl_ranges :: "hbi_live_range list"
  pl_plan :: hbi_memory_plan

definition zero_range :: hbi_live_range where
  "zero_range = \<lparr>lr_value_id = 0, first_use = 0, last_use = 0, lr_size_bytes = 0, lr_alignment = 0\<rparr>"

definition zero_plan :: hbi_memory_plan where
  "zero_plan = \<lparr>mp_pools = [], mp_allocations = [], mp_workspace_size = 0,
     mp_stats = \<lparr>peak_memory_bytes = 0, persistent_memory_bytes = 0, temporary_memory_bytes = 0,
       workspace_memory_bytes = 0, naive_memory_bytes = 0, ms_num_allocations = 0, ms_num_pools = 0\<rparr>\<rparr>"

definition align_up :: "u64 \<Rightarrow> u64 \<Rightarrow> u64" where
  "align_up val a = (if a = 0 then val else (val + a - 1) AND NOT (a - 1))"

definition hbi_memory_planner_create :: "bool \<Rightarrow> bool \<Rightarrow> hbi_graph ptr \<Rightarrow> hbi_memory_planner outcome" where
  "hbi_memory_planner_create planner_ok ranges_ok graph =
     (case graph of
        None \<Rightarrow> Inl HBI_ERR_INVALID_ARG
      | Some g \<Rightarrow>
          if \<not> planner_ok \<or> \<not> ranges_ok then Inl HBI_ERR_OOM
          else Inr \<lparr>pl_graph = g, pl_ranges = replicate (hbi_graph_num_values (Some g)) zero_range,
                 pl_plan = zero_plan\<rparr>)"

definition compare_live_ranges :: "hbi_live_range \<Rightarrow> hbi_live_range \<Rightarrow> int" where
  "compare_live_ranges ra rb =
     (if first_use ra < first_use rb then - 1
      else if first_use ra > first_use rb then 1
      else if lr_size_bytes ra > lr_size_bytes rb then - 1
      else if lr_size_bytes ra < lr_size_bytes rb then 1
      else 0)"

section \<open>Liveness analysis\<close>

definition reset_ranges :: "nat \<Rightarrow> hbi_live_range list \<Rightarrow> hbi_live_range list" where
  "reset_ranges n rs =
     map (\<lambda>i. (rs ! i)\<lparr>lr_value_id := i, first_use := UINT32_MAX, last_use := 0\<rparr>) [0..<n]"

text \<open>The body shared by the loops over a node's inputs and outputs.\<close>

definition touch :: "nat \<Rightarrow> nat \<Rightarrow> hbi_live_range list \<Rightarrow> hbi_live_range list" where
  "touch t vid rs =
     (let r = rs ! vid;
          r1 = (if first_use r = UINT32_MAX then r\<lparr>first_use := t\<rparr> else r);
          r2 = (if t > last_use r1 then r1\<lparr>last_use := t\<rparr> else r1)
      in rs[vid := r2])"

fun touch_all :: "nat \<Rightarrow> nat list \<Rightarrow> hbi_live_range list \<Rightarrow> hbi_live_range list" where
  "touch_all t [] rs = rs"
| "touch_all t (v # vs) rs = touch_all t vs (touch t v rs)"

text \<open>The values a node reads and writes, in the order of the two loops.\<close>

definition node_values :: "hbi_graph \<Rightarrow> nat \<Rightarrow> nat list" where
  "node_values g node_id =
     (case hbi_graph_node_at (Some g) node_id of
        None \<Rightarrow> []
      | Some nd \<Rightarrow> take (n_num_inputs nd) (n_inputs nd) @ take (n_num_outputs nd) (n_outputs nd))"

fun liveness :: "hbi_graph \<Rightarrow> nat \<Rightarrow> nat list \<Rightarrow> hbi_live_range list \<Rightarrow> hbi_live_range list" where
  "liveness g t [] rs = rs"
| "liveness g t (node_id # ids) rs = liveness g (Suc t) ids (touch_all t (node_values g node_id) rs)"

definition value_bytes :: "hbi_value \<Rightarrow> u64" where
  "value_bytes val =
     (let elems = (case hbi_shape_elem_count (Some (v_shape val)) of Inr e \<Rightarrow> e | Inl _ \<Rightarrow> 0)
      in case hbi_dtype_packed_nbytes (v_dtype val) elems of Inr b \<Rightarrow> of_nat b | Inl _ \<Rightarrow> 0)"

definition value_alignment :: "hbi_value \<Rightarrow> u64" where
  "value_alignment val =
     (if hbi_dtype_align (v_dtype val) < HBI_TENSOR_DEFAULT_ALIGN then of_nat HBI_TENSOR_DEFAULT_ALIGN
      else of_nat (hbi_dtype_align (v_dtype val)))"

text \<open>The persistent bytes, the bytes without reuse, and the ranges that need a placement.\<close>

fun collect_ranges ::
  "hbi_graph \<Rightarrow> hbi_live_range list \<Rightarrow> nat list \<Rightarrow> u64 \<times> u64 \<times> hbi_live_range list \<Rightarrow>
     u64 \<times> u64 \<times> hbi_live_range list" where
  "collect_ranges g rs [] s = s"
| "collect_ranges g rs (vid # vids) (persistent, naive, active) =
     (case hbi_graph_value_at (Some g) vid of
        None \<Rightarrow> collect_ranges g rs vids (persistent, naive, active)
      | Some val \<Rightarrow>
          let bytes = value_bytes val in
          if is_constant val \<or> producer_node_id val = UINT32_MAX
          then collect_ranges g rs vids (persistent + bytes, naive, active)
          else if first_use (rs ! vid) = UINT32_MAX
          then collect_ranges g rs vids (persistent, naive, active)
          else collect_ranges g rs vids (persistent, naive + bytes,
                 active @ [(rs ! vid)\<lparr>lr_size_bytes := bytes, lr_alignment := value_alignment val\<rparr>]))"

section \<open>First fit\<close>

definition time_overlap :: "hbi_live_range \<Rightarrow> hbi_live_range \<Rightarrow> bool" where
  "time_overlap r prev_r \<longleftrightarrow> first_use r \<le> last_use prev_r \<and> last_use r \<ge> first_use prev_r"

text \<open>The inner loop: the end of the first earlier allocation in conflict with offset \<open>off\<close>.\<close>

fun find_conflict :: "(hbi_live_range \<times> hbi_allocation) list \<Rightarrow> hbi_live_range \<Rightarrow> u64 \<Rightarrow> u64 option" where
  "find_conflict [] r off = None"
| "find_conflict ((prev_r, prev_a) # ps) r off =
     (if \<not> time_overlap r prev_r then find_conflict ps r off
      else
        let prev_start = a_offset prev_a;
            prev_end = a_offset prev_a + a_size_bytes prev_a
        in if off < prev_end \<and> off + lr_size_bytes r > prev_start then Some prev_end
           else find_conflict ps r off)"

partial_function (option) place ::
  "(hbi_live_range \<times> hbi_allocation) list \<Rightarrow> hbi_live_range \<Rightarrow> u64 \<Rightarrow> u64 option" where
  "place prev r off =
     (let off1 = align_up off (lr_alignment r) in
      case find_conflict prev r off1 of
        None \<Rightarrow> Some off1
      | Some e \<Rightarrow> place prev r e)"

fun first_fit ::
  "hbi_live_range list \<Rightarrow> (hbi_live_range \<times> hbi_allocation) list \<Rightarrow> u64 \<Rightarrow>
     ((hbi_live_range \<times> hbi_allocation) list \<times> u64) option" where
  "first_fit [] prev peak = Some (prev, peak)"
| "first_fit (r # rs) prev peak =
     (case place prev r 0 of
        None \<Rightarrow> None
      | Some off \<Rightarrow>
          let a = \<lparr>a_value_id = lr_value_id r, a_pool_id = 0, a_offset = off,
                   a_size_bytes = lr_size_bytes r\<rparr>;
              end_offset = off + lr_size_bytes r
          in first_fit rs (prev @ [(r, a)]) (if end_offset > peak then end_offset else peak))"

section \<open>The plan\<close>

definition hbi_memory_planner_plan ::
  "(hbi_live_range list \<Rightarrow> hbi_live_range list) \<Rightarrow> bool \<Rightarrow> hbi_memory_planner \<Rightarrow>
     (hbi_status \<times> hbi_memory_planner) option" where
  "hbi_memory_planner_plan qsort allocs_ok p =
     (case hbi_graph_execution_order (Some (pl_graph p)) of
        None \<Rightarrow> Some (HBI_ERR_STATE, p)
      | Some order \<Rightarrow>
          let g = pl_graph p;
              num_nodes = hbi_graph_num_nodes (Some g);
              num_values = hbi_graph_num_values (Some g);
              ranges = liveness g 0 (take num_nodes order) (reset_ranges num_values (pl_ranges p));
              p1 = p\<lparr>pl_ranges := ranges\<rparr>
          in case collect_ranges g ranges [0..<num_values] (0, 0, []) of
               (persistent, naive, active) \<Rightarrow>
                 if \<not> allocs_ok \<and> active \<noteq> [] then Some (HBI_ERR_OOM, p1)
                 else
                   case first_fit (qsort active) [] 0 of
                     None \<Rightarrow> None
                   | Some (placed, peak) \<Rightarrow>
                       Some (HBI_OK, p1\<lparr>pl_plan :=
                         \<lparr>mp_pools = [peak], mp_allocations = map snd placed, mp_workspace_size = 0,
                          mp_stats = \<lparr>peak_memory_bytes = peak + 0, persistent_memory_bytes = persistent,
                            temporary_memory_bytes = peak, workspace_memory_bytes = 0,
                            naive_memory_bytes = naive, ms_num_allocations = length active,
                            ms_num_pools = 1\<rparr>\<rparr>\<rparr>))"

definition hbi_memory_plan_num_pools :: "hbi_memory_plan ptr \<Rightarrow> nat" where
  "hbi_memory_plan_num_pools p = (case p of None \<Rightarrow> 0 | Some p \<Rightarrow> length (mp_pools p))"

definition hbi_memory_plan_pool_size :: "hbi_memory_plan ptr \<Rightarrow> nat \<Rightarrow> u64" where
  "hbi_memory_plan_pool_size p pool_id =
     (case p of None \<Rightarrow> 0 | Some p \<Rightarrow> if pool_id \<ge> length (mp_pools p) then 0 else mp_pools p ! pool_id)"

definition hbi_memory_plan_get_allocation :: "hbi_memory_plan ptr \<Rightarrow> nat \<Rightarrow> hbi_allocation outcome" where
  "hbi_memory_plan_get_allocation p value_id =
     (case p of
        None \<Rightarrow> Inl HBI_ERR_INVALID_ARG
      | Some p \<Rightarrow>
          case find (\<lambda>a. a_value_id a = value_id) (mp_allocations p) of
            Some a \<Rightarrow> Inr a
          | None \<Rightarrow> Inl HBI_ERR_NOT_FOUND)"

definition hbi_memory_plan_workspace_size :: "hbi_memory_plan ptr \<Rightarrow> u64" where
  "hbi_memory_plan_workspace_size p = (case p of None \<Rightarrow> 0 | Some p \<Rightarrow> mp_workspace_size p)"

definition hbi_memory_plan_get_statistics :: "hbi_memory_plan ptr \<Rightarrow> hbi_memory_statistics outcome" where
  "hbi_memory_plan_get_statistics p =
     (case p of None \<Rightarrow> Inl HBI_ERR_INVALID_ARG | Some p \<Rightarrow> Inr (mp_stats p))"

section \<open>Placement\<close>

abbreviation alloc_end :: "hbi_allocation \<Rightarrow> nat" where
  "alloc_end a \<equiv> unat (a_offset a) + unat (a_size_bytes a)"

definition apart_bytes :: "hbi_allocation \<Rightarrow> hbi_allocation \<Rightarrow> bool" where
  "apart_bytes a b \<longleftrightarrow> alloc_end a \<le> unat (a_offset b) \<or> alloc_end b \<le> unat (a_offset a)"

lemma align_up_fits:
  assumes "hbi_is_pow2 a" and "unat x + unat a \<le> 2 ^ 64"
  shows "unat x \<le> unat (align_up x a) \<and> unat a dvd unat (align_up x a) \<and> unat (align_up x a) < unat x + unat a"
proof -
  note f = hbi_align_up_fits [OF assms]
  have "a \<noteq> 0" using assms(1) by (simp add: hbi_is_pow2_def)
  then have "align_up x a = hbi_align_up x a"
    using assms(1) f
    by (auto simp: align_up_def hbi_align_up_def Let_def word_le_nat_alt [symmetric] add_diff_eq split: if_splits)
  then show ?thesis using f by simp
qed

lemma find_conflict_None:
  assumes "find_conflict prev r off = None"
    and "\<And>pr pa. (pr, pa) \<in> set prev \<Longrightarrow> alloc_end pa < 2 ^ 64" and "unat off + unat (lr_size_bytes r) < 2 ^ 64"
    and "(pr, pa) \<in> set prev" and "time_overlap r pr"
  shows "alloc_end pa \<le> unat off \<or> unat off + unat (lr_size_bytes r) \<le> unat (a_offset pa)"
proof -
  have "\<not> (off < a_offset pa + a_size_bytes pa \<and> off + lr_size_bytes r > a_offset pa)"
    using assms(1,4,5) by (induction prev r off rule: find_conflict.induct) (auto simp: Let_def split: if_splits)
  then show ?thesis
    using assms(2) [OF assms(4)] assms(3) by (simp add: word_less_nat_alt unat_word_ariths not_less)
qed

lemma find_conflict_Some:
  assumes "find_conflict prev r off = Some e"
  shows "\<exists>pr pa. (pr, pa) \<in> set prev \<and> e = a_offset pa + a_size_bytes pa \<and> off < e"
  using assms by (induction prev) (auto simp: Let_def split: if_splits, blast+)

text \<open>Each retry moves past an earlier allocation for good, so the search ends.\<close>

lemma place_spec:
  assumes prev: "\<And>pr pa. (pr, pa) \<in> set prev \<Longrightarrow> alloc_end pa \<le> B"
    and B: "B + unat (lr_alignment r) + unat (lr_size_bytes r) < 2 ^ 64"
    and pow2: "hbi_is_pow2 (lr_alignment r)" and off: "unat off \<le> B"
  shows "\<exists>o'. place prev r off = Some o' \<and> unat o' < B + unat (lr_alignment r) \<and>
    unat (lr_alignment r) dvd unat o' \<and> find_conflict prev r o' = None"
  using off
proof (induction "length (filter (\<lambda>p. unat off < alloc_end (snd p)) prev)" arbitrary: off rule: less_induct)
  case less
  let ?o = "align_up off (lr_alignment r)"
  have al: "unat off \<le> unat ?o" "unat (lr_alignment r) dvd unat ?o" "unat ?o < unat off + unat (lr_alignment r)"
    using align_up_fits [OF pow2, of off] B less.prems by auto
  show ?case
  proof (cases "find_conflict prev r ?o")
    case None
    then show ?thesis using al less.prems by (simp add: place.simps Let_def)
  next
    case (Some e)
    then obtain pr pa where p: "(pr, pa) \<in> set prev" "e = a_offset pa + a_size_bytes pa" "?o < e"
      using find_conflict_Some by blast
    have e: "unat e = alloc_end pa" using prev [OF p(1)] B p(2) by (simp add: unat_word_ariths)
    then have eB: "unat e \<le> B" using prev [OF p(1)] by simp
    have lt: "unat off < unat e" using p(3) al(1) by (simp add: word_less_nat_alt)
    have "length (filter (\<lambda>p. unat e < alloc_end (snd p)) prev) < length (filter (\<lambda>p. unat off < alloc_end (snd p)) prev)"
    proof (rule length_filter_less_strict)
      show "(pr, pa) \<in> set prev" "unat off < alloc_end (snd (pr, pa))" "\<not> unat e < alloc_end (snd (pr, pa))"
        using p(1) lt e by auto
    qed (use lt in auto)
    from less.hyps [OF this eB] show ?thesis using Some by (simp add: place.simps Let_def)
  qed
qed

text \<open>The first-fit loop over all ranges, in terms of a bound \<open>B\<close> on the ends placed so far.\<close>

definition fit_ok :: "nat \<Rightarrow> (hbi_live_range \<times> hbi_allocation) list \<Rightarrow> bool" where
  "fit_ok B ps \<longleftrightarrow>
     (\<forall>(r, a) \<in> set ps. alloc_end a \<le> B \<and> unat (lr_alignment r) dvd unat (a_offset a) \<and>
        a_value_id a = lr_value_id r \<and> a_size_bytes a = lr_size_bytes r \<and> a_pool_id a = 0) \<and>
     sorted_wrt (\<lambda>p q. time_overlap (fst q) (fst p) \<longrightarrow> apart_bytes (snd p) (snd q)) ps"

abbreviation padded :: "hbi_live_range list \<Rightarrow> nat" where
  "padded rs \<equiv> (\<Sum>r\<leftarrow>rs. unat (lr_size_bytes r) + unat (lr_alignment r))"

lemma first_fit_spec:
  assumes "fit_ok (unat peak) prev" and "unat peak + padded rs < 2 ^ 64"
    and "\<forall>r \<in> set rs. hbi_is_pow2 (lr_alignment r)"
  shows "\<exists>ps peak'. first_fit rs prev peak = Some (ps, peak') \<and> fit_ok (unat peak') ps \<and>
    map fst ps = map fst prev @ rs \<and> unat peak \<le> unat peak' \<and> unat peak' \<le> unat peak + padded rs"
  using assms
proof (induction rs arbitrary: prev peak)
  case (Cons r rs)
  let ?al = "unat (lr_alignment r)" and ?sz = "unat (lr_size_bytes r)"
  have b: "alloc_end pa \<le> unat peak" if "(pr, pa) \<in> set prev" for pr pa
    using Cons.prems(1) that by (auto simp: fit_ok_def)
  have p2: "hbi_is_pow2 (lr_alignment r)" and fits: "unat peak + ?al + ?sz < 2 ^ 64" using Cons.prems(2,3) by auto
  obtain o' where o': "place prev r 0 = Some o'" "unat o' < unat peak + ?al" "?al dvd unat o'"
    "find_conflict prev r o' = None"
    using place_spec [of prev "unat peak" r 0] b fits p2 by auto
  let ?a = "\<lparr>a_value_id = lr_value_id r, a_pool_id = 0, a_offset = o', a_size_bytes = lr_size_bytes r\<rparr>"
  let ?pk = "if o' + lr_size_bytes r > peak then o' + lr_size_bytes r else peak"
  have e: "unat (o' + lr_size_bytes r) = unat o' + ?sz" using o'(2) fits by (simp add: unat_word_ariths)
  then have pk: "unat ?pk = max (unat peak) (unat o' + ?sz)" by (simp add: word_less_nat_alt max_def)
  have "apart_bytes pa ?a" if "(pr, pa) \<in> set prev" "time_overlap r pr" for pr pa
    using find_conflict_None [OF o'(4) _ _ that] b fits o'(2) by (fastforce simp: apart_bytes_def)
  then have ok: "fit_ok (unat ?pk) (prev @ [(r, ?a)])"
    using Cons.prems(1) o'(3) pk by (fastforce simp: fit_ok_def sorted_wrt_append)
  have "unat ?pk + padded rs < 2 ^ 64" using Cons.prems(2) pk o'(2) by simp
  from Cons.IH [OF ok this] Cons.prems(3) obtain ps peak' where
    "first_fit rs (prev @ [(r, ?a)]) ?pk = Some (ps, peak')" "fit_ok (unat peak') ps"
    "map fst ps = map fst (prev @ [(r, ?a)]) @ rs" "unat ?pk \<le> unat peak'" "unat peak' \<le> unat ?pk + padded rs"
    by auto
  then show ?case using o'(1,2) pk by (auto simp: Let_def)
qed simp

section \<open>Liveness\<close>

text \<open>The positions of the execution order at which a value is read or written.\<close>

definition uses :: "hbi_graph \<Rightarrow> nat \<Rightarrow> nat list \<Rightarrow> nat \<Rightarrow> nat list" where
  "uses g t ids v = filter (\<lambda>i. v \<in> set (node_values g (ids ! (i - t)))) [t..<t + length ids]"

lemma length_touch_all [simp]: "length (touch_all t vs rs) = length rs"
  by (induction vs arbitrary: rs) (simp_all add: touch_def Let_def)

definition widen :: "nat \<Rightarrow> hbi_live_range \<Rightarrow> hbi_live_range" where
  "widen t r = r\<lparr>first_use := if first_use r = UINT32_MAX then t else first_use r,
     last_use := max t (last_use r)\<rparr>"

lemma nth_touch: "v < length rs \<Longrightarrow> touch t w rs ! v = (if v = w then widen t (rs ! v) else rs ! v)"
  by (auto simp: touch_def Let_def widen_def max_def)

lemma widen_idem: "t \<noteq> UINT32_MAX \<Longrightarrow> widen t (widen t r) = widen t r"
  by (simp add: widen_def max_def)

lemma nth_touch_all:
  "v < length rs \<Longrightarrow> t \<noteq> UINT32_MAX \<Longrightarrow> touch_all t vs rs ! v = (if v \<in> set vs then widen t (rs ! v) else rs ! v)"
proof (induction vs arbitrary: rs)
  case (Cons w vs)
  have "v < length (touch t w rs)" using Cons.prems by (simp add: touch_def Let_def)
  then show ?case using Cons.IH [of "touch t w rs"] Cons.prems by (auto simp: nth_touch widen_idem)
qed simp

lemma uses_Cons:
  "uses g t (x # ids) v = (if v \<in> set (node_values g x) then [t] else []) @ uses g (Suc t) ids v"
proof -
  have "[t..<t + length (x # ids)] = t # [Suc t..<Suc t + length ids]" by (simp add: upt_conv_Cons del: upt_Suc)
  moreover have "filter (\<lambda>i. v \<in> set (node_values g ((x # ids) ! (i - t)))) [Suc t..<Suc t + length ids] = uses g (Suc t) ids v"
    unfolding uses_def by (rule filter_cong) (auto simp: nth_Cons' Suc_diff_le)
  ultimately show ?thesis unfolding uses_def by simp
qed

lemma liveness_spec:
  assumes "v < length rs" and "t + length ids \<le> UINT32_MAX"
  shows "liveness g t ids rs ! v = foldl (\<lambda>r i. widen i r) (rs ! v) (uses g t ids v)"
    and "length (liveness g t ids rs) = length rs"
  using assms
proof (induction ids arbitrary: t rs)
  case (Cons x ids)
  {
    case 1
    then show ?case using Cons.IH(1) [of "touch_all t (node_values g x) rs" "Suc t"]
      by (simp add: nth_touch_all uses_Cons)
  next
    case 2
    then show ?case using Cons.IH(2) [of "touch_all t (node_values g x) rs" "Suc t"] by simp
  }
qed (simp_all add: uses_def)

lemma sorted_uses: "sorted (uses g t ids v)"
  unfolding uses_def by (intro sorted_wrt_filter) simp

lemma foldl_widen:
  assumes "sorted is" and "\<forall>i \<in> set is. i < UINT32_MAX"
  shows "foldl (\<lambda>r i. widen i r) r is = r\<lparr>first_use := if first_use r = UINT32_MAX \<and> is \<noteq> [] then hd is else first_use r,
    last_use := foldl max (last_use r) is\<rparr>"
  using assms by (induction "is" arbitrary: r) (auto simp: widen_def max.commute)

lemma foldl_max_ge: "(\<forall>i \<in> set is. i \<le> foldl max (a :: nat) is) \<and> a \<le> foldl max a is"
  by (induction "is" arbitrary: a) (auto intro: order_trans [OF max.cobounded1] order_trans [OF max.cobounded2])

text \<open>The value ids that are placed, and what their ranges become.\<close>

definition order_of :: "hbi_graph \<Rightarrow> nat list" where
  "order_of g = take (length (g_nodes g)) (execution_order g)"

definition planned :: "hbi_graph \<Rightarrow> nat \<Rightarrow> bool" where
  "planned g v \<longleftrightarrow> v < length (g_values g) \<and> \<not> is_constant (g_values g ! v) \<and>
     producer_node_id (g_values g ! v) \<noteq> UINT32_MAX \<and> uses g 0 (order_of g) v \<noteq> []"

text \<open>A value is live at \<open>t\<close> when it is read or written at or before \<open>t\<close> and at or after \<open>t\<close>.\<close>

definition live_at :: "hbi_graph \<Rightarrow> nat \<Rightarrow> nat \<Rightarrow> bool" where
  "live_at g v t \<longleftrightarrow> (\<exists>i \<in> set (uses g 0 (order_of g) v). \<exists>j \<in> set (uses g 0 (order_of g) v). i \<le> t \<and> t \<le> j)"

definition range_of :: "hbi_graph \<Rightarrow> nat \<Rightarrow> hbi_live_range" where
  "range_of g v = \<lparr>lr_value_id = v, first_use = hd (uses g 0 (order_of g) v),
     last_use = foldl max 0 (uses g 0 (order_of g) v), lr_size_bytes = value_bytes (g_values g ! v),
     lr_alignment = 64\<rparr>"

lemma value_alignment_64: "value_alignment val = 64"
  by (cases "v_dtype val") (simp_all add: value_alignment_def HBI_TENSOR_DEFAULT_ALIGN_def)

lemma range_of_live: "live_at g v t \<Longrightarrow> first_use (range_of g v) \<le> t \<and> t \<le> last_use (range_of g v)"
proof -
  assume "live_at g v t"
  then obtain i j where ij: "i \<in> set (uses g 0 (order_of g) v)" "j \<in> set (uses g 0 (order_of g) v)" "i \<le> t" "t \<le> j"
    by (auto simp: live_at_def)
  have "hd (uses g 0 (order_of g) v) \<le> i"
    using ij(1) sorted_uses [of g 0 "order_of g" v] by (cases "uses g 0 (order_of g) v") auto
  moreover have "j \<le> foldl max 0 (uses g 0 (order_of g) v)" using ij(2) foldl_max_ge by blast
  ultimately show ?thesis using ij(3,4) by (simp add: range_of_def)
qed

lemma collect_ranges_spec:
  assumes "\<And>v. v < length (g_values g) \<Longrightarrow> lr_value_id (rs ! v) = v \<and>
      (first_use (rs ! v) = UINT32_MAX \<longleftrightarrow> uses g 0 (order_of g) v = []) \<and>
      (uses g 0 (order_of g) v \<noteq> [] \<longrightarrow> first_use (rs ! v) = hd (uses g 0 (order_of g) v) \<and>
         last_use (rs ! v) = foldl max 0 (uses g 0 (order_of g) v))"
  shows "\<exists>ps. collect_ranges g rs vids (per, naive, act)
    = (ps, naive + (\<Sum>v\<leftarrow>filter (planned g) vids. value_bytes (g_values g ! v)),
       act @ map (range_of g) (filter (planned g) vids))"
proof (induction vids arbitrary: per naive act)
  case (Cons v vids)
  show ?case
  proof (cases "v < length (g_values g)")
    case True
    show ?thesis
    proof (cases "planned g v")
      case p: True
      have "(rs ! v)\<lparr>lr_size_bytes := value_bytes (g_values g ! v), lr_alignment := value_alignment (g_values g ! v)\<rparr>
        = range_of g v"
        using assms [OF True] p by (simp add: range_of_def planned_def value_alignment_64)
      then have "collect_ranges g rs (v # vids) (per, naive, act)
        = collect_ranges g rs vids (per, naive + value_bytes (g_values g ! v), act @ [range_of g v])"
        using p assms [OF True] by (simp add: hbi_graph_value_at_def planned_def Let_def)
      then show ?thesis
        using p Cons.IH [of per "naive + value_bytes (g_values g ! v)" "act @ [range_of g v]"]
        by (simp add: add.assoc)
    next
      case False
      then have "\<exists>q. collect_ranges g rs (v # vids) (per, naive, act) = collect_ranges g rs vids (q, naive, act)"
        using True assms [OF True] by (auto simp: hbi_graph_value_at_def planned_def Let_def)
      then show ?thesis using False Cons.IH by fastforce
    qed
  next
    case False
    then show ?thesis using Cons.IH by (simp add: hbi_graph_value_at_def planned_def)
  qed
qed simp

lemma ranges_after_liveness:
  assumes "length (g_nodes g) \<le> UINT32_MAX" and "v < length (g_values g)"
  shows "let r = liveness g 0 (order_of g) (reset_ranges (length (g_values g)) rs) ! v; u = uses g 0 (order_of g) v in
    lr_value_id r = v \<and> (first_use r = UINT32_MAX \<longleftrightarrow> u = []) \<and>
    (u \<noteq> [] \<longrightarrow> first_use r = hd u \<and> last_use r = foldl max 0 u)"
proof -
  let ?u = "uses g 0 (order_of g) v" and ?r0 = "reset_ranges (length (g_values g)) rs"
  have len: "length (order_of g) \<le> UINT32_MAX" using assms(1) by (simp add: order_of_def)
  have b: "\<forall>i \<in> set ?u. i < UINT32_MAX" using len by (auto simp: uses_def)
  have r0: "?r0 ! v = (rs ! v)\<lparr>lr_value_id := v, first_use := UINT32_MAX, last_use := 0\<rparr>" "v < length ?r0"
    using assms(2) by (simp_all add: reset_ranges_def)
  have "liveness g 0 (order_of g) ?r0 ! v = foldl (\<lambda>r i. widen i r) (?r0 ! v) ?u"
    using liveness_spec(1) [OF r0(2), of 0] len by simp
  then have "liveness g 0 (order_of g) ?r0 ! v = (?r0 ! v)\<lparr>first_use := if ?u \<noteq> [] then hd ?u else UINT32_MAX,
      last_use := foldl max 0 ?u\<rparr>"
    using foldl_widen [OF sorted_uses b, of "?r0 ! v"] r0(1) by simp
  then show ?thesis using r0(1) b by (cases ?u) (auto simp: Let_def)
qed

lemma find_distinct:
  assumes "distinct (map f xs)" and "x \<in> set xs"
  shows "find (\<lambda>y. f y = f x) xs = Some x"
  using assms by (induction xs) (auto simp: rev_image_eqI)

text \<open>The whole run: the plan is the first fit of the permuted ranges of the planned values.\<close>

definition plan_fits :: "hbi_graph \<Rightarrow> bool" where
  "plan_fits g \<longleftrightarrow> length (g_nodes g) \<le> UINT32_MAX \<and>
     (\<Sum>v\<leftarrow>g_values g. unat (value_bytes v) + 64) < 2 ^ 64"

lemma padded_planned:
  "padded (map (range_of g) (filter (planned g) [0..<length (g_values g)]))
    \<le> (\<Sum>v\<leftarrow>g_values g. unat (value_bytes v) + 64)"
proof -
  have "(\<Sum>v\<leftarrow>filter P vs. f v) \<le> (\<Sum>v\<leftarrow>vs. f v)" for P and f :: "nat \<Rightarrow> nat" and vs
    by (induction vs) auto
  from this [of "\<lambda>v. unat (value_bytes (g_values g ! v)) + 64" "planned g" "[0..<length (g_values g)]"]
  have "padded (map (range_of g) (filter (planned g) [0..<length (g_values g)]))
      \<le> (\<Sum>v\<leftarrow>[0..<length (g_values g)]. unat (value_bytes (g_values g ! v)) + 64)"
    by (simp add: range_of_def comp_def)
  also have "\<dots> = (\<Sum>v\<leftarrow>map ((!) (g_values g)) [0..<length (g_values g)]. unat (value_bytes v) + 64)"
    by (simp add: comp_def)
  finally show ?thesis by (simp only: map_nth)
qed

lemma planner_plan_run:
  assumes "plan_fits g" and "pl_graph p = g" and perm: "\<And>xs. mset (qs xs) = mset xs"
  defines "active \<equiv> map (range_of g) (filter (planned g) [0..<length (g_values g)])"
  shows "\<exists>p' ps peak. hbi_memory_planner_plan qs True p = Some (HBI_OK, p') \<and>
    fit_ok (unat peak) ps \<and> mset (map fst ps) = mset active \<and> unat peak \<le> padded active \<and>
    mp_pools (pl_plan p') = [peak] \<and> mp_allocations (pl_plan p') = map snd ps \<and>
    temporary_memory_bytes (mp_stats (pl_plan p')) = peak \<and>
    naive_memory_bytes (mp_stats (pl_plan p')) = (\<Sum>r\<leftarrow>active. lr_size_bytes r) \<and>
    ms_num_allocations (mp_stats (pl_plan p')) = length active"
proof -
  let ?rs = "liveness g 0 (order_of g) (reset_ranges (length (g_values g)) (pl_ranges p))"
  have "\<exists>ps. collect_ranges g ?rs [0..<length (g_values g)] (0, 0, [])
    = (ps, 0 + (\<Sum>v\<leftarrow>filter (planned g) [0..<length (g_values g)]. value_bytes (g_values g ! v)),
       [] @ map (range_of g) (filter (planned g) [0..<length (g_values g)]))"
    by (rule collect_ranges_spec)
      (use ranges_after_liveness [of g] assms(1) in \<open>simp add: plan_fits_def Let_def\<close>)
  then obtain per where c: "collect_ranges g ?rs [0..<length (g_values g)] (0, 0, [])
      = (per, \<Sum>r\<leftarrow>active. lr_size_bytes r, active)"
    unfolding active_def by (simp add: range_of_def comp_def) blast
  have pad: "padded (qs active) = padded active"
    using perm [of active] by (simp only: sum_mset_sum_list [symmetric] mset_map)
  have set: "set (qs active) = set active" using perm by (metis set_mset_mset)
  have "\<forall>r \<in> set (qs active). hbi_is_pow2 (lr_alignment r)"
    unfolding set by (auto simp: active_def range_of_def hbi_is_pow2_def)
  moreover have "padded active < 2 ^ 64"
    using padded_planned [of g] assms(1) by (simp add: plan_fits_def active_def)
  ultimately obtain ps peak where ff: "first_fit (qs active) [] 0 = Some (ps, peak)" "fit_ok (unat peak) ps"
    "map fst ps = qs active" "unat peak \<le> padded active"
    using first_fit_spec [of 0 "[]" "qs active"] pad by (auto simp: fit_ok_def)
  have m: "mset (map fst ps) = mset active" using ff(3) perm by simp
  have "\<exists>p'. hbi_memory_planner_plan qs True p = Some (HBI_OK, p') \<and>
    mp_pools (pl_plan p') = [peak] \<and> mp_allocations (pl_plan p') = map snd ps \<and>
    temporary_memory_bytes (mp_stats (pl_plan p')) = peak \<and>
    naive_memory_bytes (mp_stats (pl_plan p')) = (\<Sum>r\<leftarrow>active. lr_size_bytes r) \<and>
    ms_num_allocations (mp_stats (pl_plan p')) = length active"
    using c ff(1) assms(2)
    by (simp add: hbi_memory_planner_plan_def hbi_graph_execution_order_def hbi_graph_num_nodes_def
        hbi_graph_num_values_def Let_def order_of_def [symmetric])
  then show ?thesis using ff(2,4) m by blast
qed

section \<open>Properties\<close>


lemma get_allocation_iff:
  assumes "fit_ok B ps" and "mp_allocations pl = map snd ps" and "distinct (map (lr_value_id \<circ> fst) ps)"
  shows "hbi_memory_plan_get_allocation (Some pl) v = Inr a \<longleftrightarrow>
    (\<exists>r. (r, a) \<in> set ps \<and> lr_value_id r = v)"
proof -
  have id: "a_value_id a = lr_value_id r" if "(r, a) \<in> set ps" for r a
    using assms(1) that by (auto simp: fit_ok_def)
  then have "map a_value_id (map snd ps) = map (lr_value_id \<circ> fst) ps" by auto
  then have d: "distinct (map a_value_id (map snd ps))" using assms(3) by (rule ssubst)
  have "find (\<lambda>y. a_value_id y = v) (map snd ps) = Some a \<longleftrightarrow> a \<in> set (map snd ps) \<and> a_value_id a = v"
    using find_distinct [OF d, of a] by (auto simp: find_Some_iff)
  moreover have "hbi_memory_plan_get_allocation (Some pl) v = Inr a \<longleftrightarrow>
      find (\<lambda>y. a_value_id y = v) (map snd ps) = Some a"
    by (simp add: hbi_memory_plan_get_allocation_def assms(2) split: option.split)
  moreover have "a \<in> set (map snd ps) \<longleftrightarrow> (\<exists>r. (r, a) \<in> set ps)" by force
  ultimately show ?thesis using id by metis
qed

text \<open>Insertion sort by \<open>compare_live_ranges\<close>, one possible \<open>qsort\<close>.\<close>

fun insert_range :: "hbi_live_range \<Rightarrow> hbi_live_range list \<Rightarrow> hbi_live_range list" where
  "insert_range r [] = [r]"
| "insert_range r (x # xs) = (if compare_live_ranges r x \<le> 0 then r # x # xs else x # insert_range r xs)"

fun isort_ranges :: "hbi_live_range list \<Rightarrow> hbi_live_range list" where
  "isort_ranges [] = []"
| "isort_ranges (x # xs) = insert_range x (isort_ranges xs)"

lemma mset_insert_range: "mset (insert_range r xs) = add_mset r (mset xs)"
  by (induction xs) auto

lemma mset_isort_ranges: "mset (isort_ranges xs) = mset xs"
  by (induction xs) (simp_all add: mset_insert_range)

text \<open>A chain of two nodes: node 0 writes value 0, node 1 reads it and writes value 1.\<close>

definition chain_graph :: hbi_graph where
  "chain_graph = \<lparr>g_nodes = [demo_slot\<lparr>n_num_outputs := 1\<rparr>,
       demo_slot\<lparr>n_num_inputs := 1, n_num_outputs := 1, n_outputs := [1, 0]\<rparr>],
     g_values = [demo_value 0, demo_value 1], execution_order = [0, 1]\<rparr>"

definition chain_planner :: hbi_memory_planner where
  "chain_planner = \<lparr>pl_graph = chain_graph, pl_ranges = [zero_range, zero_range], pl_plan = zero_plan\<rparr>"

lemma chain_values:
  "node_values chain_graph 0 = [0]" "node_values chain_graph (Suc 0) = [0, 1]" "order_of chain_graph = [0, 1]"
  by (simp_all add: node_values_def chain_graph_def demo_slot_def hbi_graph_node_at_def order_of_def)

lemma chain_uses: "uses chain_graph 0 [0, 1] 0 = [0, 1]" "uses chain_graph 0 [0, 1] (Suc 0) = [1]"
  by (simp_all add: uses_def chain_values upt_rec)

lemma chain_planned: "planned chain_graph v \<longleftrightarrow> v < 2"
proof -
  have "length (g_values chain_graph) = 2" "v < 2 \<Longrightarrow> \<not> is_constant (g_values chain_graph ! v) \<and>
      producer_node_id (g_values chain_graph ! v) \<noteq> UINT32_MAX"
    by (auto simp: chain_graph_def demo_value_def UINT32_MAX_def nth_Cons' )
  moreover have "v < 2 \<Longrightarrow> uses chain_graph 0 [0, 1] v \<noteq> []" using chain_uses by (cases v) (auto simp: less_Suc_eq)
  ultimately show ?thesis by (auto simp: planned_def chain_values)
qed

lemma chain_fits: "plan_fits chain_graph" "value_bytes (demo_value k) = 4"
proof -
  show b: "value_bytes (demo_value k) = 4" for k
    by (simp add: value_bytes_def demo_value_def) code_simp
  show "plan_fits chain_graph" by (simp add: plan_fits_def chain_graph_def b UINT32_MAX_def)
qed

text \<open>What a plan promises the executor: who is placed, where, and how far apart.\<close>

definition plan_layout :: "hbi_graph \<Rightarrow> hbi_memory_plan \<Rightarrow> bool" where
  "plan_layout g plan \<longleftrightarrow>
    (let get = hbi_memory_plan_get_allocation (Some plan) in
     (\<forall>v. planned g v \<longleftrightarrow> (\<exists>a. get v = Inr a)) \<and>
     (\<forall>v a. get v = Inr a \<longrightarrow> a_size_bytes a = value_bytes (g_values g ! v) \<and> a_pool_id a = 0 \<and>
        64 dvd unat (a_offset a) \<and> alloc_end a \<le> unat (hbi_memory_plan_pool_size (Some plan) 0)) \<and>
     (\<forall>v w a b t. v \<noteq> w \<and> get v = Inr a \<and> get w = Inr b \<and> live_at g v t \<and> live_at g w t \<longrightarrow> apart_bytes a b))"

lemma plan_layout_ok:
  assumes "plan_fits g" and "pl_graph p = g" and "\<And>xs. mset (qs xs) = mset xs"
  shows "\<exists>p'. hbi_memory_planner_plan qs True p = Some (HBI_OK, p') \<and> plan_layout g (pl_plan p') \<and>
    length (mp_pools (pl_plan p')) = 1"
proof -
  let ?ids = "filter (planned g) [0..<length (g_values g)]"
  obtain p' ps peak where r: "hbi_memory_planner_plan qs True p = Some (HBI_OK, p')"
    "fit_ok (unat peak) ps" "mset (map fst ps) = mset (map (range_of g) ?ids)"
    "mp_pools (pl_plan p') = [peak]" "mp_allocations (pl_plan p') = map snd ps"
    using planner_plan_run [OF assms] by blast
  have ids: "map lr_value_id (map (range_of g) ?ids) = ?ids"
    by (simp add: range_of_def comp_def map_idI)
  have "mset (map lr_value_id (map fst ps)) = mset ?ids" using r(3) ids by (metis mset_map)
  then have d: "distinct (map (lr_value_id \<circ> fst) ps)"
    by (metis distinct_filter distinct_upt map_map mset_eq_imp_distinct_iff)
  note get = get_allocation_iff [OF r(2,5) d]
  have "set (map fst ps) = set (map (range_of g) ?ids)" using r(3) by (metis set_mset_mset)
  moreover have "set ?ids = {v. planned g v}" by (auto simp: planned_def)
  ultimately have mem: "fst ` set ps = range_of g ` {v. planned g v}" by simp
  have rng: "r' = range_of g (lr_value_id r') \<and> planned g (lr_value_id r')" if "(r', a) \<in> set ps" for r' a
  proof -
    have "r' \<in> range_of g ` {v. planned g v}" using mem that by force
    then show ?thesis by (auto simp: range_of_def)
  qed
  have all: "planned g v \<longleftrightarrow> (\<exists>a. hbi_memory_plan_get_allocation (Some (pl_plan p')) v = Inr a)" for v
  proof
    assume "planned g v"
    then have "range_of g v \<in> fst ` set ps" using mem by blast
    then obtain a where "(range_of g v, a) \<in> set ps" by force
    then show "\<exists>a. hbi_memory_plan_get_allocation (Some (pl_plan p')) v = Inr a"
      using get [of v a] by (auto simp: range_of_def)
  next
    assume "\<exists>a. hbi_memory_plan_get_allocation (Some (pl_plan p')) v = Inr a"
    then obtain a where "hbi_memory_plan_get_allocation (Some (pl_plan p')) v = Inr a" ..
    from iffD1 [OF get this] obtain r' where "(r', a) \<in> set ps" "lr_value_id r' = v" by auto
    then show "planned g v" using rng by blast
  qed
  have one: "a_size_bytes a = value_bytes (g_values g ! v) \<and> a_pool_id a = 0 \<and> 64 dvd unat (a_offset a) \<and> alloc_end a \<le> unat peak"
    if g: "hbi_memory_plan_get_allocation (Some (pl_plan p')) v = Inr a" for v a
  proof -
    obtain r' where r': "(r', a) \<in> set ps" "lr_value_id r' = v" using iffD1 [OF get g] by auto
    then have "r' = range_of g v" using rng by blast
    then have "lr_size_bytes r' = value_bytes (g_values g ! v)" "unat (lr_alignment r') = 64"
      by (simp_all add: range_of_def)
    moreover have "alloc_end a \<le> unat peak \<and> unat (lr_alignment r') dvd unat (a_offset a) \<and>
        a_size_bytes a = lr_size_bytes r' \<and> a_pool_id a = 0"
      using r(2) r'(1) by (auto simp: fit_ok_def)
    ultimately show ?thesis by metis
  qed
  have two: "apart_bytes a b" if h: "v \<noteq> w" "hbi_memory_plan_get_allocation (Some (pl_plan p')) v = Inr a"
    "hbi_memory_plan_get_allocation (Some (pl_plan p')) w = Inr b" "live_at g v t" "live_at g w t" for v w a b t
  proof -
    have m: "(range_of g v, a) \<in> set ps" "(range_of g w, b) \<in> set ps"
      using h(2,3) get rng by (metis, metis)
    have o: "time_overlap (range_of g v) (range_of g w)" "time_overlap (range_of g w) (range_of g v)"
      using range_of_live [OF h(4)] range_of_live [OF h(5)] by (auto simp: time_overlap_def)
    obtain i j where ij: "i < length ps" "ps ! i = (range_of g v, a)" "j < length ps" "ps ! j = (range_of g w, b)"
      using m by (metis in_set_conv_nth)
    have "i \<noteq> j" using ij h(1) by (auto simp: range_of_def)
    then have "i < j \<or> j < i" by linarith
    moreover have "apart_bytes (snd (ps ! k)) (snd (ps ! l))"
      if "k < l" "l < length ps" "time_overlap (fst (ps ! l)) (fst (ps ! k))" for k l
      using r(2) that by (auto simp: fit_ok_def sorted_wrt_iff_nth_less)
    ultimately have "apart_bytes a b \<or> apart_bytes b a" using ij o by (metis fst_conv snd_conv)
    then show ?thesis by (auto simp: apart_bytes_def)
  qed
  show ?thesis
    unfolding plan_layout_def Let_def
  proof (intro exI [of _ p'] conjI allI impI)
    show "hbi_memory_planner_plan qs True p = Some (HBI_OK, p')" by (rule r(1))
  next
    fix v a assume "hbi_memory_plan_get_allocation (Some (pl_plan p')) v = Inr a"
    from one [OF this] show "a_size_bytes a = value_bytes (g_values g ! v)" "a_pool_id a = 0" "64 dvd unat (a_offset a)"
      "alloc_end a \<le> unat (hbi_memory_plan_pool_size (Some (pl_plan p')) 0)"
      using r(4) by (auto simp: hbi_memory_plan_pool_size_def)
  next
    show "length (mp_pools (pl_plan p')) = 1" using r(4) by simp
  qed (use all two in blast)+
qed

text \<open>
  C2. Memory plans are safe. For every graph whose padded sizes fit in the address space and every
  \<open>qsort\<close> that permutes its input, planning terminates with success; exactly the produced,
  non-constant values that are used receive an allocation; each allocation has the size of its
  value, is 64-byte aligned and lies inside the pool; and two values that are live at the same step
  of the execution order never share a byte.\<close>

theorem plan_no_clobber:
  assumes "plan_fits g" and "pl_graph p = g" and "\<And>xs. mset (qs xs) = mset xs"
  shows "\<exists>p'. hbi_memory_planner_plan qs True p = Some (HBI_OK, p') \<and>
    (let get = hbi_memory_plan_get_allocation (Some (pl_plan p')) in
     (\<forall>v. planned g v \<longleftrightarrow> (\<exists>a. get v = Inr a)) \<and>
     (\<forall>v a. get v = Inr a \<longrightarrow> a_size_bytes a = value_bytes (g_values g ! v) \<and>
        64 dvd unat (a_offset a) \<and>
        unat (a_offset a) + unat (a_size_bytes a) \<le> unat (hbi_memory_plan_pool_size (Some (pl_plan p')) 0)) \<and>
     (\<forall>v w a b t. v \<noteq> w \<and> get v = Inr a \<and> get w = Inr b \<and> live_at g v t \<and> live_at g w t \<longrightarrow> apart_bytes a b))"
  using plan_layout_ok [OF assms] unfolding plan_layout_def Let_def by blast

theorem plan_no_clobber_witness:
  "\<exists>p' a b. hbi_memory_planner_plan isort_ranges True chain_planner = Some (HBI_OK, p') \<and>
     hbi_memory_plan_get_allocation (Some (pl_plan p')) 0 = Inr a \<and>
     hbi_memory_plan_get_allocation (Some (pl_plan p')) 1 = Inr b \<and> apart_bytes a b"
proof -
  have g: "pl_graph chain_planner = chain_graph" by (simp add: chain_planner_def)
  obtain p' where p': "hbi_memory_planner_plan isort_ranges True chain_planner = Some (HBI_OK, p')"
    "\<forall>v. planned chain_graph v \<longleftrightarrow> (\<exists>a. hbi_memory_plan_get_allocation (Some (pl_plan p')) v = Inr a)"
    "\<forall>v w a b t. v \<noteq> w \<and> hbi_memory_plan_get_allocation (Some (pl_plan p')) v = Inr a \<and>
       hbi_memory_plan_get_allocation (Some (pl_plan p')) w = Inr b \<and> live_at chain_graph v t \<and>
       live_at chain_graph w t \<longrightarrow> apart_bytes a b"
    using plan_no_clobber [OF chain_fits(1) g mset_isort_ranges] unfolding Let_def by blast
  have "planned chain_graph 0" "planned chain_graph 1" by (simp_all add: chain_planned)
  then obtain a b where ab: "hbi_memory_plan_get_allocation (Some (pl_plan p')) 0 = Inr a"
    "hbi_memory_plan_get_allocation (Some (pl_plan p')) 1 = Inr b" using p'(2) by blast
  have "live_at chain_graph 0 1" "live_at chain_graph 1 1"
    by (simp_all add: live_at_def chain_values chain_uses [simplified])
  then have "apart_bytes a b" using p'(3) ab by (metis zero_neq_one)
  then show ?thesis using p'(1) ab by blast
qed



end
