(* ===== verification/Kv.thy ===== *)
theory Kv
  imports Memory Tensor
begin

text \<open>
  The KV cache manager (src/kv): contexts made of pages of key and value tensors, the table of
  active contexts, and the statistics.

  \<^item> A context handle is an object at an address; the manager's state carries the map from the
    addresses of live handles to their contents. Using a handle that is not live is undefined in C:
    the operations return \<open>None\<close> there, so a theorem that an operation returns \<open>Some\<close> excludes use
    after free and double free.
  \<^item> The table of contexts is the whole C array, including the entries past \<open>num_contexts\<close>, because
    \<open>hbi_kv_manager_destroy\<close> reads them.
  \<^item> The page allocator of a manager is a vtable: it is a parameter, and the built-in contiguous
    allocator is an instance. Copying between pages goes through the tensor slices of the tensor
    component; when a slice fails, the source goes on with an uninitialised descriptor, which is
    \<open>None\<close> again.
  \<^item> Token counts are \<open>uint32_t\<close> words, byte counts \<open>size_t\<close> words; mutexes are omitted, each
    operation is one step.
\<close>

section \<open>Data\<close>

record hbi_kv_page =
  k_tensor :: hbi_tensor
  v_tensor :: hbi_tensor
  pg_capacity :: u32
  pg_num_tokens :: u32

record hbi_context_state =
  cs_total_tokens :: u32
  cs_max_tokens :: u32
  cs_num_pages :: nat

record hbi_context_handle =
  total_tokens :: u32
  max_tokens :: u32
  pages :: "hbi_kv_page list"
  h_dtype :: hbi_dtype
  k_shape :: hbi_shape
  v_shape :: hbi_shape

record hbi_kv_statistics =
  active_contexts :: u32
  peak_contexts :: u32
  current_memory_bytes :: u64
  kv_peak_memory_bytes :: u64
  total_allocations :: u64
  total_frees :: u64

type_synonym kv_allocate =
  "u32 \<Rightarrow> hbi_dtype \<Rightarrow> hbi_shape \<Rightarrow> hbi_shape \<Rightarrow> memory \<Rightarrow> (hbi_kv_page list \<times> memory) outcome"

definition HBI_KV_MAX_CONTEXTS :: nat where
  "HBI_KV_MAX_CONTEXTS = 1024"

record hbi_kv_manager =
  stats :: hbi_kv_statistics
  contexts :: "nat list"
  num_contexts :: nat
  handles :: "nat \<rightharpoonup> hbi_context_handle"
  mem :: memory

section \<open>The contiguous allocator\<close>

text \<open>One page; \<open>kbuf\<close> and \<open>vbuf\<close> are the buffers the tensor allocations obtain (0 is NULL).\<close>

definition hbi_kv_allocator_contiguous_allocate :: "bool \<Rightarrow> nat \<Rightarrow> nat \<Rightarrow> kv_allocate" where
  "hbi_kv_allocator_contiguous_allocate page_ok kbuf vbuf capacity dt ks vs m =
     (if \<not> page_ok then Inl HBI_ERR_OOM
      else rbind (hbi_tensor_alloc_aligned dt (Some ks) HBI_TENSOR_DEFAULT_ALIGN kbuf m) (\<lambda>(k, m1).
        rbind (hbi_tensor_alloc_aligned dt (Some vs) HBI_TENSOR_DEFAULT_ALIGN vbuf m1) (\<lambda>(v, m2).
          Inr ([\<lparr>k_tensor = k, v_tensor = v, pg_capacity = capacity, pg_num_tokens = 0\<rparr>], m2))))"

text \<open>The buffers that freeing the pages returns.\<close>

definition hbi_kv_allocator_contiguous_free :: "hbi_kv_page list \<Rightarrow> nat list" where
  "hbi_kv_allocator_contiguous_free ps =
     concat (map (\<lambda>p. fst (hbi_tensor_destroy (Some (k_tensor p))) @ fst (hbi_tensor_destroy (Some (v_tensor p)))) ps)"

section \<open>Manager and context lifecycle\<close>

definition hbi_kv_manager_create :: "bool \<Rightarrow> bool \<Rightarrow> bool \<Rightarrow> memory \<Rightarrow> hbi_kv_manager outcome" where
  "hbi_kv_manager_create base_given alloc_ok mutex_ok m =
     (if \<not> base_given then Inl HBI_ERR_INVALID_ARG
      else if \<not> alloc_ok \<or> \<not> mutex_ok then Inl HBI_ERR_OOM
      else Inr \<lparr>stats = \<lparr>active_contexts = 0, peak_contexts = 0, current_memory_bytes = 0,
                 kv_peak_memory_bytes = 0, total_allocations = 0, total_frees = 0\<rparr>,
               contexts = replicate HBI_KV_MAX_CONTEXTS 0, num_contexts = 0,
               handles = Map.empty, mem = m\<rparr>)"

definition hbi_kv_manager_get_statistics :: "hbi_kv_manager ptr \<Rightarrow> hbi_kv_statistics outcome" where
  "hbi_kv_manager_get_statistics m = (case m of None \<Rightarrow> Inl HBI_ERR_INVALID_ARG | Some m \<Rightarrow> Inr (stats m))"

definition context_bytes :: "hbi_context_handle \<Rightarrow> u64" where
  "context_bytes h =
     (of_nat (hbi_tensor_nbytes (Some (k_tensor (pages h ! 0))))
      + of_nat (hbi_tensor_nbytes (Some (v_tensor (pages h ! 0))))) * of_nat (length (pages h))"

definition raise_peak :: "hbi_kv_statistics \<Rightarrow> hbi_kv_statistics" where
  "raise_peak s =
     (if current_memory_bytes s > kv_peak_memory_bytes s
      then s\<lparr>kv_peak_memory_bytes := current_memory_bytes s\<rparr> else s)"

text \<open>\<open>addr\<close> is the address the handle allocation returns (0 is NULL).\<close>

definition hbi_kv_context_create ::
  "kv_allocate \<Rightarrow> nat \<Rightarrow> hbi_kv_manager \<Rightarrow> u32 \<Rightarrow> hbi_dtype \<Rightarrow> hbi_shape \<Rightarrow> hbi_shape \<Rightarrow>
     hbi_status \<times> hbi_kv_manager" where
  "hbi_kv_context_create allocate addr m maxt dt ks vs =
     (if num_contexts m \<ge> HBI_KV_MAX_CONTEXTS then (HBI_ERR_OOM, m)
      else if addr = 0 then (HBI_ERR_OOM, m)
      else case allocate maxt dt ks vs (mem m) of
        Inl st \<Rightarrow> (st, m)
      | Inr (pgs, mem') \<Rightarrow>
          let ctx = \<lparr>total_tokens = 0, max_tokens = maxt, pages = pgs, h_dtype = dt,
                     k_shape = ks, v_shape = vs\<rparr>;
              s = stats m;
              s1 = s\<lparr>active_contexts := active_contexts s + 1\<rparr>;
              s2 = (if active_contexts s1 > peak_contexts s1
                    then s1\<lparr>peak_contexts := active_contexts s1\<rparr> else s1);
              s3 = s2\<lparr>total_allocations := total_allocations s2 + 1,
                      current_memory_bytes := current_memory_bytes s2 + context_bytes ctx\<rparr>
          in (HBI_OK, m\<lparr>contexts := (contexts m)[num_contexts m := addr],
                num_contexts := num_contexts m + 1, stats := raise_peak s3,
                handles := (handles m)(addr \<mapsto> ctx), mem := mem'\<rparr>))"

text \<open>The search loop that removes a handle from the table by moving the last entry down.\<close>

fun remove_context :: "nat \<Rightarrow> nat list \<Rightarrow> nat list \<Rightarrow> nat \<Rightarrow> nat list \<times> nat" where
  "remove_context h [] arr n = (arr, n)"
| "remove_context h (i # is) arr n =
     (if arr ! i = h then (arr[i := arr ! (n - 1)], n - 1) else remove_context h is arr n)"

definition hbi_kv_context_destroy :: "hbi_kv_manager \<Rightarrow> nat \<Rightarrow> hbi_kv_manager option" where
  "hbi_kv_context_destroy m h =
     (if h = 0 then Some m
      else case handles m h of
        None \<Rightarrow> None
      | Some ctx \<Rightarrow>
          let s = stats m;
              s1 = s\<lparr>current_memory_bytes := current_memory_bytes s - context_bytes ctx,
                     active_contexts := active_contexts s - 1, total_frees := total_frees s + 1\<rparr>
          in case remove_context h [0..<num_contexts m] (contexts m) (num_contexts m) of
               (arr, n) \<Rightarrow>
                 Some (m\<lparr>stats := s1, contexts := arr, num_contexts := n, handles := (handles m)(h := None)\<rparr>))"

fun destroy_loop :: "nat list \<Rightarrow> hbi_kv_manager \<Rightarrow> hbi_kv_manager option" where
  "destroy_loop [] m = Some m"
| "destroy_loop (i # is) m =
     (if contexts m ! i \<noteq> 0 then
        (case hbi_kv_context_destroy m (contexts m ! i) of
           None \<Rightarrow> None
         | Some m' \<Rightarrow> destroy_loop is m')
      else destroy_loop is m)"

text \<open>The state of the manager just before it is released.\<close>

definition hbi_kv_manager_destroy :: "hbi_kv_manager \<Rightarrow> hbi_kv_manager option" where
  "hbi_kv_manager_destroy m = destroy_loop [0..<num_contexts m] m"

section \<open>Context operations\<close>

definition hbi_kv_context_reset :: "hbi_context_handle ptr \<Rightarrow> hbi_status \<times> hbi_context_handle ptr" where
  "hbi_kv_context_reset h =
     (case h of
        None \<Rightarrow> (HBI_ERR_INVALID_ARG, None)
      | Some h \<Rightarrow> (HBI_OK, Some (h\<lparr>total_tokens := 0, pages := map (\<lambda>p. p\<lparr>pg_num_tokens := 0\<rparr>) (pages h)\<rparr>)))"

definition hbi_kv_context_get_state :: "hbi_context_handle ptr \<Rightarrow> hbi_context_state outcome" where
  "hbi_kv_context_get_state h =
     (case h of
        None \<Rightarrow> Inl HBI_ERR_INVALID_ARG
      | Some h \<Rightarrow> Inr \<lparr>cs_total_tokens = total_tokens h, cs_max_tokens = max_tokens h,
                     cs_num_pages = length (pages h)\<rparr>)"

fun distribute :: "hbi_kv_page list \<Rightarrow> u32 \<Rightarrow> hbi_kv_page list" where
  "distribute [] n = []"
| "distribute (p # ps) n =
     (if n = 0 then p # ps
      else let avail = pg_capacity p - pg_num_tokens p;
               tk = (if avail < n then avail else n)
           in p\<lparr>pg_num_tokens := pg_num_tokens p + tk\<rparr> # distribute ps (n - tk))"

definition hbi_kv_context_append_tokens ::
  "hbi_context_handle ptr \<Rightarrow> u32 \<Rightarrow> hbi_status \<times> hbi_context_handle ptr" where
  "hbi_kv_context_append_tokens h n =
     (case h of
        None \<Rightarrow> (HBI_ERR_INVALID_ARG, None)
      | Some h \<Rightarrow>
          if total_tokens h + n > max_tokens h then (HBI_ERR_INVALID_ARG, Some h)
          else (HBI_OK, Some (h\<lparr>pages := distribute (pages h) n, total_tokens := total_tokens h + n\<rparr>)))"

fun truncate_pages :: "hbi_kv_page list \<Rightarrow> u32 \<Rightarrow> u32 \<Rightarrow> hbi_kv_page list" where
  "truncate_pages [] tot retain = []"
| "truncate_pages (p # ps) tot retain =
     (let p' = (if tot + pg_num_tokens p > retain then p\<lparr>pg_num_tokens := retain - tot\<rparr> else p)
      in p' # truncate_pages ps (tot + pg_num_tokens p') retain)"

definition hbi_kv_context_truncate ::
  "hbi_context_handle ptr \<Rightarrow> u32 \<Rightarrow> hbi_status \<times> hbi_context_handle ptr" where
  "hbi_kv_context_truncate h retain =
     (case h of
        None \<Rightarrow> (HBI_ERR_INVALID_ARG, None)
      | Some h \<Rightarrow>
          if retain \<ge> total_tokens h then (HBI_OK, Some h)
          else (HBI_OK, Some (h\<lparr>pages := truncate_pages (pages h) 0 retain, total_tokens := retain\<rparr>)))"

definition hbi_kv_context_get_page :: "hbi_context_handle ptr \<Rightarrow> nat \<Rightarrow> hbi_kv_page outcome" where
  "hbi_kv_context_get_page h i =
     (case h of
        None \<Rightarrow> Inl HBI_ERR_INVALID_ARG
      | Some h \<Rightarrow> if i \<ge> length (pages h) then Inl HBI_ERR_INVALID_ARG else Inr (pages h ! i))"

section \<open>Copying pages\<close>

text \<open>Copy the first \<open>n\<close> rows along axis 0; the status of the copy is ignored, as in the source.\<close>

definition copy_rows :: "hbi_tensor \<Rightarrow> hbi_tensor \<Rightarrow> u32 \<Rightarrow> memory \<Rightarrow> memory option" where
  "copy_rows src dst n m =
     (case (hbi_tensor_slice (Some src) 0 0 (uint n), hbi_tensor_slice (Some dst) 0 0 (uint n)) of
        (Inr a, Inr b) \<Rightarrow>
          (case hbi_tensor_copy_into (Some a) (Some b) m of Inl _ \<Rightarrow> Some m | Inr m' \<Rightarrow> Some m')
      | _ \<Rightarrow> None)"

text \<open>The loop over the pages of the source; the loop of the resize also stops at the end of the new pages.\<close>

fun copy_pages :: "hbi_kv_page list \<Rightarrow> hbi_kv_page list \<Rightarrow> memory \<Rightarrow> (hbi_kv_page list \<times> memory) option" where
  "copy_pages (s # ss) (d # ds) m =
     (let d' = d\<lparr>pg_num_tokens := pg_num_tokens s\<rparr> in
      case (if pg_num_tokens s > 0
            then Option.bind (copy_rows (k_tensor s) (k_tensor d) (pg_num_tokens s) m)
                   (\<lambda>m1. copy_rows (v_tensor s) (v_tensor d) (pg_num_tokens s) m1)
            else Some m) of
        None \<Rightarrow> None
      | Some m' \<Rightarrow>
          (case copy_pages ss ds m' of
             None \<Rightarrow> None
           | Some (ds', m'') \<Rightarrow> Some (d' # ds', m'')))"
| "copy_pages ss ds m = Some (ds, m)"

text \<open>The clone loop runs over the pages of the source and does not look at the number of new pages.\<close>

definition hbi_kv_context_clone ::
  "kv_allocate \<Rightarrow> nat \<Rightarrow> hbi_kv_manager \<Rightarrow> nat \<Rightarrow> (hbi_status \<times> hbi_kv_manager) option" where
  "hbi_kv_context_clone allocate addr m src =
     (if src = 0 then Some (HBI_ERR_INVALID_ARG, m)
      else case handles m src of
        None \<Rightarrow> None
      | Some s \<Rightarrow>
          (case hbi_kv_context_create allocate addr m (max_tokens s) (h_dtype s) (k_shape s) (v_shape s) of
             (st, m1) \<Rightarrow>
               if st \<noteq> HBI_OK then Some (st, m1)
               else case handles m1 addr of
                 None \<Rightarrow> None
               | Some dst \<Rightarrow>
                   if length (pages s) > length (pages dst) then None
                   else case copy_pages (pages s) (pages dst) (mem m1) of
                     None \<Rightarrow> None
                   | Some (ds, mem') \<Rightarrow>
                       Some (HBI_OK, m1\<lparr>handles := (handles m1)(addr \<mapsto>
                         dst\<lparr>total_tokens := total_tokens s, pages := ds\<rparr>), mem := mem'\<rparr>)))"

definition grow_shape :: "u32 \<Rightarrow> u32 \<Rightarrow> hbi_shape \<Rightarrow> hbi_shape" where
  "grow_shape old_max new_max sh =
     sh\<lparr>dims := map (\<lambda>(i, d). if i < rank sh \<and> d = uint old_max then uint new_max else d)
              (enumerate 0 (dims sh))\<rparr>"

definition shrink_pages :: "u32 \<Rightarrow> hbi_kv_page list \<Rightarrow> hbi_kv_page list" where
  "shrink_pages n ps = map (\<lambda>p. if pg_num_tokens p > n then p\<lparr>pg_num_tokens := n\<rparr> else p) ps"

definition hbi_kv_context_resize ::
  "kv_allocate \<Rightarrow> hbi_kv_manager \<Rightarrow> nat \<Rightarrow> u32 \<Rightarrow> (hbi_status \<times> hbi_kv_manager) option" where
  "hbi_kv_context_resize allocate m h new_max =
     (if h = 0 then Some (HBI_ERR_INVALID_ARG, m)
      else case handles m h of
        None \<Rightarrow> None
      | Some c \<Rightarrow>
          let old_max = max_tokens c in
          if new_max = old_max then Some (HBI_OK, m)
          else if new_max < old_max then
            Some (HBI_OK, m\<lparr>handles := (handles m)(h \<mapsto>
              c\<lparr>max_tokens := new_max,
                total_tokens := (if total_tokens c > new_max then new_max else total_tokens c),
                pages := shrink_pages new_max (pages c)\<rparr>)\<rparr>)
          else
            let nk = grow_shape old_max new_max (k_shape c); nv = grow_shape old_max new_max (v_shape c) in
            case allocate new_max (h_dtype c) nk nv (mem m) of
              Inl st \<Rightarrow> Some (st, m)
            | Inr (new_pages, mem1) \<Rightarrow>
                (case copy_pages (pages c) new_pages mem1 of
                   None \<Rightarrow> None
                 | Some (np, mem2) \<Rightarrow>
                     let c' = c\<lparr>pages := np, max_tokens := new_max, k_shape := nk, v_shape := nv\<rparr>;
                         s = stats m;
                         s1 = s\<lparr>current_memory_bytes := current_memory_bytes s - context_bytes c + context_bytes c'\<rparr>
                     in Some (HBI_OK, m\<lparr>stats := raise_peak s1, handles := (handles m)(h \<mapsto> c'), mem := mem2\<rparr>)))"

section \<open>The table of contexts and the statistics\<close>

definition kv_inv :: "hbi_kv_manager \<Rightarrow> bool" where
  "kv_inv m \<longleftrightarrow> length (contexts m) = HBI_KV_MAX_CONTEXTS \<and> num_contexts m \<le> HBI_KV_MAX_CONTEXTS \<and>
     distinct (take (num_contexts m) (contexts m)) \<and>
     set (take (num_contexts m) (contexts m)) = dom (handles m) \<and> 0 \<notin> dom (handles m) \<and>
     current_memory_bytes (stats m) = msum (handles m) context_bytes \<and>
     active_contexts (stats m) = of_nat (num_contexts m) \<and>
     total_allocations (stats m) = total_frees (stats m) + of_nat (num_contexts m)"

lemma kv_inv_finite: "kv_inv m \<Longrightarrow> finite (dom (handles m))"
  by (metis kv_inv_def List.finite_set)

lemma kv_inv_card:
  assumes "kv_inv m"
  shows "card (dom (handles m)) = num_contexts m"
proof -
  have "length (take (num_contexts m) (contexts m)) = num_contexts m"
    using assms by (simp add: kv_inv_def)
  then show ?thesis using assms distinct_card by (metis kv_inv_def)
qed

lemma raise_peak_keeps [simp]:
  "current_memory_bytes (raise_peak s) = current_memory_bytes s"
  "active_contexts (raise_peak s) = active_contexts s"
  "total_allocations (raise_peak s) = total_allocations s"
  "total_frees (raise_peak s) = total_frees s"
  by (simp_all add: raise_peak_def)

lemma create_inv:
  assumes inv: "kv_inv m" and c: "hbi_kv_context_create allocate addr m maxt dt ks vs = (st, m')"
    and fresh: "addr \<notin> dom (handles m)"
  shows "kv_inv m'"
proof (cases "m' = m")
  case False
  then obtain pgs mem' where n: "num_contexts m < HBI_KV_MAX_CONTEXTS" "addr \<noteq> 0"
    "allocate maxt dt ks vs (mem m) = Inr (pgs, mem')"
    using c by (auto simp: hbi_kv_context_create_def not_le split: if_splits sum.splits)
  let ?ctx = "\<lparr>total_tokens = 0, max_tokens = maxt, pages = pgs, h_dtype = dt, k_shape = ks, v_shape = vs\<rparr>"
  have m': "contexts m' = (contexts m)[num_contexts m := addr]" "num_contexts m' = num_contexts m + 1"
    "handles m' = (handles m)(addr \<mapsto> ?ctx)"
    "current_memory_bytes (stats m') = current_memory_bytes (stats m) + context_bytes ?ctx"
    "active_contexts (stats m') = active_contexts (stats m) + 1"
    "total_allocations (stats m') = total_allocations (stats m) + 1" "total_frees (stats m') = total_frees (stats m)"
    using c n by (auto simp: hbi_kv_context_create_def Let_def)
  have t: "take (num_contexts m + 1) ((contexts m)[num_contexts m := addr]) = take (num_contexts m) (contexts m) @ [addr]"
    using n(1) inv by (simp add: kv_inv_def take_Suc_conv_app_nth)
  show ?thesis
    unfolding kv_inv_def m' t
    using inv n fresh kv_inv_finite [OF inv] by (auto simp: kv_inv_def msum_upd)
qed (use inv in simp)

lemma swap_remove:
  assumes "distinct xs" and "k < length xs"
  shows "distinct (take (length xs - 1) (xs[k := last xs]))"
    and "set (take (length xs - 1) (xs[k := last xs])) = set xs - {xs ! k}"
proof -
  obtain zs l where xs: "xs = zs @ [l]" using assms(2) by (cases xs rule: rev_cases) auto
  have t: "take (length xs - 1) (xs[k := last xs]) = (if k < length zs then zs[k := l] else zs)"
    using assms(2) by (simp add: xs list_update_append)
  show "distinct (take (length xs - 1) (xs[k := last xs]))"
    unfolding t using assms by (auto simp: xs intro!: distinct_list_update)
  show "set (take (length xs - 1) (xs[k := last xs])) = set xs - {xs ! k}"
    unfolding t using assms by (auto simp: xs nth_append set_update_distinct)
qed

lemma remove_context_spec:
  assumes "\<exists>i \<in> set is. arr ! i = h"
  shows "\<exists>k \<in> set is. arr ! k = h \<and> remove_context h is arr n = (arr[k := arr ! (n - 1)], n - 1)"
  using assms by (induction "is") auto

lemma destroy_spec:
  assumes inv: "kv_inv m" and h: "handles m h = Some c"
  shows "\<exists>m' k. hbi_kv_context_destroy m h = Some m' \<and> kv_inv m' \<and> handles m' = (handles m)(h := None) \<and>
    k < num_contexts m \<and> contexts m ! k = h \<and>
    contexts m' = (contexts m)[k := contexts m ! (num_contexts m - 1)] \<and> num_contexts m' = num_contexts m - 1"
proof -
  let ?n = "num_contexts m" and ?a = "contexts m"
  have i: "?n \<le> length ?a" "distinct (take ?n ?a)" "set (take ?n ?a) = dom (handles m)" "h \<noteq> 0"
    "length ?a = HBI_KV_MAX_CONTEXTS" "?n \<le> HBI_KV_MAX_CONTEXTS"
    using inv h by (auto simp: kv_inv_def)
  have "h \<in> set (take ?n ?a)" using i(3) h by auto
  then obtain j where "j < length (take ?n ?a)" "take ?n ?a ! j = h" by (auto simp: in_set_conv_nth)
  then have "\<exists>j \<in> set [0..<?n]. ?a ! j = h" by auto
  then obtain k where k: "k < ?n" "?a ! k = h"
    "remove_context h [0..<?n] ?a ?n = (?a[k := ?a ! (?n - 1)], ?n - 1)"
    using remove_context_spec by (metis atLeastLessThan_iff set_upt)
  have len: "length (take ?n ?a) = ?n" "take ?n ?a \<noteq> []" using i(1) k(1) by auto
  have last: "last (take ?n ?a) = ?a ! (?n - 1)" using len k(1) by (simp add: last_conv_nth)
  have "take (?n - 1) (?a[k := ?a ! (?n - 1)]) = take (length (take ?n ?a) - 1) ((take ?n ?a)[k := last (take ?n ?a)])"
    unfolding last len(1) using k(1) by (simp add: take_update_swap)
  then have t: "distinct (take (?n - 1) (?a[k := ?a ! (?n - 1)]))"
    "set (take (?n - 1) (?a[k := ?a ! (?n - 1)])) = dom (handles m) - {h}"
    using swap_remove [OF i(2), of k] len(1) k i(3) by auto
  have one: "(of_nat (?n - 1) :: 32 word) = of_nat ?n - 1" "(of_nat (?n - 1) :: 64 word) = of_nat ?n - 1"
    using k(1) by (simp_all add: of_nat_diff)
  obtain m' where m': "hbi_kv_context_destroy m h = Some m'" "contexts m' = ?a[k := ?a ! (?n - 1)]"
    "num_contexts m' = ?n - 1" "handles m' = (handles m)(h := None)"
    "current_memory_bytes (stats m') = current_memory_bytes (stats m) - context_bytes c"
    "active_contexts (stats m') = active_contexts (stats m) - 1"
    "total_frees (stats m') = total_frees (stats m) + 1" "total_allocations (stats m') = total_allocations (stats m)"
    using h i(4) k(3) by (auto simp: hbi_kv_context_destroy_def Let_def)
  have "kv_inv m'"
    unfolding kv_inv_def m'(2-8)
    using inv i t msum_del [OF kv_inv_finite [OF inv] h] by (auto simp: kv_inv_def one [simplified])
  then show ?thesis using m' k by blast
qed

text \<open>
  When entry \<open>i\<close> is destroyed, the entries above \<open>i\<close> still are the original ones, although the last
  active entry has been moved down each time.
\<close>

lemma destroy_loop_spec:
  assumes "kv_inv m" and "num_contexts m = N - i" and "i \<le> N"
    and "\<And>j. i \<le> j \<Longrightarrow> j < N \<Longrightarrow> contexts m ! j = A ! j" and "dom (handles m) = (!) A ` {i..<N}"
    and "inj_on ((!) A) {..<N}"
  shows "\<exists>m'. destroy_loop [i..<N] m = Some m' \<and> kv_inv m' \<and> handles m' = Map.empty"
  using assms
proof (induction "N - i" arbitrary: i m)
  case 0
  then show ?case by auto
next
  case (Suc d)
  then have i: "i < N" "[i..<N] = i # [Suc i..<N]" by (simp_all add: upt_conv_Cons)
  have a: "contexts m ! i = A ! i" using Suc.prems(4) i by simp
  then have "A ! i \<in> dom (handles m)" using Suc.prems(5) i by auto
  then obtain c where c: "handles m (A ! i) = Some c" by auto
  have nz: "A ! i \<noteq> 0" using c Suc.prems(1) by (auto simp: kv_inv_def)
  obtain m' k where m': "hbi_kv_context_destroy m (A ! i) = Some m'" "kv_inv m'"
    "handles m' = (handles m)(A ! i := None)" "k < num_contexts m" "contexts m ! k = A ! i"
    "contexts m' = (contexts m)[k := contexts m ! (num_contexts m - 1)]" "num_contexts m' = num_contexts m - 1"
    using destroy_spec [OF Suc.prems(1) c] by blast
  have "k \<le> i"
  proof (rule ccontr)
    assume "\<not> k \<le> i"
    moreover have "k < N" using m'(4) Suc.prems(2) by simp
    ultimately have "A ! k = A ! i" using Suc.prems(4) [of k] m'(5) by simp
    then show False using Suc.prems(6) \<open>\<not> k \<le> i\<close> \<open>k < N\<close> i(1) by (auto dest: inj_onD)
  qed
  then have up: "contexts m' ! j = A ! j" if "Suc i \<le> j" "j < N" for j
    using m'(6) Suc.prems(4) that by simp
  have "(!) A ` {Suc i..<N} = (!) A ` {i..<N} - {A ! i}"
  proof -
    have "{i..<N} = insert i {Suc i..<N}" using i(1) by auto
    moreover have "A ! i \<notin> (!) A ` {Suc i..<N}" using Suc.prems(6) i(1) by (auto dest: inj_onD)
    ultimately show ?thesis by simp
  qed
  then have dom: "dom (handles m') = (!) A ` {Suc i..<N}" using m'(3) Suc.prems(5) by simp
  have "\<exists>m''. destroy_loop [Suc i..<N] m' = Some m'' \<and> kv_inv m'' \<and> handles m'' = Map.empty"
    using Suc.hyps(1) [of "Suc i" m'] Suc.hyps(2) Suc.prems(2,6) m'(2,7) i(1) up dom by auto
  then show ?case using i(2) a nz m'(1) by simp
qed

lemma msum_replace:
  assumes "finite (dom m)" and "m u = Some h"
  shows "msum (m(u \<mapsto> h')) f = msum m f - f h + f h'"
proof -
  have "msum ((m(u := None))(u \<mapsto> h')) f = msum (m(u := None)) f + f h'"
    using assms(1) by (intro msum_upd) auto
  then show ?thesis using msum_del [OF assms] by simp
qed

text \<open>The operations on one context leave its tensors alone, so its bytes do not change.\<close>

definition tensors_of :: "hbi_kv_page list \<Rightarrow> (hbi_tensor \<times> hbi_tensor) list" where
  "tensors_of ps = map (\<lambda>p. (k_tensor p, v_tensor p)) ps"

lemma context_bytes_cong:
  assumes "tensors_of (pages c) = tensors_of (pages d)"
  shows "context_bytes c = context_bytes d"
proof (cases "pages c")
  case Nil
  then show ?thesis using assms by (simp add: tensors_of_def context_bytes_def)
next
  case (Cons p ps)
  then obtain q qs where q: "pages d = q # qs" using assms by (cases "pages d") (auto simp: tensors_of_def)
  then have "k_tensor p = k_tensor q" "v_tensor p = v_tensor q" "length ps = length qs"
    using assms Cons by (auto simp: tensors_of_def dest: map_eq_imp_length_eq)
  then show ?thesis using Cons q by (simp add: context_bytes_def)
qed

lemma tensors_distribute: "tensors_of (distribute ps n) = tensors_of ps"
  by (induction ps n rule: distribute.induct) (auto simp: tensors_of_def Let_def)

lemma tensors_truncate: "tensors_of (truncate_pages ps t n) = tensors_of ps"
  by (induction ps t n rule: truncate_pages.induct) (auto simp: tensors_of_def Let_def)

lemma tensors_shrink: "tensors_of (shrink_pages n ps) = tensors_of ps"
  by (simp add: tensors_of_def shrink_pages_def)

lemma tensors_copy: "copy_pages ss ds m = Some (ds', m') \<Longrightarrow> tensors_of ds' = tensors_of ds"
proof (induction ss arbitrary: ds m ds' m')
  case (Cons s ss)
  show ?case
  proof (cases ds)
    case c: (Cons d ds1)
    let ?r = "if pg_num_tokens s > 0
      then Option.bind (copy_rows (k_tensor s) (k_tensor d) (pg_num_tokens s) m)
             (\<lambda>m1. copy_rows (v_tensor s) (v_tensor d) (pg_num_tokens s) m1)
      else Some m"
    obtain m1 where m1: "?r = Some m1" using Cons.prems c by (cases ?r) (simp_all only: copy_pages.simps Let_def option.case, simp)
    obtain x y where x: "copy_pages ss ds1 m1 = Some (x, y)"
      using Cons.prems c m1 by (cases "copy_pages ss ds1 m1") (simp_all add: Let_def, force)
    have "ds' = d\<lparr>pg_num_tokens := pg_num_tokens s\<rparr> # x" using Cons.prems c m1 x by (simp add: Let_def)
    then show ?thesis using Cons.IH [OF x] c by (simp add: tensors_of_def)
  qed (use Cons.prems in simp)
qed simp

lemma replace_inv:
  assumes inv: "kv_inv m" and h: "handles m h = Some c"
    and st: "current_memory_bytes s = current_memory_bytes (stats m) - context_bytes c + context_bytes c'"
    "active_contexts s = active_contexts (stats m)" "total_allocations s = total_allocations (stats m)"
    "total_frees s = total_frees (stats m)"
  shows "kv_inv (m\<lparr>stats := s, handles := (handles m)(h \<mapsto> c'), mem := x\<rparr>)"
proof -
  have "dom ((handles m)(h \<mapsto> c')) = dom (handles m)" using h by auto
  moreover have "current_memory_bytes s = msum ((handles m)(h \<mapsto> c')) context_bytes"
    unfolding msum_replace [OF kv_inv_finite [OF inv] h] using inv st(1) by (simp add: kv_inv_def)
  ultimately show ?thesis
    using inv st(2-4) unfolding kv_inv_def by (simp del: dom_fun_upd fun_upd_apply)
qed

lemma update_inv:
  assumes "kv_inv m" and "handles m h = Some c" and "tensors_of (pages c') = tensors_of (pages c)"
  shows "kv_inv (m\<lparr>handles := (handles m)(h \<mapsto> c')\<rparr>)"
proof -
  have "m\<lparr>handles := (handles m)(h \<mapsto> c')\<rparr> = m\<lparr>stats := stats m, handles := (handles m)(h \<mapsto> c'), mem := mem m\<rparr>"
    by simp
  then show ?thesis
    using replace_inv [OF assms(1,2), of "stats m" c' "mem m"] context_bytes_cong [OF assms(3)] by simp
qed

lemma clone_inv:
  assumes inv: "kv_inv m" and cl: "hbi_kv_context_clone allocate addr m src = Some (st, m')"
    and fresh: "addr \<notin> dom (handles m)"
  shows "kv_inv m'"
proof (cases "src = 0")
  case True
  then show ?thesis using cl inv by (simp add: hbi_kv_context_clone_def)
next
  case False
  then obtain s where s: "handles m src = Some s"
    using cl by (cases "handles m src") (simp_all add: hbi_kv_context_clone_def)
  obtain st1 m1 where c: "hbi_kv_context_create allocate addr m (max_tokens s) (h_dtype s) (k_shape s) (v_shape s) = (st1, m1)"
    by fastforce
  have i1: "kv_inv m1" using create_inv [OF inv c fresh] .
  note u = cl [unfolded hbi_kv_context_clone_def if_not_P [OF False] s option.case c prod.case]
  show ?thesis
  proof (cases "st1 = HBI_OK")
    case True
    then obtain dst where d: "handles m1 addr = Some dst" using u by (cases "handles m1 addr") simp_all
    then obtain ds mem' where ds: "copy_pages (pages s) (pages dst) (mem m1) = Some (ds, mem')"
      using u True by (cases "copy_pages (pages s) (pages dst) (mem m1)") (auto split: if_splits)
    let ?c = "dst\<lparr>total_tokens := total_tokens s, pages := ds\<rparr>"
    have "context_bytes ?c = context_bytes dst" using tensors_copy [OF ds] by (intro context_bytes_cong) simp
    then have "kv_inv (m1\<lparr>stats := stats m1, handles := (handles m1)(addr \<mapsto> ?c), mem := mem'\<rparr>)"
      by (intro replace_inv [OF i1 d]) simp_all
    moreover have "m' = m1\<lparr>stats := stats m1, handles := (handles m1)(addr \<mapsto> ?c), mem := mem'\<rparr>"
      using u True d ds by (simp split: if_splits)
    ultimately show ?thesis by simp
  qed (use u i1 in simp)
qed

lemma resize_inv:
  assumes inv: "kv_inv m" and r: "hbi_kv_context_resize allocate m h n = Some (st, m')"
  shows "kv_inv m'"
proof -
  have "m' = m \<or> (\<exists>c. handles m h = Some c)"
    using r by (auto simp: hbi_kv_context_resize_def split: if_splits option.splits)
  then show ?thesis
  proof
    assume "\<exists>c. handles m h = Some c"
    then obtain c where c: "handles m h = Some c" ..
    consider "m' = m" | c' where "m' = m\<lparr>handles := (handles m)(h \<mapsto> c')\<rparr>" "pages c' = shrink_pages n (pages c)"
      | c' x where "m' = m\<lparr>stats := raise_peak (stats m\<lparr>current_memory_bytes :=
            current_memory_bytes (stats m) - context_bytes c + context_bytes c'\<rparr>),
          handles := (handles m)(h \<mapsto> c'), mem := x\<rparr>"
      using r c by (auto simp: hbi_kv_context_resize_def Let_def split: if_splits sum.splits prod.splits option.splits)
    then show ?thesis
    proof cases
      case 2
      then show ?thesis using update_inv [OF inv c] tensors_shrink by simp
    next
      case 3
      show ?thesis unfolding 3 by (rule replace_inv [OF inv c]) simp_all
    qed (use inv in simp)
  qed (use inv in simp)
qed

text \<open>All states of a manager: any allocator, any order of the operations, addresses fresh.\<close>

inductive kv_reach :: "hbi_kv_manager \<Rightarrow> bool" where
  init: "hbi_kv_manager_create True True True x = Inr m \<Longrightarrow> kv_reach m"
| create: "kv_reach m \<Longrightarrow> addr \<notin> dom (handles m) \<Longrightarrow>
    hbi_kv_context_create allocate addr m maxt dt ks vs = (st, m') \<Longrightarrow> kv_reach m'"
| clone: "kv_reach m \<Longrightarrow> addr \<notin> dom (handles m) \<Longrightarrow>
    hbi_kv_context_clone allocate addr m src = Some (st, m') \<Longrightarrow> kv_reach m'"
| resize: "kv_reach m \<Longrightarrow> hbi_kv_context_resize allocate m h n = Some (st, m') \<Longrightarrow> kv_reach m'"
| destroy: "kv_reach m \<Longrightarrow> handles m h = Some c \<Longrightarrow> hbi_kv_context_destroy m h = Some m' \<Longrightarrow> kv_reach m'"
| reset: "kv_reach m \<Longrightarrow> handles m h = Some c \<Longrightarrow> hbi_kv_context_reset (Some c) = (st, Some c') \<Longrightarrow>
    kv_reach (m\<lparr>handles := (handles m)(h \<mapsto> c')\<rparr>)"
| append: "kv_reach m \<Longrightarrow> handles m h = Some c \<Longrightarrow> hbi_kv_context_append_tokens (Some c) n = (st, Some c') \<Longrightarrow>
    kv_reach (m\<lparr>handles := (handles m)(h \<mapsto> c')\<rparr>)"
| truncate: "kv_reach m \<Longrightarrow> handles m h = Some c \<Longrightarrow> hbi_kv_context_truncate (Some c) n = (st, Some c') \<Longrightarrow>
    kv_reach (m\<lparr>handles := (handles m)(h \<mapsto> c')\<rparr>)"

lemma kv_reach_inv: "kv_reach m \<Longrightarrow> kv_inv m"
proof (induction rule: kv_reach.induct)
  case (init x m)
  then show ?case by (auto simp: hbi_kv_manager_create_def kv_inv_def)
next
  case (create m addr allocate maxt dt ks vs st m')
  then show ?case using create_inv by blast
next
  case (clone m addr allocate src st m')
  then show ?case using clone_inv by blast
next
  case (resize m allocate h n st m')
  then show ?case using resize_inv by blast
next
  case (destroy m h c m')
  then show ?case using destroy_spec [of m h c] by auto
next
  case (reset m h c st c')
  then have "tensors_of (pages c') = tensors_of (pages c)"
    by (auto simp: hbi_kv_context_reset_def tensors_of_def)
  then show ?case using update_inv reset by blast
next
  case (append m h c n st c')
  then have "tensors_of (pages c') = tensors_of (pages c)"
    by (auto simp: hbi_kv_context_append_tokens_def tensors_distribute split: if_splits)
  then show ?case using update_inv append by blast
next
  case (truncate m h c n st c')
  then have "tensors_of (pages c') = tensors_of (pages c)"
    by (auto simp: hbi_kv_context_truncate_def tensors_truncate split: if_splits)
  then show ?case using update_inv truncate by blast
qed

section \<open>The token cursor\<close>

text \<open>A context of the contiguous allocator: one page, whose cursor is the context's.\<close>

definition ctx_ok :: "hbi_context_handle \<Rightarrow> bool" where
  "ctx_ok h \<longleftrightarrow> (\<exists>p. pages h = [p] \<and> pg_num_tokens p = total_tokens h \<and> total_tokens h \<le> max_tokens h \<and>
     max_tokens h \<le> pg_capacity p)"











section \<open>Properties\<close>

text \<open>
  C15. The statistics of the KV manager are exact after every sequence of creations, clones,
  resizes, destructions and cursor operations, whatever page allocator is installed: the memory in
  use is the total over the live contexts, the number of active contexts is their number and never
  more than 1024, and allocations minus frees is that number.\<close>

theorem kv_stats_exact:
  assumes "kv_reach m"
  shows "\<exists>s. hbi_kv_manager_get_statistics (Some m) = Inr s \<and>
    current_memory_bytes s = msum (handles m) context_bytes \<and>
    unat (active_contexts s) = card (dom (handles m)) \<and> card (dom (handles m)) \<le> HBI_KV_MAX_CONTEXTS \<and>
    total_allocations s - total_frees s = of_nat (card (dom (handles m)))"
proof -
  have inv: "kv_inv m" using assms by (rule kv_reach_inv)
  have "num_contexts m < 2 ^ 32" using inv by (simp add: kv_inv_def HBI_KV_MAX_CONTEXTS_def)
  then have "unat (active_contexts (stats m)) = num_contexts m" using inv by (simp add: kv_inv_def unat_of_nat)
  then show ?thesis using inv kv_inv_card [OF inv] by (simp add: hbi_kv_manager_get_statistics_def kv_inv_def)
qed

definition demo_manager :: hbi_kv_manager where
  "demo_manager = \<lparr>stats = \<lparr>active_contexts = 0, peak_contexts = 0, current_memory_bytes = 0,
       kv_peak_memory_bytes = 0, total_allocations = 0, total_frees = 0\<rparr>,
     contexts = replicate HBI_KV_MAX_CONTEXTS 0, num_contexts = 0, handles = Map.empty, mem = (\<lambda>_. 0)\<rparr>"

abbreviation demo_allocate :: kv_allocate where
  "demo_allocate \<equiv> hbi_kv_allocator_contiguous_allocate True 4096 8192"

abbreviation demo_kv_shape :: hbi_shape where
  "demo_kv_shape \<equiv> \<lparr>rank = 2, dims = [16, 4, 0, 0, 0, 0, 0, 0]\<rparr>"

lemma demo_context:
  obtains m h where "hbi_kv_context_create demo_allocate 100 demo_manager 16 HBI_DTYPE_FP32 demo_kv_shape demo_kv_shape = (HBI_OK, m)"
    and "handles m 100 = Some h" and "kv_reach m"
proof -
  have "kv_reach demo_manager"
    by (rule kv_reach.init [of "\<lambda>_. 0"]) (simp add: hbi_kv_manager_create_def demo_manager_def)
  moreover obtain pgs mem' where a: "demo_allocate 16 HBI_DTYPE_FP32 demo_kv_shape demo_kv_shape (\<lambda>_. 0) = Inr (pgs, mem')"
  proof -
    have "\<not> isl (demo_allocate 16 HBI_DTYPE_FP32 demo_kv_shape demo_kv_shape (\<lambda>_. 0))" by code_simp
    then show thesis using that by (cases "demo_allocate 16 HBI_DTYPE_FP32 demo_kv_shape demo_kv_shape (\<lambda>_. 0)") auto
  qed
  let ?r = "hbi_kv_context_create demo_allocate 100 demo_manager 16 HBI_DTYPE_FP32 demo_kv_shape demo_kv_shape"
  have r: "fst ?r = HBI_OK" "handles (snd ?r) 100 \<noteq> None"
    using a by (simp_all add: hbi_kv_context_create_def demo_manager_def HBI_KV_MAX_CONTEXTS_def Let_def)
  then obtain h where "handles (snd ?r) 100 = Some h" by blast
  moreover have "kv_reach (snd ?r)"
    by (rule kv_reach.create [OF calculation(1)]) (simp add: demo_manager_def, rule prod.collapse [symmetric])
  ultimately show thesis using that [of "snd ?r" h] r(1) by (metis prod.collapse)
qed

theorem kv_stats_exact_witness:
  "\<exists>m s. kv_reach m \<and> handles m 100 \<noteq> None \<and> hbi_kv_manager_get_statistics (Some m) = Inr s \<and>
     unat (active_contexts s) = card (dom (handles m))"
proof -
  obtain m h where m: "handles m 100 = Some h" "kv_reach m" using demo_context by metis
  then show ?thesis using kv_stats_exact [OF m(2)] by auto
qed

text \<open>
  C16. Destroying the manager releases every context exactly once: in every reachable state the
  loop of \<open>hbi_kv_manager_destroy\<close>, which walks the table while each destruction moves entries of
  it, never touches a dead handle, leaves no context alive and no byte accounted, and counts as many
  frees as allocations.\<close>

theorem kv_destroy_once:
  assumes "kv_reach m"
  shows "\<exists>m'. hbi_kv_manager_destroy m = Some m' \<and> handles m' = Map.empty \<and>
    current_memory_bytes (stats m') = 0 \<and> total_frees (stats m') = total_allocations (stats m')"
proof -
  have inv: "kv_inv m" using assms by (rule kv_reach_inv)
  let ?N = "num_contexts m" and ?A = "contexts m"
  have i: "?N \<le> length ?A" "distinct (take ?N ?A)" "dom (handles m) = set (take ?N ?A)"
    using inv by (auto simp: kv_inv_def)
  have "set (take ?N ?A) = (!) ?A ` {0..<?N}" using i(1) by (simp add: nth_image)
  moreover have "inj_on ((!) ?A) {..<?N}"
    using i(1,2) by (auto simp: inj_on_def distinct_conv_nth)
  ultimately obtain m' where m': "hbi_kv_manager_destroy m = Some m'" "kv_inv m'" "handles m' = Map.empty"
    using destroy_loop_spec [OF inv, of ?N 0 ?A] i(3) by (auto simp: hbi_kv_manager_destroy_def)
  have "num_contexts m' = 0" using kv_inv_card [OF m'(2)] m'(3) by simp
  then show ?thesis using m' by (simp add: kv_inv_def)
qed

theorem kv_destroy_once_witness:
  "\<exists>m m'. handles m 100 \<noteq> None \<and> hbi_kv_manager_destroy m = Some m' \<and> handles m' = Map.empty"
proof -
  obtain m h where m: "handles m 100 = Some h" "kv_reach m" using demo_context by metis
  then show ?thesis using kv_destroy_once [OF m(2)] by auto
qed



text \<open>
  Without the bound the guard of \<open>hbi_kv_context_append_tokens\<close> wraps: appending \<open>2^32 - 5\<close> tokens
  to a context that holds 10 of at most 16 succeeds, and the page's cursor no longer agrees with the
  context's.
\<close>

lemma append_wraps:
  fixes k v :: hbi_tensor
  defines "h \<equiv> \<lparr>total_tokens = 10, max_tokens = 16,
      pages = [\<lparr>k_tensor = k, v_tensor = v, pg_capacity = 16, pg_num_tokens = 10\<rparr>],
      h_dtype = HBI_DTYPE_FP32, k_shape = demo_kv_shape, v_shape = demo_kv_shape\<rparr>"
  shows "ctx_ok h" and "fst (hbi_kv_context_append_tokens (Some h) (- 5)) = HBI_OK"
    and "\<not> ctx_ok (the (snd (hbi_kv_context_append_tokens (Some h) (- 5))))"
  by (simp_all add: h_def ctx_ok_def hbi_kv_context_append_tokens_def Let_def)

end
