(* ===== verification/Utf8.thy ===== *)
theory Utf8
  imports Common
begin

text \<open>
  The UTF-8 helpers of the tokenizer framework (first part of src/tokenizer/tokenizer.c): length of
  a sequence from its leading byte, decoding and encoding of one code point, validation of a text.

  \<^item> Bytes and code points are \<open>uint8_t\<close> and \<open>uint32_t\<close> words, with the masks and shifts of the
    source.
  \<^item> A source buffer with its length is a list of bytes. \<open>hbi_utf8_decode\<close> returns the number of
    bytes consumed (0 on error) and the code point it stores; \<open>hbi_utf8_encode\<close> returns the bytes
    it writes (none on error).
\<close>

unbundle bit_operations_syntax

definition hbi_utf8_seq_len :: "u8 \<Rightarrow> nat" where
  "hbi_utf8_seq_len b =
     (if b AND 0x80 = 0 then 1
      else if b AND 0xE0 = 0xC0 then 2
      else if b AND 0xF0 = 0xE0 then 3
      else if b AND 0xF8 = 0xF0 then 4
      else 0)"

abbreviation wide :: "u8 \<Rightarrow> u32" where
  "wide b \<equiv> ucast b"

text \<open>The \<open>switch\<close> on the sequence length.\<close>

definition utf8_bits :: "nat \<Rightarrow> u8 list \<Rightarrow> u32" where
  "utf8_bits len src =
     (if len = 1 then wide (src ! 0)
      else if len = 2 then push_bit 6 (wide (src ! 0 AND 0x1F)) OR wide (src ! 1 AND 0x3F)
      else if len = 3 then push_bit 12 (wide (src ! 0 AND 0x0F)) OR push_bit 6 (wide (src ! 1 AND 0x3F))
             OR wide (src ! 2 AND 0x3F)
      else push_bit 18 (wide (src ! 0 AND 0x07)) OR push_bit 12 (wide (src ! 1 AND 0x3F))
             OR push_bit 6 (wide (src ! 2 AND 0x3F)) OR wide (src ! 3 AND 0x3F))"

definition hbi_utf8_decode :: "u8 list ptr \<Rightarrow> nat \<times> u32" where
  "hbi_utf8_decode s =
     (case s of
        None \<Rightarrow> (0, 0xFFFD)
      | Some src \<Rightarrow>
          if src = [] then (0, 0xFFFD)
          else
            let len = hbi_utf8_seq_len (src ! 0) in
            if len = 0 \<or> len > length src then (0, 0xFFFD)
            else
              let cp = utf8_bits len src in
              if \<not> list_all (\<lambda>b. b AND 0xC0 = 0x80) (take (len - 1) (drop 1 src)) then (0, 0xFFFD)
              else if cp < 0x80 \<and> len \<noteq> 1 then (0, 0xFFFD)
              else if cp \<ge> 0xD800 \<and> cp \<le> 0xDFFF then (0, 0xFFFD)
              else if cp > 0x10FFFF then (0, 0xFFFD)
              else (len, cp))"

definition hbi_utf8_encode :: "u32 \<Rightarrow> u8 list" where
  "hbi_utf8_encode cp =
     (if cp > 0x10FFFF \<or> cp \<ge> 0xD800 \<and> cp \<le> 0xDFFF then []
      else if cp < 0x80 then [ucast cp]
      else if cp < 0x800 then [ucast (0xC0 OR drop_bit 6 cp), ucast (0x80 OR (cp AND 0x3F))]
      else if cp < 0x10000 then
        [ucast (0xE0 OR drop_bit 12 cp), ucast (0x80 OR (drop_bit 6 cp AND 0x3F)), ucast (0x80 OR (cp AND 0x3F))]
      else
        [ucast (0xF0 OR drop_bit 18 cp), ucast (0x80 OR (drop_bit 12 cp AND 0x3F)),
         ucast (0x80 OR (drop_bit 6 cp AND 0x3F)), ucast (0x80 OR (cp AND 0x3F))])"

text \<open>The validation loop, on the rest of the text.\<close>

function utf8_validate_loop :: "u8 list \<Rightarrow> bool" where
  "utf8_validate_loop text =
     (if text = [] then True
      else let consumed = fst (hbi_utf8_decode (Some text)) in
        if consumed = 0 then False else utf8_validate_loop (drop consumed text))"
  by auto
termination by (relation "measure length") auto

declare utf8_validate_loop.simps [simp del]

text \<open>\<open>text\<close> is NULL or the \<open>len\<close> bytes it points to; only the length of a NULL text matters.\<close>

definition hbi_utf8_validate :: "u8 list ptr \<Rightarrow> nat \<Rightarrow> bool" where
  "hbi_utf8_validate text len =
     (case text of
        None \<Rightarrow> len = 0
      | Some bs \<Rightarrow> utf8_validate_loop bs)"

section \<open>Bits of the bytes\<close>

lemma byte_masks:
  "(0x3F :: u8) = mask 6" "(0x1F :: u8) = mask 5" "(0x0F :: u8) = mask 4" "(0x07 :: u8) = mask 3"
  "(0x3F :: u32) = mask 6"
  by (simp_all add: mask_eq_exp_minus_1)

lemma marks_low:
  "n < 7 \<Longrightarrow> \<not> bit (0x80 :: 'a::semiring_bit_operations) n"
  "n < 6 \<Longrightarrow> \<not> bit (0xC0 :: 'a::semiring_bit_operations) n"
  "n < 5 \<Longrightarrow> \<not> bit (0xE0 :: 'a::semiring_bit_operations) n"
  "n < 4 \<Longrightarrow> \<not> bit (0xF0 :: 'a::semiring_bit_operations) n"
proof -
  have m: "(0x80 :: 'a) = push_bit 7 1" "(0xC0 :: 'a) = push_bit 6 3" "(0xE0 :: 'a) = push_bit 5 7"
    "(0xF0 :: 'a) = push_bit 4 15"
    by (simp_all add: push_bit_eq_mult)
  show "n < 7 \<Longrightarrow> \<not> bit (0x80 :: 'a) n" "n < 6 \<Longrightarrow> \<not> bit (0xC0 :: 'a) n" "n < 5 \<Longrightarrow> \<not> bit (0xE0 :: 'a) n"
    "n < 4 \<Longrightarrow> \<not> bit (0xF0 :: 'a) n"
    unfolding m bit_push_bit_iff by simp_all
qed

text \<open>What the decoder's masks recover of the bytes the encoder writes.\<close>

lemma continuation_payload: "wide (ucast (0x80 OR (x AND 0x3F)) AND 0x3F) = take_bit 6 x" for x :: u32
  unfolding byte_masks by (rule bit_word_eqI) (auto simp: bit_simps marks_low)

lemma lead_payload:
  fixes x :: u32
  shows "wide (ucast (0xC0 OR x) AND 0x1F) = take_bit 5 x"
  "wide (ucast (0xE0 OR x) AND 0x0F) = take_bit 4 x"
  "wide (ucast (0xF0 OR x) AND 0x07) = take_bit 3 x"
  unfolding byte_masks by (rule bit_word_eqI, auto simp: bit_simps marks_low)+

lemma all_less_8: "(\<forall>n < 8. P n) \<longleftrightarrow> P 0 \<and> P 1 \<and> P 2 \<and> P 3 \<and> P 4 \<and> P 5 \<and> P 6 \<and> P (7 :: nat)"
proof -
  have "(\<forall>n < 8. P n) \<longleftrightarrow> list_all P [0..<8]" by (auto simp: list_all_iff)
  also have "[0..<8] = [0, 1, 2, 3, 4, 5, 6, 7]" by (simp add: upt_rec)
  finally show ?thesis by simp
qed

lemma byte_eqI:
  fixes a b :: u8
  assumes "bit a 0 = bit b 0 \<and> bit a 1 = bit b 1 \<and> bit a 2 = bit b 2 \<and> bit a 3 = bit b 3 \<and>
    bit a 4 = bit b 4 \<and> bit a 5 = bit b 5 \<and> bit a 6 = bit b 6 \<and> bit a 7 = bit b 7"
  shows "a = b"
proof -
  have "\<forall>n < 8. bit a n = bit b n" unfolding all_less_8 using assms by blast
  then show ?thesis by (intro bit_word_eqI) simp
qed

lemma continuation_mark: "(ucast (0x80 OR (x AND 0x3F)) :: u8) AND 0xC0 = 0x80" for x :: u32
  by (rule byte_eqI) (simp add: bit_simps)

lemma lead_marks:
  fixes x :: u32
  shows "unat x < 2 ^ 7 \<Longrightarrow> (ucast x :: u8) AND 0x80 = 0"
    and "unat x < 2 ^ 5 \<Longrightarrow> (ucast (0xC0 OR x) :: u8) AND 0xE0 = 0xC0 \<and> (ucast (0xC0 OR x) :: u8) AND 0x80 \<noteq> 0"
    and "unat x < 2 ^ 4 \<Longrightarrow> (ucast (0xE0 OR x) :: u8) AND 0xF0 = 0xE0 \<and>
      (ucast (0xE0 OR x) :: u8) AND 0xE0 \<noteq> 0xC0 \<and> (ucast (0xE0 OR x) :: u8) AND 0x80 \<noteq> 0"
    and "unat x < 2 ^ 3 \<Longrightarrow> (ucast (0xF0 OR x) :: u8) AND 0xF8 = 0xF0 \<and>
      (ucast (0xF0 OR x) :: u8) AND 0xF0 \<noteq> 0xE0 \<and> (ucast (0xF0 OR x) :: u8) AND 0xE0 \<noteq> 0xC0 \<and>
      (ucast (0xF0 OR x) :: u8) AND 0x80 \<noteq> 0"
proof -
  have ne: "a \<noteq> b" if "bit a k \<noteq> bit b k" for a b :: u8 and k using that by auto
  show "(ucast x :: u8) AND 0x80 = 0" if "unat x < 2 ^ 7"
    by (rule byte_eqI) (use bit_below [OF that] in \<open>simp add: bit_simps\<close>)
  show "(ucast (0xC0 OR x) :: u8) AND 0xE0 = 0xC0 \<and> (ucast (0xC0 OR x) :: u8) AND 0x80 \<noteq> 0" if "unat x < 2 ^ 5"
    using bit_below [OF that] by (intro conjI byte_eqI ne [where k = 7]) (simp_all add: bit_simps)
  show "(ucast (0xE0 OR x) :: u8) AND 0xF0 = 0xE0 \<and>
      (ucast (0xE0 OR x) :: u8) AND 0xE0 \<noteq> 0xC0 \<and> (ucast (0xE0 OR x) :: u8) AND 0x80 \<noteq> 0" if "unat x < 2 ^ 4"
    using bit_below [OF that]
    by (intro conjI byte_eqI ne [where k = 5] ne [where k = 7 and b = 0]) (simp_all add: bit_simps)
  show "(ucast (0xF0 OR x) :: u8) AND 0xF8 = 0xF0 \<and>
      (ucast (0xF0 OR x) :: u8) AND 0xF0 \<noteq> 0xE0 \<and> (ucast (0xF0 OR x) :: u8) AND 0xE0 \<noteq> 0xC0 \<and>
      (ucast (0xF0 OR x) :: u8) AND 0x80 \<noteq> 0" if "unat x < 2 ^ 3"
  proof (intro conjI)
    show "(ucast (0xF0 OR x) :: u8) AND 0xF8 = 0xF0"
      by (rule byte_eqI) (use bit_below [OF that] in \<open>simp add: bit_simps\<close>)
    show "(ucast (0xF0 OR x) :: u8) AND 0xF0 \<noteq> 0xE0" by (rule ne [where k = 4]) (simp add: bit_simps)
    show "(ucast (0xF0 OR x) :: u8) AND 0xE0 \<noteq> 0xC0" by (rule ne [where k = 5]) (simp add: bit_simps)
    show "(ucast (0xF0 OR x) :: u8) AND 0x80 \<noteq> 0" by (rule ne [where k = 7]) (simp add: bit_simps)
  qed
qed

text \<open>Gluing the payloads together again.\<close>

lemma bit_within: "unat cp < 2 ^ k \<Longrightarrow> bit cp n \<longleftrightarrow> n < k \<and> bit cp n" for cp :: u32
  using bit_below [of cp k n] by (auto simp: not_le [symmetric])

lemma glue:
  fixes cp :: u32
  shows "unat cp < 2 ^ 11 \<Longrightarrow> push_bit 6 (take_bit 5 (drop_bit 6 cp)) OR take_bit 6 cp = cp"
    and "unat cp < 2 ^ 16 \<Longrightarrow> push_bit 12 (take_bit 4 (drop_bit 12 cp)) OR push_bit 6 (take_bit 6 (drop_bit 6 cp))
      OR take_bit 6 cp = cp"
    and "unat cp < 2 ^ 21 \<Longrightarrow> push_bit 18 (take_bit 3 (drop_bit 18 cp)) OR push_bit 12 (take_bit 6 (drop_bit 12 cp))
      OR push_bit 6 (take_bit 6 (drop_bit 6 cp)) OR take_bit 6 cp = cp"
proof -
  have p: "bit (push_bit k (take_bit j (drop_bit k cp))) n \<longleftrightarrow> k \<le> n \<and> n < k + j \<and> bit cp n" if "n < 32" for k j n
    using that by (cases "k \<le> n") (auto simp: bit_simps)
  have t: "bit (take_bit 6 cp) n \<longleftrightarrow> n < 6 \<and> bit cp n" for n by (simp add: bit_simps)
  note w = bit_or_iff p t
  show "push_bit 6 (take_bit 5 (drop_bit 6 cp)) OR take_bit 6 cp = cp" if u: "unat cp < 2 ^ 11"
  proof (rule bit_word_eqI)
    fix n assume "n < LENGTH(32)"
    then show "bit (push_bit 6 (take_bit 5 (drop_bit 6 cp)) OR take_bit 6 cp) n = bit cp n"
      using bit_within [OF u, of n] by (auto simp: w)
  qed
  show "push_bit 12 (take_bit 4 (drop_bit 12 cp)) OR push_bit 6 (take_bit 6 (drop_bit 6 cp)) OR take_bit 6 cp = cp"
    if u: "unat cp < 2 ^ 16"
  proof (rule bit_word_eqI)
    fix n assume "n < LENGTH(32)"
    then show "bit (push_bit 12 (take_bit 4 (drop_bit 12 cp)) OR push_bit 6 (take_bit 6 (drop_bit 6 cp))
        OR take_bit 6 cp) n = bit cp n"
      using bit_within [OF u, of n] by (auto simp: w)
  qed
  show "push_bit 18 (take_bit 3 (drop_bit 18 cp)) OR push_bit 12 (take_bit 6 (drop_bit 12 cp))
      OR push_bit 6 (take_bit 6 (drop_bit 6 cp)) OR take_bit 6 cp = cp" if u: "unat cp < 2 ^ 21"
  proof (rule bit_word_eqI)
    fix n assume "n < LENGTH(32)"
    then show "bit (push_bit 18 (take_bit 3 (drop_bit 18 cp)) OR push_bit 12 (take_bit 6 (drop_bit 12 cp))
        OR push_bit 6 (take_bit 6 (drop_bit 6 cp)) OR take_bit 6 cp) n = bit cp n"
      using bit_within [OF u, of n] by (auto simp: w)
  qed
qed

lemma unat_drop_bit_less: "unat cp < 2 ^ (k + j) \<Longrightarrow> unat (drop_bit k cp) < 2 ^ j" for cp :: u32
proof -
  assume "unat cp < 2 ^ (k + j)"
  moreover have "unat (drop_bit k cp) = unat cp div 2 ^ k"
    by (subst unat_drop_bit_eq) (rule drop_bit_eq_div)
  ultimately show ?thesis by (simp add: less_mult_imp_div_less power_add mult.commute)
qed

definition scalar_value :: "u32 \<Rightarrow> bool" where
  "scalar_value cp \<longleftrightarrow> cp \<le> 0x10FFFF \<and> \<not> (cp \<ge> 0xD800 \<and> cp \<le> 0xDFFF)"

lemma decode_encode:
  assumes "scalar_value cp"
  shows "hbi_utf8_decode (Some (hbi_utf8_encode cp @ rest)) = (length (hbi_utf8_encode cp), cp)
    \<and> hbi_utf8_encode cp \<noteq> []"
proof -
  have v: "\<not> (cp > 0x10FFFF \<or> cp \<ge> 0xD800 \<and> cp \<le> 0xDFFF)" "\<not> cp > 0x10FFFF"
    using assms by (auto simp: scalar_value_def)
  have lt: "cp < 0x80 \<longleftrightarrow> unat cp < 2 ^ 7" "cp < 0x800 \<longleftrightarrow> unat cp < 2 ^ 11" "cp < 0x10000 \<longleftrightarrow> unat cp < 2 ^ 16"
    by (simp_all add: word_less_nat_alt)
  have top: "unat cp < 2 ^ 21" using v(2) by (simp add: word_less_nat_alt)
  consider "cp < 0x80" | "\<not> cp < 0x80" "cp < 0x800" | "\<not> cp < 0x800" "cp < 0x10000" | "\<not> cp < 0x10000" by blast
  then show ?thesis
  proof cases
    case 1
    have "wide (ucast cp) = cp" 
    proof (rule bit_word_eqI)
      fix n
      have "n < 7" if "bit cp n" using bit_below [of cp 7 n] that 1 lt(1) by (meson not_le)
      then show "bit (wide (ucast cp)) n = bit cp n" by (auto simp: bit_simps)
    qed
    then show ?thesis
      using 1 v lead_marks(1) [of cp] lt(1)
      by (simp add: hbi_utf8_encode_def hbi_utf8_decode_def hbi_utf8_seq_len_def utf8_bits_def Let_def)
  next
    case 2
    then have u: "unat (drop_bit 6 cp) < 2 ^ 5" using lt(2) unat_drop_bit_less [of cp 6 5] by simp
    have e: "hbi_utf8_encode cp = [ucast (0xC0 OR drop_bit 6 cp), ucast (0x80 OR (cp AND 0x3F))]"
      using 2 v by (simp add: hbi_utf8_encode_def)
    have len: "hbi_utf8_seq_len (ucast (0xC0 OR drop_bit 6 cp)) = 2"
      using lead_marks(2) [OF u] unfolding hbi_utf8_seq_len_def by simp
    have b: "utf8_bits 2 (hbi_utf8_encode cp @ rest) = cp"
      unfolding e utf8_bits_def using glue(1) [of cp] 2 lt(2) by (simp add: continuation_payload lead_payload)
    show ?thesis
      using b 2 v unfolding hbi_utf8_decode_def e by (simp add: len Let_def continuation_mark)
  next
    case 3
    then have u: "unat (drop_bit 12 cp) < 2 ^ 4" using lt(3) unat_drop_bit_less [of cp 12 4] by simp
    have g: "\<not> cp < 0x80" using 3(1) by (simp add: word_less_nat_alt)
    have e: "hbi_utf8_encode cp = [ucast (0xE0 OR drop_bit 12 cp), ucast (0x80 OR (drop_bit 6 cp AND 0x3F)),
        ucast (0x80 OR (cp AND 0x3F))]"
      using 3 g v by (simp add: hbi_utf8_encode_def)
    have len: "hbi_utf8_seq_len (ucast (0xE0 OR drop_bit 12 cp)) = 3"
      using lead_marks(3) [OF u] unfolding hbi_utf8_seq_len_def by simp
    have b: "utf8_bits 3 (hbi_utf8_encode cp @ rest) = cp"
      unfolding e utf8_bits_def using glue(2) [of cp] 3 lt(3) by (simp add: continuation_payload lead_payload)
    show ?thesis
      using b g v unfolding hbi_utf8_decode_def e by (simp add: len Let_def continuation_mark numeral_2_eq_2)
  next
    case 4
    then have u: "unat (drop_bit 18 cp) < 2 ^ 3" using top unat_drop_bit_less [of cp 18 3] by simp
    have g: "\<not> cp < 0x80" "\<not> cp < 0x800" using 4(1) by (simp_all add: word_less_nat_alt)
    have e: "hbi_utf8_encode cp = [ucast (0xF0 OR drop_bit 18 cp), ucast (0x80 OR (drop_bit 12 cp AND 0x3F)),
        ucast (0x80 OR (drop_bit 6 cp AND 0x3F)), ucast (0x80 OR (cp AND 0x3F))]"
      using 4 g v by (simp add: hbi_utf8_encode_def)
    have len: "hbi_utf8_seq_len (ucast (0xF0 OR drop_bit 18 cp)) = 4"
      using lead_marks(4) [OF u] unfolding hbi_utf8_seq_len_def by simp
    have b: "utf8_bits 4 (hbi_utf8_encode cp @ rest) = cp"
      unfolding e utf8_bits_def using glue(3) [of cp] top by (simp add: continuation_payload lead_payload)
    show ?thesis
      using b g v unfolding hbi_utf8_decode_def e by (simp add: len Let_def continuation_mark numeral_3_eq_3)
  qed
qed

text \<open>Decoding a whole text, as a client of \<open>hbi_utf8_decode\<close> does.\<close>

function utf8_decode_all :: "u8 list \<Rightarrow> u32 list option" where
  "utf8_decode_all text =
     (if text = [] then Some []
      else case hbi_utf8_decode (Some text) of
        (n, cp) \<Rightarrow> if n = 0 then None else map_option (Cons cp) (utf8_decode_all (drop n text)))"
  by auto
termination by (relation "measure length") auto

declare utf8_decode_all.simps [simp del]

lemma decode_all_encode:
  "list_all scalar_value cps \<Longrightarrow> utf8_decode_all (concat (map hbi_utf8_encode cps)) = Some cps"
proof (induction cps)
  case (Cons cp cps)
  then have "hbi_utf8_decode (Some (hbi_utf8_encode cp @ concat (map hbi_utf8_encode cps)))
      = (length (hbi_utf8_encode cp), cp)" "hbi_utf8_encode cp \<noteq> []"
    using decode_encode by auto
  then show ?case using Cons by (subst utf8_decode_all.simps) simp
qed (simp add: utf8_decode_all.simps)

lemma validate_iff_decode_all: "utf8_validate_loop bs \<longleftrightarrow> utf8_decode_all bs \<noteq> None"
proof (induction bs rule: utf8_validate_loop.induct)
  case (1 bs)
  show ?case
    using 1 by (subst utf8_validate_loop.simps, subst utf8_decode_all.simps)
      (auto simp: Let_def split: prod.splits)
qed

section \<open>Properties\<close>

text \<open>
  C20. UTF-8 round trip: encoding any sequence of Unicode scalar values (at most U+10FFFF, no
  surrogates) and decoding the bytes gives the sequence back, the validator accepts the bytes, and
  each code point takes one to four bytes.\<close>

theorem utf8_roundtrip:
  assumes "list_all scalar_value cps"
  shows "utf8_decode_all (concat (map hbi_utf8_encode cps)) = Some cps \<and>
    hbi_utf8_validate (Some (concat (map hbi_utf8_encode cps))) n \<and>
    list_all (\<lambda>cp. 1 \<le> length (hbi_utf8_encode cp) \<and> length (hbi_utf8_encode cp) \<le> 4) cps"
proof -
  have "1 \<le> length (hbi_utf8_encode cp) \<and> length (hbi_utf8_encode cp) \<le> 4" if "scalar_value cp" for cp
    using that by (auto simp: hbi_utf8_encode_def scalar_value_def)
  then show ?thesis
    using decode_all_encode [OF assms] assms
    by (auto simp: hbi_utf8_validate_def validate_iff_decode_all list_all_iff)
qed

theorem utf8_roundtrip_witness:
  "utf8_decode_all (concat (map hbi_utf8_encode [0x41, 0xE9, 0x20AC, 0x1F600])) = Some [0x41, 0xE9, 0x20AC, 0x1F600]"
  using utf8_roundtrip [of "[0x41, 0xE9, 0x20AC, 0x1F600]" 0] by (simp add: scalar_value_def)

text \<open>
  C31. The decoder is safe on arbitrary bytes: it either reports an error with the replacement
  character U+FFFD and consumes nothing, or consumes between one byte and the four bytes of a
  sequence, never more than there are, and yields a Unicode scalar value.\<close>

theorem utf8_decode_sound:
  "case hbi_utf8_decode src of
     (n, cp) \<Rightarrow> n = 0 \<and> cp = 0xFFFD \<or>
       (\<exists>bs. src = Some bs \<and> 1 \<le> n \<and> n \<le> 4 \<and> n \<le> length bs \<and> scalar_value cp)"
proof (cases src)
  case (Some bs)
  have "hbi_utf8_seq_len b \<le> 4" for b by (simp add: hbi_utf8_seq_len_def)
  then show ?thesis using Some by (auto simp: hbi_utf8_decode_def Let_def scalar_value_def not_less)
qed (simp add: hbi_utf8_decode_def)

text \<open>
  The guard against overlong encodings covers only code points below U+0080: three bytes that encode
  U+0080, for which two bytes are enough, are accepted.
\<close>

lemma utf8_overlong_accepted:
  "hbi_utf8_decode (Some [0xE0, 0x82, 0x80]) = (3, 0x80)" "length (hbi_utf8_encode 0x80) = 2"
  by (simp_all add: hbi_utf8_decode_def hbi_utf8_seq_len_def utf8_bits_def hbi_utf8_encode_def Let_def)

end
