(* ===== verification/Token_Sequence.thy ===== *)
theory Token_Sequence
  imports Common
begin

text \<open>
  The growable token sequence of the tokenizer framework (the token sequence section of
  \<open>src/src/tokenizer/tokenizer.c\<close>).

  The backing array is a list whose length is the allocated number of elements; \<open>junk\<close> is the
  content of memory the allocator has not initialised, and \<open>ok\<close> says whether an allocation
  succeeds. An operation returns \<open>None\<close> where the C code has no defined result: the capacity loop
  does not end, or a copy leaves the array. The counters have their 32 bits.
\<close>

section \<open>Data\<close>

definition HBI_TOKEN_SEQ_INITIAL_CAP :: u32 where "HBI_TOKEN_SEQ_INITIAL_CAP = 64"

definition HBI_TOKEN_INVALID_ID :: u32 where "HBI_TOKEN_INVALID_ID = 0xFFFFFFFF"

record hbi_token_sequence =
  ts_data :: "u32 list"
  ts_count :: u32
  ts_capacity :: u32

section \<open>Operations\<close>

definition hbi_token_sequence_create :: "bool \<Rightarrow> bool \<Rightarrow> (nat \<Rightarrow> u32) \<Rightarrow> hbi_token_sequence outcome" where
  "hbi_token_sequence_create ok1 ok2 junk =
     (if \<not> ok1 then Inl HBI_ERR_OOM
      else if \<not> ok2 then Inl HBI_ERR_OOM
      else Inr \<lparr>ts_data = map junk [0..<unat HBI_TOKEN_SEQ_INITIAL_CAP], ts_count = 0,
        ts_capacity = HBI_TOKEN_SEQ_INITIAL_CAP\<rparr>)"

partial_function (option) grow_cap :: "u32 \<Rightarrow> u32 \<Rightarrow> u32 option" where
  "grow_cap target c = (if c < target then grow_cap target (c * 2) else Some c)"

definition token_sequence_grow ::
  "bool \<Rightarrow> (nat \<Rightarrow> u32) \<Rightarrow> hbi_token_sequence \<Rightarrow> u32 \<Rightarrow> (hbi_status \<times> hbi_token_sequence) option" where
  "token_sequence_grow ok junk s needed =
     (if ts_count s + needed \<le> ts_capacity s then Some (HBI_OK, s)
      else case grow_cap (ts_count s + needed) (ts_capacity s) of
        None \<Rightarrow> None
      | Some c \<Rightarrow>
          if \<not> ok then Some (HBI_ERR_OOM, s)
          else Some (HBI_OK, s\<lparr>ts_data := ts_data s @ map junk [length (ts_data s)..<unat c], ts_capacity := c\<rparr>))"

text \<open>A store of several elements from position \<open>i\<close> on; \<open>None\<close> when it leaves the array.\<close>

definition store :: "'a list \<Rightarrow> nat \<Rightarrow> 'a list \<Rightarrow> 'a list option" where
  "store xs i ys = (if i + length ys \<le> length xs then Some (take i xs @ ys @ drop (i + length ys) xs) else None)"

definition hbi_token_sequence_append ::
  "bool \<Rightarrow> (nat \<Rightarrow> u32) \<Rightarrow> hbi_token_sequence ptr \<Rightarrow> u32 \<Rightarrow> (hbi_status \<times> hbi_token_sequence ptr) option" where
  "hbi_token_sequence_append ok junk seq i =
     (case seq of
        None \<Rightarrow> Some (HBI_ERR_INVALID_ARG, None)
      | Some s \<Rightarrow>
          (case token_sequence_grow ok junk s 1 of
             None \<Rightarrow> None
           | Some (st, s1) \<Rightarrow>
               if st \<noteq> HBI_OK then Some (st, Some s1)
               else map_option (\<lambda>d. (HBI_OK, Some (s1\<lparr>ts_data := d, ts_count := ts_count s1 + 1\<rparr>)))
                      (store (ts_data s1) (unat (ts_count s1)) [i])))"

text \<open>The number of ids is a \<open>size_t\<close> in the source and is cut to 32 bits for the capacity.\<close>

definition hbi_token_sequence_append_many ::
  "bool \<Rightarrow> (nat \<Rightarrow> u32) \<Rightarrow> hbi_token_sequence ptr \<Rightarrow> u32 list ptr \<Rightarrow> nat \<Rightarrow> (hbi_status \<times> hbi_token_sequence ptr) option" where
  "hbi_token_sequence_append_many ok junk seq ids count =
     (case seq of
        None \<Rightarrow> Some (HBI_ERR_INVALID_ARG, None)
      | Some s \<Rightarrow>
          if ids = None \<and> count > 0 then Some (HBI_ERR_INVALID_ARG, Some s)
          else if count = 0 then Some (HBI_OK, Some s)
          else case token_sequence_grow ok junk s (of_nat count) of
             None \<Rightarrow> None
           | Some (st, s1) \<Rightarrow>
               if st \<noteq> HBI_OK then Some (st, Some s1)
               else map_option (\<lambda>d. (HBI_OK, Some (s1\<lparr>ts_data := d, ts_count := ts_count s1 + of_nat count\<rparr>)))
                      (store (ts_data s1) (unat (ts_count s1)) (take count (the ids))))"

definition hbi_token_sequence_count :: "hbi_token_sequence ptr \<Rightarrow> u32" where
  "hbi_token_sequence_count seq = (case seq of None \<Rightarrow> 0 | Some s \<Rightarrow> ts_count s)"

definition hbi_token_sequence_get :: "hbi_token_sequence ptr \<Rightarrow> u32 \<Rightarrow> u32" where
  "hbi_token_sequence_get seq i =
     (case seq of
        None \<Rightarrow> HBI_TOKEN_INVALID_ID
      | Some s \<Rightarrow> if ts_count s \<le> i then HBI_TOKEN_INVALID_ID else ts_data s ! unat i)"

definition hbi_token_sequence_data :: "hbi_token_sequence ptr \<Rightarrow> u32 list ptr" where
  "hbi_token_sequence_data seq = map_option ts_data seq"

definition hbi_token_sequence_clear :: "hbi_token_sequence ptr \<Rightarrow> hbi_token_sequence ptr" where
  "hbi_token_sequence_clear seq = map_option (\<lambda>s. s\<lparr>ts_count := 0\<rparr>) seq"

section \<open>The capacity loop\<close>

lemma grow_cap_returns:
  assumes "c = 2 ^ k" and "k \<le> 31" and "target \<le> 2 ^ 31"
  shows "\<exists>c' j. grow_cap target c = Some c' \<and> target \<le> c' \<and> c \<le> c' \<and> c' = 2 ^ j \<and> j \<le> 31"
  using assms
proof (induction "31 - k" arbitrary: c k)
  case 0
  then have "k = 31" by simp
  then show ?case using 0 by (subst grow_cap.simps) (auto intro!: exI [of _ 31])
next
  case (Suc d)
  have k: "k < 31" using Suc.hyps(2) by simp
  show ?case
  proof (cases "c < target")
    case True
    have "c \<le> c * 2"
    proof -
      have "unat c = 2 ^ k" using Suc.prems(1) k by (simp add: unat_2p)
      moreover have "(2::nat) ^ Suc k \<le> 2 ^ 31" using k by (intro power_increasing) auto
      ultimately have "unat c * 2 < 2 ^ 32" by simp
      then show ?thesis by (simp add: word_le_nat_alt unat_word_ariths)
    qed
    moreover have "\<exists>c' j. grow_cap target (c * 2) = Some c' \<and> target \<le> c' \<and> c * 2 \<le> c' \<and> c' = 2 ^ j \<and> j \<le> 31"
      using Suc.hyps(1) [of "Suc k" "c * 2"] Suc.hyps(2) Suc.prems k by (simp add: mult.commute)
    ultimately show ?thesis using True by (subst grow_cap.simps) (auto intro: order_trans)
  next
    case False
    then show ?thesis using Suc.prems k by (subst grow_cap.simps) (auto simp: not_less)
  qed
qed

text \<open>
  Beyond \<open>2 ^ 31\<close> ids the loop never ends: doubling \<open>2 ^ 31\<close> gives 0.
\<close>

lemma grow_cap_bounded:
  assumes "grow_cap target c = Some c'"
  shows "c = 0 \<or> (\<exists>k \<le> 31. c = 2 ^ k) \<longrightarrow> \<not> 2 ^ 31 < target"
proof (rule grow_cap.raw_induct [OF _ assms], rule impI)
  fix gc :: "u32 \<Rightarrow> u32 \<Rightarrow> u32 option" and target c y :: u32
  assume ih: "\<And>t c y. gc t c = Some y \<Longrightarrow> c = 0 \<or> (\<exists>k \<le> 31. c = 2 ^ k) \<longrightarrow> \<not> 2 ^ 31 < t"
    and e: "(if c < target then gc target (c * 2) else Some c) = Some y"
    and c: "c = 0 \<or> (\<exists>k \<le> 31. c = 2 ^ k)"
  have "c * 2 = 0 \<or> (\<exists>k \<le> 31. c * 2 = 2 ^ k)"
  proof (cases "c = 0 \<or> c = 2 ^ 31")
    case False
    then obtain k where k: "k \<le> 31" "c = 2 ^ k" using c by blast
    then have "k \<noteq> 31" using False by blast
    then show ?thesis using k by (intro disjI2 exI [of _ "Suc k"]) (simp add: mult.commute)
  qed auto
  moreover have "c \<le> 2 ^ 31"
  proof (cases "c = 0")
    case False
    then obtain k where k: "k \<le> 31" "c = 2 ^ k" using c by auto
    then have "unat c = 2 ^ k" by (simp add: unat_2p)
    moreover have "(2::nat) ^ k \<le> 2 ^ 31" using k by (intro power_increasing) auto
    ultimately show ?thesis by (simp add: word_le_nat_alt)
  qed simp
  ultimately show "\<not> 2 ^ 31 < target" using ih [of target "c * 2" y] e by (auto split: if_splits)
qed

lemma grow_cap_diverges:
  assumes "2 ^ 31 < target" and "k \<le> 31"
  shows "grow_cap target (2 ^ k) = None"
  using grow_cap_bounded [of target "2 ^ k"] assms by (cases "grow_cap target (2 ^ k)") auto

section \<open>The contents\<close>

definition seq_inv :: "hbi_token_sequence \<Rightarrow> bool" where
  "seq_inv s \<longleftrightarrow> length (ts_data s) = unat (ts_capacity s) \<and> (\<exists>k \<le> 31. ts_capacity s = 2 ^ k) \<and>
     unat (ts_count s) \<le> unat (ts_capacity s)"

definition contents :: "hbi_token_sequence \<Rightarrow> u32 list" where
  "contents s = take (unat (ts_count s)) (ts_data s)"

lemma length_contents: "seq_inv s \<Longrightarrow> length (contents s) = unat (ts_count s)"
  by (simp add: seq_inv_def contents_def)

lemma create_ok:
  assumes "hbi_token_sequence_create ok1 ok2 junk = Inr s"
  shows "seq_inv s \<and> contents s = []"
proof -
  have "(64 :: u32) = 2 ^ 6" by simp
  then have "\<exists>k \<le> 31. (64 :: u32) = 2 ^ k" by (intro exI [of _ 6]) simp
  then show ?thesis
    using assms by (auto simp: hbi_token_sequence_create_def seq_inv_def contents_def HBI_TOKEN_SEQ_INITIAL_CAP_def
        split: if_splits)
qed

lemma store_contents: "i + length ys \<le> length xs \<Longrightarrow>
    \<exists>zs. store xs i ys = Some zs \<and> length zs = length xs \<and> take (i + length ys) zs = take i xs @ ys"
  by (simp add: store_def)

lemma grow_correct:
  assumes inv: "seq_inv s" and room: "unat (ts_count s) + n \<le> 2 ^ 31"
  shows "\<exists>st s1. token_sequence_grow ok junk s (of_nat n) = Some (st, s1) \<and> seq_inv s1 \<and>
    contents s1 = contents s \<and> ts_count s1 = ts_count s \<and> (ok \<longrightarrow> st = HBI_OK) \<and>
    (if st = HBI_OK then unat (ts_count s) + n \<le> unat (ts_capacity s1) else s1 = s)"
proof -
  have sum: "unat (ts_count s + of_nat n) = unat (ts_count s) + n"
    using room by (simp add: unat_word_ariths unat_of_nat)
  show ?thesis
  proof (cases "ts_count s + of_nat n \<le> ts_capacity s")
    case True
    then show ?thesis using inv sum by (auto simp: token_sequence_grow_def word_le_nat_alt)
  next
    case False
    obtain k where k: "ts_capacity s = 2 ^ k" "k \<le> 31" using inv by (auto simp: seq_inv_def)
    have "ts_count s + of_nat n \<le> 2 ^ 31" using sum room by (simp add: word_le_nat_alt)
    then obtain c j where c: "grow_cap (ts_count s + of_nat n) (ts_capacity s) = Some c"
      "ts_count s + of_nat n \<le> c" "ts_capacity s \<le> c" "c = 2 ^ j" "j \<le> 31"
      using grow_cap_returns [OF k] by blast
    have len: "length (ts_data s) \<le> unat c" "unat (ts_count s) \<le> length (ts_data s)"
      using c(3) inv by (auto simp: seq_inv_def word_le_nat_alt)
    show ?thesis
    proof (cases ok)
      case True
      let ?s1 = "s\<lparr>ts_data := ts_data s @ map junk [length (ts_data s)..<unat c], ts_capacity := c\<rparr>"
      have "token_sequence_grow ok junk s (of_nat n) = Some (HBI_OK, ?s1)"
        using False c(1) True by (simp add: token_sequence_grow_def)
      moreover have "seq_inv ?s1" using c(4,5) len by (auto simp: seq_inv_def)
      moreover have "contents ?s1 = contents s" using len by (simp add: contents_def)
      moreover have "unat (ts_count s) + n \<le> unat c" using c(2) sum by (simp add: word_le_nat_alt)
      ultimately show ?thesis by simp
    next
      case no: False
      then show ?thesis using False c(1) inv by (simp add: token_sequence_grow_def)
    qed
  qed
qed

lemma unat_lt2p_32: "unat (w :: u32) < 2 ^ 32"
  using unsigned_less [of w] by simp

lemma store_step:
  assumes "seq_inv s" and "unat (ts_count s) + length ids \<le> unat (ts_capacity s)"
  shows "\<exists>d. store (ts_data s) (unat (ts_count s)) ids = Some d \<and>
    seq_inv (s\<lparr>ts_data := d, ts_count := ts_count s + of_nat (length ids)\<rparr>) \<and>
    contents (s\<lparr>ts_data := d, ts_count := ts_count s + of_nat (length ids)\<rparr>) = contents s @ ids"
proof -
  have len: "length (ts_data s) = unat (ts_capacity s)" using assms(1) by (simp add: seq_inv_def)
  then obtain d where d: "store (ts_data s) (unat (ts_count s)) ids = Some d" "length d = length (ts_data s)"
    "take (unat (ts_count s) + length ids) d = contents s @ ids"
    using store_contents [of "unat (ts_count s)" ids "ts_data s"] assms(2) by (auto simp: contents_def)
  have "unat (ts_count s) + length ids < 2 ^ 32"
    using assms(2) unat_lt2p_32 by (rule le_less_trans)
  then have "unat (ts_count s + of_nat (length ids)) = unat (ts_count s) + length ids"
    by (simp add: unat_word_ariths unat_of_nat)
  then show ?thesis using d assms len by (auto simp: seq_inv_def contents_def)
qed

lemma append_many_correct:
  assumes inv: "seq_inv s" and room: "length (contents s) + length ids \<le> 2 ^ 31"
  shows "\<exists>st s'. hbi_token_sequence_append_many ok junk (Some s) (Some ids) (length ids) = Some (st, Some s') \<and>
    seq_inv s' \<and> contents s' = (if st = HBI_OK then contents s @ ids else contents s) \<and> (ok \<longrightarrow> st = HBI_OK)"
proof (cases "ids = []")
  case True
  then show ?thesis using inv by (simp add: hbi_token_sequence_append_many_def)
next
  case False
  have room': "unat (ts_count s) + length ids \<le> 2 ^ 31" using room length_contents [OF inv] by simp
  obtain st s1 where g: "token_sequence_grow ok junk s (of_nat (length ids)) = Some (st, s1)" "seq_inv s1"
    "contents s1 = contents s" "ts_count s1 = ts_count s" "ok \<longrightarrow> st = HBI_OK"
    "if st = HBI_OK then unat (ts_count s) + length ids \<le> unat (ts_capacity s1) else s1 = s"
    using grow_correct [OF inv room', of ok junk] by blast
  show ?thesis
  proof (cases "st = HBI_OK")
    case True
    then have "unat (ts_count s1) + length ids \<le> unat (ts_capacity s1)" using g(4,6) by simp
    then show ?thesis using store_step [OF g(2), of ids] g True False
      by (auto simp: hbi_token_sequence_append_many_def)
  next
    case no: False
    then show ?thesis using g False by (auto simp: hbi_token_sequence_append_many_def)
  qed
qed

text \<open>Appending one id is appending a list of one.\<close>

lemma append_is_append_many:
  "hbi_token_sequence_append ok junk (Some s) i = hbi_token_sequence_append_many ok junk (Some s) (Some [i]) 1"
  by (simp add: hbi_token_sequence_append_def hbi_token_sequence_append_many_def split: option.splits prod.splits)

section \<open>Refinement of a list\<close>

datatype seq_op = Append bool u32 | Append_Many bool "u32 list" | Clear

fun seq_step :: "(nat \<Rightarrow> u32) \<Rightarrow> seq_op \<Rightarrow> hbi_token_sequence ptr \<Rightarrow> (hbi_status \<times> hbi_token_sequence ptr) option" where
  "seq_step junk (Append ok i) s = hbi_token_sequence_append ok junk s i"
| "seq_step junk (Append_Many ok ids) s = hbi_token_sequence_append_many ok junk s (Some ids) (length ids)"
| "seq_step junk Clear s = Some (HBI_OK, hbi_token_sequence_clear s)"

fun seq_run :: "(nat \<Rightarrow> u32) \<Rightarrow> seq_op list \<Rightarrow> hbi_token_sequence ptr \<Rightarrow> (hbi_status list \<times> hbi_token_sequence ptr) option" where
  "seq_run junk [] s = Some ([], s)"
| "seq_run junk (op # ops) s =
     (case seq_step junk op s of
        None \<Rightarrow> None
      | Some (st, s') \<Rightarrow> map_option (\<lambda>(sts, s''). (st # sts, s'')) (seq_run junk ops s'))"

text \<open>The abstract list: operations that report success take effect, the others do nothing.\<close>

fun list_step :: "seq_op \<Rightarrow> u32 list \<Rightarrow> u32 list" where
  "list_step (Append ok i) xs = xs @ [i]"
| "list_step (Append_Many ok ids) xs = xs @ ids"
| "list_step Clear xs = []"

fun list_run :: "seq_op list \<Rightarrow> hbi_status list \<Rightarrow> u32 list \<Rightarrow> u32 list" where
  "list_run (op # ops) (st # sts) xs = list_run ops sts (if st = HBI_OK then list_step op xs else xs)"
| "list_run _ _ xs = xs"

fun op_size :: "seq_op \<Rightarrow> nat" where
  "op_size (Append ok i) = 1"
| "op_size (Append_Many ok ids) = length ids"
| "op_size Clear = 0"

fun op_mem :: "seq_op \<Rightarrow> bool" where
  "op_mem (Append ok i) = ok"
| "op_mem (Append_Many ok ids) = ok"
| "op_mem Clear = True"

lemma seq_step_correct:
  assumes "seq_inv s" and "length (contents s) + op_size op \<le> 2 ^ 31"
  shows "\<exists>st s'. seq_step junk op (Some s) = Some (st, Some s') \<and> seq_inv s' \<and>
    contents s' = (if st = HBI_OK then list_step op (contents s) else contents s) \<and> (op_mem op \<longrightarrow> st = HBI_OK)"
proof (cases op)
  case (Append ok i)
  have "length (contents s) + length [i] \<le> 2 ^ 31" using assms(2) Append by simp
  from append_many_correct [OF assms(1) this, of ok junk] show ?thesis
    using Append by (simp add: append_is_append_many) metis
next
  case (Append_Many ok ids)
  have "length (contents s) + length ids \<le> 2 ^ 31" using assms(2) Append_Many by simp
  from append_many_correct [OF assms(1) this, of ok junk] show ?thesis using Append_Many by simp metis
next
  case Clear
  then show ?thesis using assms(1) by (auto simp: hbi_token_sequence_clear_def seq_inv_def contents_def)
qed

lemma list_step_length: "length (list_step op xs) \<le> length xs + op_size op"
  by (cases op) auto

lemma seq_run_correct:
  assumes "seq_inv s" and "length (contents s) + sum_list (map op_size ops) \<le> 2 ^ 31"
  shows "\<exists>sts s'. seq_run junk ops (Some s) = Some (sts, Some s') \<and> seq_inv s' \<and>
    contents s' = list_run ops sts (contents s) \<and> (list_all op_mem ops \<longrightarrow> list_all ((=) HBI_OK) sts)"
  using assms
proof (induction ops arbitrary: s)
  case (Cons op ops)
  obtain st s1 where 1: "seq_step junk op (Some s) = Some (st, Some s1)" "seq_inv s1"
    "contents s1 = (if st = HBI_OK then list_step op (contents s) else contents s)" "op_mem op \<longrightarrow> st = HBI_OK"
    using seq_step_correct [OF Cons.prems(1), of op junk] Cons.prems(2) by auto
  have "length (contents s1) \<le> length (contents s) + op_size op"
    using 1(3) list_step_length [of op "contents s"] by simp
  then obtain sts s' where 2: "seq_run junk ops (Some s1) = Some (sts, Some s')" "seq_inv s'"
    "contents s' = list_run ops sts (contents s1)" "list_all op_mem ops \<longrightarrow> list_all ((=) HBI_OK) sts"
    using Cons.IH [OF 1(2)] Cons.prems(2) by auto
  show ?case using 1 2 by auto
qed simp

lemma get_contents:
  "seq_inv s \<Longrightarrow> hbi_token_sequence_get (Some s) i =
     (if unat i < length (contents s) then contents s ! unat i else HBI_TOKEN_INVALID_ID)"
  using length_contents [of s] by (auto simp: hbi_token_sequence_get_def word_le_nat_alt contents_def)

text \<open>
  C32. A token sequence is a list. From creation on, every series of append, append-many and clear
  calls that adds at most \<open>2 ^ 31\<close> ids ends with defined results; each call that reports success has
  the effect of the list operation, each other call none, and no call fails while the allocator
  succeeds; the count and the element accessor read the list, out of range included.\<close>

theorem token_sequence_refines:
  assumes "hbi_token_sequence_create True True junk = Inr s"
    and "sum_list (map op_size ops) \<le> 2 ^ 31"
  shows "\<exists>sts s' xs. seq_run junk ops (Some s) = Some (sts, Some s') \<and> xs = list_run ops sts [] \<and>
    (list_all op_mem ops \<longrightarrow> list_all ((=) HBI_OK) sts) \<and>
    unat (hbi_token_sequence_count (Some s')) = length xs \<and>
    (\<forall>i. hbi_token_sequence_get (Some s') i = (if unat i < length xs then xs ! unat i else HBI_TOKEN_INVALID_ID))"
proof -
  have "seq_inv s" "contents s = []" using create_ok [OF assms(1)] by auto
  then obtain sts s' where r: "seq_run junk ops (Some s) = Some (sts, Some s')" "seq_inv s'"
    "contents s' = list_run ops sts []" "list_all op_mem ops \<longrightarrow> list_all ((=) HBI_OK) sts"
    using seq_run_correct [of s ops junk] assms(2) by auto
  have "unat (hbi_token_sequence_count (Some s')) = length (contents s')"
    using length_contents [OF r(2)] by (simp add: hbi_token_sequence_count_def)
  then show ?thesis using r get_contents [OF r(2)] by auto
qed

theorem token_sequence_refines_witness:
  "\<exists>s s'. hbi_token_sequence_create True True (\<lambda>_. 9) = Inr s \<and>
     seq_run (\<lambda>_. 9) [Append True 7, Clear, Append_Many True [4, 5]] (Some s) = Some ([HBI_OK, HBI_OK, HBI_OK], Some s') \<and>
     hbi_token_sequence_get (Some s') 1 = 5 \<and> hbi_token_sequence_get (Some s') 2 = HBI_TOKEN_INVALID_ID"
proof -
  let ?ops = "[Append True 7, Clear, Append_Many True [4, 5]]"
  obtain s where s: "hbi_token_sequence_create True True (\<lambda>_. 9) = Inr s"
    by (simp add: hbi_token_sequence_create_def)
  have small: "sum_list (map op_size ?ops) \<le> 2 ^ 31" by simp
  obtain sts s' where r: "seq_run (\<lambda>_. 9) ?ops (Some s) = Some (sts, Some s')"
    "list_all ((=) HBI_OK) sts"
    "\<forall>i. hbi_token_sequence_get (Some s') i =
       (if unat i < length (list_run ?ops sts []) then list_run ?ops sts [] ! unat i else HBI_TOKEN_INVALID_ID)"
    using token_sequence_refines [OF s small] by auto
  have "length sts = 3" using r(1) by (auto split: option.splits prod.splits)
  then have sts: "sts = [HBI_OK, HBI_OK, HBI_OK]" using r(2)
    by (auto simp: numeral_3_eq_3 length_Suc_conv)
  show ?thesis using s r(1,3) by (intro exI [of _ s] exI [of _ s']) (auto simp: sts)
qed

end
