(* ===== verification/Vocabulary.thy ===== *)
theory Vocabulary
  imports Utf8 Token_Sequence "HOL-Library.Multiset"
begin

text \<open>
  The vocabulary of the tokenizer framework (the vocabulary section of
  \<open>src/src/tokenizer/tokenizer.c\<close>): a hash table with open addressing and linear probing from
  token text to token id, doubled when more than 0.7 of its slots are in use, with marks for special
  tokens. The theorems show that it refines a partial map.

  \<^item> A token text is the list of bytes before the terminating NUL.
  \<^item> The table is a list of \<open>table_capacity\<close> entries. The capacity is a \<open>nat\<close>: a table whose byte
    size is a \<open>size_t\<close> keeps every sum and product of the probe loops in range. Only the search for
    the initial capacity, which works on the caller's number, has its 64 bits.
  \<^item> \<open>ok\<close> arguments say whether an allocation succeeds.
\<close>

unbundle bit_operations_syntax

section \<open>Data\<close>

datatype hbi_special_token_type =
  HBI_SPECIAL_UNKNOWN | HBI_SPECIAL_PAD | HBI_SPECIAL_BOS | HBI_SPECIAL_EOS | HBI_SPECIAL_SEP |
  HBI_SPECIAL_CLS | HBI_SPECIAL_MASK | HBI_SPECIAL_COUNT

fun special_value :: "hbi_special_token_type \<Rightarrow> nat" where
  "special_value HBI_SPECIAL_UNKNOWN = 0"
| "special_value HBI_SPECIAL_PAD = 1"
| "special_value HBI_SPECIAL_BOS = 2"
| "special_value HBI_SPECIAL_EOS = 3"
| "special_value HBI_SPECIAL_SEP = 4"
| "special_value HBI_SPECIAL_CLS = 5"
| "special_value HBI_SPECIAL_MASK = 6"
| "special_value HBI_SPECIAL_COUNT = 7"

fun hbi_special_token_type_str :: "hbi_special_token_type \<Rightarrow> string" where
  "hbi_special_token_type_str HBI_SPECIAL_UNKNOWN = ''unknown''"
| "hbi_special_token_type_str HBI_SPECIAL_PAD = ''pad''"
| "hbi_special_token_type_str HBI_SPECIAL_BOS = ''bos''"
| "hbi_special_token_type_str HBI_SPECIAL_EOS = ''eos''"
| "hbi_special_token_type_str HBI_SPECIAL_SEP = ''sep''"
| "hbi_special_token_type_str HBI_SPECIAL_CLS = ''cls''"
| "hbi_special_token_type_str HBI_SPECIAL_MASK = ''mask''"
| "hbi_special_token_type_str HBI_SPECIAL_COUNT = ''invalid''"

definition HBI_TOKEN_TEXT_MAX :: nat where "HBI_TOKEN_TEXT_MAX = 256"

record hbi_vocab_entry =
  ve_text :: "u8 list"
  ve_id :: u32
  ve_occupied :: bool
  ve_is_special :: bool
  ve_special_type :: hbi_special_token_type

record hbi_vocabulary =
  table :: "hbi_vocab_entry list"
  table_capacity :: nat
  v_count :: u32
  special_ids :: "u32 list"

text \<open>An entry after \<open>memset\<close>.\<close>

definition zero_entry :: hbi_vocab_entry where
  "zero_entry = \<lparr>ve_text = [], ve_id = 0, ve_occupied = False, ve_is_special = False,
     ve_special_type = HBI_SPECIAL_UNKNOWN\<rparr>"

section \<open>Hashing and creation\<close>

definition fnv1a :: "u8 list \<Rightarrow> u64" where
  "fnv1a txt = foldl (\<lambda>h c. (h XOR ucast c) * 0x100000001b3) 0xcbf29ce484222325 txt"

definition vocab_hash :: "u8 list \<Rightarrow> nat \<Rightarrow> nat" where
  "vocab_hash txt cap = unat (fnv1a txt) AND (cap - 1)"

partial_function (option) pow2_loop :: "u64 \<Rightarrow> u64 \<Rightarrow> u64 option" where
  "pow2_loop n cap = (if cap < n then pow2_loop n (cap * 2) else Some cap)"

definition vocab_next_pow2 :: "u64 \<Rightarrow> u64 option" where
  "vocab_next_pow2 n = pow2_loop n 16"

definition hbi_vocabulary_create :: "bool \<Rightarrow> bool \<Rightarrow> u64 \<Rightarrow> hbi_vocabulary outcome option" where
  "hbi_vocabulary_create ok1 ok2 initial =
     (case vocab_next_pow2 (if initial < 16 then 16 else initial) of
        None \<Rightarrow> None
      | Some cap \<Rightarrow>
          Some (if \<not> ok1 then Inl HBI_ERR_OOM
            else if \<not> ok2 then Inl HBI_ERR_OOM
            else Inr \<lparr>table = replicate (unat cap) zero_entry, table_capacity = unat cap, v_count = 0,
              special_ids = replicate (special_value HBI_SPECIAL_COUNT) HBI_TOKEN_INVALID_ID\<rparr>))"

section \<open>Searching\<close>

definition probe :: "nat \<Rightarrow> nat \<Rightarrow> nat \<Rightarrow> nat" where
  "probe cap idx i = (idx + i) AND (cap - 1)"

fun find_slot_loop :: "hbi_vocab_entry list \<Rightarrow> nat \<Rightarrow> u8 list \<Rightarrow> nat \<Rightarrow> nat list \<Rightarrow> nat" where
  "find_slot_loop tbl cap txt idx [] = cap"
| "find_slot_loop tbl cap txt idx (i # is) =
     (let slot = probe cap idx i in
      if \<not> ve_occupied (tbl ! slot) then cap
      else if ve_text (tbl ! slot) = txt then slot
      else find_slot_loop tbl cap txt idx is)"

definition vocab_find_slot :: "hbi_vocabulary \<Rightarrow> u8 list \<Rightarrow> nat" where
  "vocab_find_slot v txt =
     find_slot_loop (table v) (table_capacity v) txt (vocab_hash txt (table_capacity v)) [0..<table_capacity v]"

fun find_id_loop :: "hbi_vocab_entry list \<Rightarrow> nat \<Rightarrow> u32 \<Rightarrow> nat list \<Rightarrow> nat" where
  "find_id_loop tbl cap i [] = cap"
| "find_id_loop tbl cap i (s # ss) =
     (if ve_occupied (tbl ! s) \<and> ve_id (tbl ! s) = i then s else find_id_loop tbl cap i ss)"

definition vocab_find_by_id :: "hbi_vocabulary \<Rightarrow> u32 \<Rightarrow> nat" where
  "vocab_find_by_id v i = find_id_loop (table v) (table_capacity v) i [0..<table_capacity v]"

section \<open>Insertion\<close>

text \<open>
  The loop that resizing and adding share: store \<open>e\<close> in the first free slot of a probe sequence;
  \<open>None\<close> when there is none.
\<close>

fun insert_loop :: "hbi_vocab_entry \<Rightarrow> hbi_vocab_entry list \<Rightarrow> nat \<Rightarrow> nat \<Rightarrow> nat list \<Rightarrow> hbi_vocab_entry list option" where
  "insert_loop e tbl cap idx [] = None"
| "insert_loop e tbl cap idx (i # is) =
     (let slot = probe cap idx i in
      if \<not> ve_occupied (tbl ! slot) then Some (tbl[slot := e]) else insert_loop e tbl cap idx is)"

fun rehash :: "nat \<Rightarrow> hbi_vocab_entry list \<Rightarrow> hbi_vocab_entry list \<Rightarrow> hbi_vocab_entry list" where
  "rehash cap [] new_table = new_table"
| "rehash cap (e # es) new_table =
     (if \<not> ve_occupied e then rehash cap es new_table
      else rehash cap es
        (case insert_loop e new_table cap (vocab_hash (ve_text e) cap) [0..<cap] of
           None \<Rightarrow> new_table
         | Some t \<Rightarrow> t))"

definition vocab_resize :: "bool \<Rightarrow> hbi_vocabulary \<Rightarrow> hbi_status \<times> hbi_vocabulary" where
  "vocab_resize ok v =
     (let new_cap = table_capacity v * 2 in
      if \<not> ok then (HBI_ERR_OOM, v)
      else (HBI_OK, v\<lparr>table := rehash new_cap (table v) (replicate new_cap zero_entry), table_capacity := new_cap\<rparr>))"

definition new_entry :: "u8 list \<Rightarrow> u32 \<Rightarrow> hbi_vocab_entry" where
  "new_entry txt i = \<lparr>ve_text = txt, ve_id = i, ve_occupied = True, ve_is_special = False,
     ve_special_type = HBI_SPECIAL_UNKNOWN\<rparr>"

definition vocab_insert :: "hbi_vocabulary \<Rightarrow> u8 list \<Rightarrow> u32 \<Rightarrow> hbi_status \<times> hbi_vocabulary" where
  "vocab_insert v txt i =
     (case insert_loop (new_entry txt i) (table v) (table_capacity v) (vocab_hash txt (table_capacity v))
             [0..<table_capacity v] of
        None \<Rightarrow> (HBI_ERR_STATE, v)
      | Some t \<Rightarrow> (HBI_OK, v\<lparr>table := t, v_count := v_count v + 1\<rparr>))"

definition hbi_vocabulary_add ::
  "bool \<Rightarrow> hbi_vocabulary ptr \<Rightarrow> u8 list ptr \<Rightarrow> u32 \<Rightarrow> hbi_status \<times> hbi_vocabulary ptr" where
  "hbi_vocabulary_add ok vocab txt i =
     (case (vocab, txt) of
        (Some v, Some t) \<Rightarrow>
          if length t = 0 \<or> HBI_TOKEN_TEXT_MAX \<le> length t then (HBI_ERR_INVALID_ARG, Some v)
          else
            let existing = vocab_find_by_id v i in
            if existing < table_capacity v then
              (if ve_text (table v ! existing) \<noteq> t then HBI_ERR_STATE else HBI_OK, Some v)
            else
              let text_slot = vocab_find_slot v t in
              if text_slot < table_capacity v then
                (if ve_id (table v ! text_slot) \<noteq> i then HBI_ERR_STATE else HBI_OK, Some v)
              else
                let (st, v1) = (if unat (v_count v) * 10 > table_capacity v * 7 then vocab_resize ok v else (HBI_OK, v)) in
                if st \<noteq> HBI_OK then (st, Some v1)
                else map_prod id Some (vocab_insert v1 t i)
      | _ \<Rightarrow> (HBI_ERR_INVALID_ARG, vocab))"

section \<open>Special tokens and accessors\<close>

definition hbi_vocabulary_set_special ::
  "hbi_vocabulary ptr \<Rightarrow> u32 \<Rightarrow> hbi_special_token_type \<Rightarrow> hbi_status \<times> hbi_vocabulary ptr" where
  "hbi_vocabulary_set_special vocab i ty =
     (case vocab of
        None \<Rightarrow> (HBI_ERR_INVALID_ARG, None)
      | Some v \<Rightarrow>
          if special_value HBI_SPECIAL_COUNT \<le> special_value ty then (HBI_ERR_INVALID_ARG, Some v)
          else
            let slot = vocab_find_by_id v i in
            if table_capacity v \<le> slot then (HBI_ERR_NOT_FOUND, Some v)
            else (HBI_OK, Some (v\<lparr>
              table := (table v)[slot := (table v ! slot)\<lparr>ve_is_special := True, ve_special_type := ty\<rparr>],
              special_ids := (special_ids v)[special_value ty := i]\<rparr>)))"

definition hbi_vocabulary_lookup :: "hbi_vocabulary ptr \<Rightarrow> u8 list ptr \<Rightarrow> u32" where
  "hbi_vocabulary_lookup vocab txt =
     (case (vocab, txt) of
        (Some v, Some t) \<Rightarrow>
          let slot = vocab_find_slot v t in
          if table_capacity v \<le> slot then HBI_TOKEN_INVALID_ID else ve_id (table v ! slot)
      | _ \<Rightarrow> HBI_TOKEN_INVALID_ID)"

definition hbi_vocabulary_text :: "hbi_vocabulary ptr \<Rightarrow> u32 \<Rightarrow> u8 list ptr" where
  "hbi_vocabulary_text vocab i =
     (case vocab of
        None \<Rightarrow> None
      | Some v \<Rightarrow>
          let slot = vocab_find_by_id v i in
          if table_capacity v \<le> slot then None else Some (ve_text (table v ! slot)))"

definition hbi_vocabulary_size :: "hbi_vocabulary ptr \<Rightarrow> u32" where
  "hbi_vocabulary_size vocab = (case vocab of None \<Rightarrow> 0 | Some v \<Rightarrow> v_count v)"

definition hbi_vocabulary_is_special :: "hbi_vocabulary ptr \<Rightarrow> u32 \<Rightarrow> bool" where
  "hbi_vocabulary_is_special vocab i =
     (case vocab of
        None \<Rightarrow> False
      | Some v \<Rightarrow>
          let slot = vocab_find_by_id v i in
          if table_capacity v \<le> slot then False else ve_is_special (table v ! slot))"

definition hbi_vocabulary_special_id :: "hbi_vocabulary ptr \<Rightarrow> hbi_special_token_type \<Rightarrow> u32" where
  "hbi_vocabulary_special_id vocab ty =
     (case vocab of
        None \<Rightarrow> HBI_TOKEN_INVALID_ID
      | Some v \<Rightarrow>
          if special_value HBI_SPECIAL_COUNT \<le> special_value ty then HBI_TOKEN_INVALID_ID
          else special_ids v ! special_value ty)"

fun utf8_scan :: "hbi_vocab_entry list \<Rightarrow> hbi_status" where
  "utf8_scan [] = HBI_OK"
| "utf8_scan (e # es) =
     (if \<not> ve_occupied e then utf8_scan es
      else if \<not> hbi_utf8_validate (Some (ve_text e)) (length (ve_text e)) then HBI_ERR_CORRUPT
      else utf8_scan es)"

definition hbi_vocabulary_validate :: "hbi_vocabulary ptr \<Rightarrow> hbi_status" where
  "hbi_vocabulary_validate vocab =
     (case vocab of
        None \<Rightarrow> HBI_ERR_INVALID_ARG
      | Some v \<Rightarrow>
          let st = utf8_scan (table v) in
          if st \<noteq> HBI_OK then st
          else if special_ids v ! special_value HBI_SPECIAL_UNKNOWN = HBI_TOKEN_INVALID_ID then HBI_ERR_STATE
          else HBI_OK)"

section \<open>The initial capacity\<close>

lemma pow2_loop_returns:
  assumes "cap = 2 ^ k" and "4 \<le> k" and "k \<le> 63" and "n \<le> 2 ^ 63"
  shows "\<exists>j. pow2_loop n cap = Some (2 ^ j) \<and> 4 \<le> j \<and> j \<le> 63"
  using assms
proof (induction "63 - k" arbitrary: cap k)
  case 0
  then have "k = 63" by simp
  then show ?case using 0 by (subst pow2_loop.simps) (auto intro!: exI [of _ 63])
next
  case (Suc d)
  show ?case
  proof (cases "cap < n")
    case True
    have "\<exists>j. pow2_loop n (cap * 2) = Some (2 ^ j) \<and> 4 \<le> j \<and> j \<le> 63"
      using Suc.hyps(1) [of "Suc k" "cap * 2"] Suc.hyps(2) Suc.prems by (simp add: mult.commute)
    then show ?thesis using True by (subst pow2_loop.simps) simp
  next
    case False
    then show ?thesis using Suc.prems by (subst pow2_loop.simps) auto
  qed
qed

section \<open>Probe sequences\<close>

lemma probe_mod: "probe (2 ^ k) idx i = (idx + i) mod 2 ^ k"
  by (simp add: probe_def take_bit_eq_mask mask_eq_exp_minus_1 flip: take_bit_eq_mod)

lemma probe_less: "probe (2 ^ k) idx i < 2 ^ k"
  by (simp add: probe_mod)

lemma probe_reaches:
  assumes "s < 2 ^ k"
  shows "\<exists>i < 2 ^ k. probe (2 ^ k) idx i = s"
proof -
  let ?c = "2 ^ k :: nat"
  let ?i = "(s + (?c - idx mod ?c)) mod ?c"
  have "(idx + ?i) mod ?c = (idx mod ?c + (s + (?c - idx mod ?c))) mod ?c" by (simp add: mod_simps)
  also have "\<dots> = (s + ?c) mod ?c"
  proof -
    have "idx mod ?c < ?c" by simp
    then have "idx mod ?c + (s + (?c - idx mod ?c)) = s + ?c" by linarith
    then show ?thesis by (simp only:)
  qed
  also have "\<dots> = s" using assms by simp
  finally show ?thesis by (intro exI [of _ ?i]) (simp add: probe_mod)
qed

lemma find_first:
  assumes "i < n" and "P i"
  shows "\<exists>m. find P [0..<n] = Some m \<and> P m \<and> m \<le> i \<and> (\<forall>j < m. \<not> P j)"
proof -
  obtain m where m: "find P [0..<n] = Some m"
    using assms by (cases "find P [0..<n]") (auto simp: find_None_iff)
  then obtain a where a: "a < n" "m = [0..<n] ! a" "P ([0..<n] ! a)" "\<forall>j < a. \<not> P ([0..<n] ! j)"
    by (auto simp: find_Some_iff)
  have am: "m = a" using a by simp
  have less: "\<forall>j < a. \<not> P j" using a(1,4) by auto
  have "m \<le> i" using less assms(2) am not_less by blast
  then show ?thesis using m a am less by auto
qed

lemma find_slot_loop_find:
  "find_slot_loop tbl cap txt idx is =
     (case find (\<lambda>i. \<not> ve_occupied (tbl ! probe cap idx i) \<or> ve_text (tbl ! probe cap idx i) = txt) is of
        None \<Rightarrow> cap
      | Some i \<Rightarrow> if ve_occupied (tbl ! probe cap idx i) then probe cap idx i else cap)"
  by (induction "is") (auto simp: Let_def)

lemma insert_loop_find:
  "insert_loop e tbl cap idx is =
     map_option (\<lambda>i. tbl[probe cap idx i := e]) (find (\<lambda>i. \<not> ve_occupied (tbl ! probe cap idx i)) is)"
  by (induction "is") (auto simp: Let_def)

lemma find_id_loop_find:
  "find_id_loop tbl cap i ss =
     (case find (\<lambda>s. ve_occupied (tbl ! s) \<and> ve_id (tbl ! s) = i) ss of None \<Rightarrow> cap | Some s \<Rightarrow> s)"
  by (induction ss) auto

section \<open>Well-formed tables\<close>

abbreviation used :: "hbi_vocab_entry list \<Rightarrow> hbi_vocab_entry list" where
  "used tbl \<equiv> filter ve_occupied tbl"

text \<open>Every entry is reached from its hash value without passing a free slot.\<close>

definition chained :: "hbi_vocab_entry list \<Rightarrow> bool" where
  "chained tbl \<longleftrightarrow> (\<forall>s < length tbl. ve_occupied (tbl ! s) \<longrightarrow>
     (\<exists>i < length tbl. probe (length tbl) (vocab_hash (ve_text (tbl ! s)) (length tbl)) i = s \<and>
        (\<forall>j < i. ve_occupied (tbl ! probe (length tbl) (vocab_hash (ve_text (tbl ! s)) (length tbl)) j))))"

definition table_ok :: "hbi_vocab_entry list \<Rightarrow> bool" where
  "table_ok tbl \<longleftrightarrow> (\<exists>k. length tbl = 2 ^ k) \<and> chained tbl \<and> distinct (map ve_text (used tbl)) \<and>
     distinct (map ve_id (used tbl))"

lemma used_text_eq:
  "table_ok tbl \<Longrightarrow> a \<in> set (used tbl) \<Longrightarrow> b \<in> set (used tbl) \<Longrightarrow> ve_text a = ve_text b \<Longrightarrow> a = b"
  by (auto simp: table_ok_def distinct_map dest: inj_onD)

lemma used_id_eq:
  "table_ok tbl \<Longrightarrow> a \<in> set (used tbl) \<Longrightarrow> b \<in> set (used tbl) \<Longrightarrow> ve_id a = ve_id b \<Longrightarrow> a = b"
  by (auto simp: table_ok_def distinct_map dest: inj_onD)

lemma used_nth: "s < length tbl \<Longrightarrow> ve_occupied (tbl ! s) \<Longrightarrow> tbl ! s \<in> set (used tbl)"
  by simp

lemma find_slot_hit:
  assumes ok: "table_ok tbl" and e: "e \<in> set (used tbl)"
  shows "\<exists>s < length tbl. find_slot_loop tbl (length tbl) (ve_text e) (vocab_hash (ve_text e) (length tbl)) [0..<length tbl] = s \<and>
    tbl ! s = e"
proof -
  let ?n = "length tbl"
  let ?p = "probe ?n (vocab_hash (ve_text e) ?n)"
  let ?P = "\<lambda>i. \<not> ve_occupied (tbl ! ?p i) \<or> ve_text (tbl ! ?p i) = ve_text e"
  obtain s where s: "s < ?n" "tbl ! s = e" "ve_occupied e" using e by (auto simp: in_set_conv_nth)
  obtain i where i: "i < ?n" "?p i = s" "\<forall>j < i. ve_occupied (tbl ! ?p j)"
    using ok s by (auto simp: table_ok_def chained_def)
  have "?P i" using i(2) s(2) by simp
  then obtain m where m: "find ?P [0..<?n] = Some m" "?P m" "m \<le> i" using find_first [OF i(1), of ?P] by blast
  have occ: "ve_occupied (tbl ! ?p m)" using m(3) i s by (cases "m = i") auto
  obtain k where "?n = 2 ^ k" using ok by (auto simp: table_ok_def)
  then have less: "?p m < ?n" by (simp add: probe_less)
  have "tbl ! ?p m = e" using used_text_eq [OF ok used_nth [OF less occ] e] m(2) occ by simp
  then show ?thesis using m(1) occ less by (auto simp: find_slot_loop_find)
qed

lemma find_slot_miss:
  assumes ok: "table_ok tbl" and no: "txt \<notin> ve_text ` set (used tbl)"
  shows "find_slot_loop tbl (length tbl) txt idx [0..<length tbl] = length tbl"
proof -
  let ?p = "probe (length tbl) idx"
  obtain k where "length tbl = 2 ^ k" using ok by (auto simp: table_ok_def)
  then have "?p i < length tbl" for i by (simp add: probe_less)
  then have "ve_occupied (tbl ! ?p i) \<Longrightarrow> ve_text (tbl ! ?p i) \<noteq> txt" for i
    using no used_nth [of "?p i" tbl] by (metis imageI)
  then show ?thesis by (auto simp: find_slot_loop_find find_Some_iff split: option.splits)
qed

lemma find_id_hit:
  assumes ok: "table_ok tbl" and e: "e \<in> set (used tbl)"
  shows "\<exists>s < length tbl. find_id_loop tbl (length tbl) (ve_id e) [0..<length tbl] = s \<and> tbl ! s = e"
proof -
  let ?P = "\<lambda>s. ve_occupied (tbl ! s) \<and> ve_id (tbl ! s) = ve_id e"
  obtain s where s: "s < length tbl" "?P s" using e by (auto simp: in_set_conv_nth)
  obtain m where m: "find ?P [0..<length tbl] = Some m" "?P m" "m \<le> s" using find_first [OF s(1), of ?P] s(2) by blast
  have less: "m < length tbl" using m(3) s(1) by simp
  have "tbl ! m = e" using used_id_eq [OF ok _ e] used_nth [OF less] m(2) by blast
  then show ?thesis using m less by (auto simp: find_id_loop_find)
qed

lemma find_id_miss:
  assumes no: "i \<notin> ve_id ` set (used tbl)"
  shows "find_id_loop tbl (length tbl) i [0..<length tbl] = length tbl"
proof -
  have "\<not> (ve_occupied (tbl ! s) \<and> ve_id (tbl ! s) = i)" if "s < length tbl" for s
    using no used_nth [OF that] by (metis imageI)
  then have "find (\<lambda>s. ve_occupied (tbl ! s) \<and> ve_id (tbl ! s) = i) [0..<length tbl] = None"
    by (auto simp: find_None_iff)
  then show ?thesis by (simp add: find_id_loop_find)
qed

section \<open>Inserting keeps the table well-formed\<close>

lemma mset_used_update:
  assumes "s < length tbl" and "\<not> ve_occupied (tbl ! s)" and "ve_occupied e"
  shows "mset (used (tbl[s := e])) = add_mset e (mset (used tbl))"
proof -
  have "mset tbl = add_mset (tbl ! s) (mset (take s tbl) + mset (drop (Suc s) tbl))"
    using assms(1) by (subst (1) id_take_nth_drop [of s tbl]) simp_all
  moreover have "mset (tbl[s := e]) = add_mset e (mset (take s tbl) + mset (drop (Suc s) tbl))"
    using assms(1) by (simp add: upd_conv_take_nth_drop)
  ultimately show ?thesis using assms(2,3) by (simp add: mset_filter)
qed

lemma chained_insert:
  assumes ch: "chained tbl" and occ: "ve_occupied e"
    and m: "m < length tbl" "\<forall>j < m. ve_occupied (tbl ! probe (length tbl) (vocab_hash (ve_text e) (length tbl)) j)"
    and s: "s = probe (length tbl) (vocab_hash (ve_text e) (length tbl)) m" "\<not> ve_occupied (tbl ! s)" "s < length tbl"
  shows "chained (tbl[s := e])"
  unfolding chained_def
proof (intro allI impI)
  fix s'
  let ?n = "length (tbl[s := e])"
  let ?p = "\<lambda>f. probe ?n (vocab_hash (ve_text f) ?n)"
  assume s': "s' < ?n" "ve_occupied (tbl[s := e] ! s')"
  have mono: "ve_occupied (tbl[s := e] ! x)" if "ve_occupied (tbl ! x)" for x
    using that occ s(3) by (cases "x = s") auto
  show "\<exists>i < ?n. ?p (tbl[s := e] ! s') i = s' \<and> (\<forall>j < i. ve_occupied (tbl[s := e] ! ?p (tbl[s := e] ! s') j))"
  proof (cases "s' = s")
    case True
    then show ?thesis using m s mono by (intro exI [of _ m]) simp
  next
    case False
    then have "ve_occupied (tbl ! s')" "s' < length tbl" using s' by auto
    then obtain i where "i < length tbl" "probe (length tbl) (vocab_hash (ve_text (tbl ! s')) (length tbl)) i = s'"
      "\<forall>j < i. ve_occupied (tbl ! probe (length tbl) (vocab_hash (ve_text (tbl ! s')) (length tbl)) j)"
      using ch by (auto simp: chained_def)
    then show ?thesis using False mono by (intro exI [of _ i]) simp
  qed
qed

lemma distinct_add:
  assumes "mset xs = add_mset e (mset ys)"
  shows "distinct (map f xs) \<longleftrightarrow> f e \<notin> f ` set ys \<and> distinct (map f ys)"
proof -
  have "mset (map f xs) = mset (map f (e # ys))" using assms by simp
  then have "distinct (map f xs) = distinct (map f (e # ys))" by (rule mset_eq_imp_distinct_iff)
  then show ?thesis by simp
qed

lemma insert_correct:
  assumes ok: "table_ok tbl" and room: "length (used tbl) < length tbl" and occ: "ve_occupied e"
    and fresh: "ve_text e \<notin> ve_text ` set (used tbl)" "ve_id e \<notin> ve_id ` set (used tbl)"
  shows "\<exists>t. insert_loop e tbl (length tbl) (vocab_hash (ve_text e) (length tbl)) [0..<length tbl] = Some t \<and>
    table_ok t \<and> length t = length tbl \<and> mset (used t) = add_mset e (mset (used tbl))"
proof -
  let ?p = "probe (length tbl) (vocab_hash (ve_text e) (length tbl))"
  let ?P = "\<lambda>i. \<not> ve_occupied (tbl ! ?p i)"
  obtain k where k: "length tbl = 2 ^ k" using ok by (auto simp: table_ok_def)
  have "\<exists>x \<in> set tbl. \<not> ve_occupied x"
    using room length_filter_less [of _ tbl ve_occupied] by (metis filter_True nat_less_le)
  then obtain s0 where "s0 < length tbl" "\<not> ve_occupied (tbl ! s0)" by (auto simp: in_set_conv_nth)
  then obtain i where "i < length tbl" "?P i"
    using probe_reaches [of s0 k "vocab_hash (ve_text e) (length tbl)"] k by metis
  then obtain m where m: "find ?P [0..<length tbl] = Some m" "?P m" "m \<le> i" "\<forall>j < m. \<not> ?P j" "m < length tbl"
    using find_first [of i "length tbl" ?P] by (metis le_less_trans)
  let ?s = "?p m" and ?t = "tbl[?p m := e]"
  have s: "?s < length tbl" using k by (simp add: probe_less)
  have ms: "mset (used ?t) = add_mset e (mset (used tbl))" using mset_used_update [OF s m(2) occ] .
  have "chained ?t"
  proof (rule chained_insert [OF _ occ m(5) _ refl m(2) s])
    show "chained tbl" using ok by (simp add: table_ok_def)
    show "\<forall>j < m. ve_occupied (tbl ! ?p j)" using m(4) by blast
  qed
  then have "table_ok ?t" using ok k fresh distinct_add [OF ms, of ve_text] distinct_add [OF ms, of ve_id] by (simp add: table_ok_def)
  then show ?thesis using m(1) ms by (simp add: insert_loop_find)
qed

section \<open>Resizing\<close>

lemma used_replicate [simp]: "used (replicate n zero_entry) = []"
  by (simp add: zero_entry_def)

lemma table_ok_empty: "table_ok (replicate (2 ^ k) zero_entry)"
  by (simp add: table_ok_def chained_def) (simp add: zero_entry_def)

lemma rehash_correct:
  assumes "table_ok new" and "length new = cap" and "length (used new) + length (used es) < cap"
    and "distinct (map ve_text (used es @ used new))" and "distinct (map ve_id (used es @ used new))"
  shows "table_ok (rehash cap es new) \<and> length (rehash cap es new) = cap \<and>
    mset (used (rehash cap es new)) = mset (used es) + mset (used new)"
  using assms
proof (induction es arbitrary: new)
  case (Cons e es)
  show ?case
  proof (cases "ve_occupied e")
    case True
    obtain t where t: "insert_loop e new cap (vocab_hash (ve_text e) cap) [0..<cap] = Some t" "table_ok t"
      "length t = cap" "mset (used t) = add_mset e (mset (used new))"
      using insert_correct [OF Cons.prems(1) _ True] Cons.prems(2-5) True by auto
    have perm: "mset (map f (used es @ used t)) = mset (map f (used (e # es) @ used new))"
      for f :: "hbi_vocab_entry \<Rightarrow> 'b"
      using t(4) True by simp
    have "length (used t) = Suc (length (used new))" using t(4) by (metis size_add_mset size_mset)
    then show ?thesis
      using Cons.IH [OF t(2,3)] t(1,4) Cons.prems(3-5) True
        mset_eq_imp_distinct_iff [OF perm [of ve_text]] mset_eq_imp_distinct_iff [OF perm [of ve_id]] by simp
  next
    case False
    then show ?thesis using Cons by simp
  qed
qed simp

section \<open>The vocabulary as a partial map\<close>

definition vocab_inv :: "hbi_vocabulary \<Rightarrow> bool" where
  "vocab_inv v \<longleftrightarrow> table_ok (table v) \<and> length (table v) = table_capacity v \<and> 16 \<le> table_capacity v \<and>
     unat (v_count v) = length (used (table v)) \<and> unat (v_count v) * 10 \<le> table_capacity v * 7 + 10 \<and>
     length (special_ids v) = 7"

record vocab_spec =
  sp_ids :: "u8 list \<Rightarrow> u32 option"
  sp_flags :: "u32 set"
  sp_special :: "hbi_special_token_type \<Rightarrow> u32"

definition special_of :: "u32 list \<Rightarrow> hbi_special_token_type \<Rightarrow> u32" where
  "special_of ids ty = (if ty = HBI_SPECIAL_COUNT then HBI_TOKEN_INVALID_ID else ids ! special_value ty)"

definition vocab_abs :: "hbi_vocabulary \<Rightarrow> vocab_spec" where
  "vocab_abs v = \<lparr>sp_ids = map_of (map (\<lambda>e. (ve_text e, ve_id e)) (used (table v))),
     sp_flags = ve_id ` {e \<in> set (used (table v)). ve_is_special e},
     sp_special = special_of (special_ids v)\<rparr>"

definition spec_empty :: vocab_spec where
  "spec_empty = \<lparr>sp_ids = Map.empty, sp_flags = {}, sp_special = (\<lambda>_. HBI_TOKEN_INVALID_ID)\<rparr>"

definition spec_add :: "u8 list \<Rightarrow> u32 \<Rightarrow> vocab_spec \<Rightarrow> hbi_status \<times> vocab_spec" where
  "spec_add t i a =
     (if t = [] \<or> HBI_TOKEN_TEXT_MAX \<le> length t then (HBI_ERR_INVALID_ARG, a)
      else if sp_ids a t = Some i then (HBI_OK, a)
      else if i \<in> ran (sp_ids a) \<or> t \<in> dom (sp_ids a) then (HBI_ERR_STATE, a)
      else (HBI_OK, a\<lparr>sp_ids := (sp_ids a)(t \<mapsto> i)\<rparr>))"

definition spec_set_special :: "u32 \<Rightarrow> hbi_special_token_type \<Rightarrow> vocab_spec \<Rightarrow> hbi_status \<times> vocab_spec" where
  "spec_set_special i ty a =
     (if ty = HBI_SPECIAL_COUNT then (HBI_ERR_INVALID_ARG, a)
      else if i \<notin> ran (sp_ids a) then (HBI_ERR_NOT_FOUND, a)
      else (HBI_OK, a\<lparr>sp_flags := insert i (sp_flags a), sp_special := (sp_special a)(ty := i)\<rparr>))"

lemma distinct_used: "vocab_inv v \<Longrightarrow> distinct (map ve_text (used (table v)))"
  by (simp add: vocab_inv_def table_ok_def)

lemma abs_ids_iff:
  assumes "vocab_inv v"
  shows "sp_ids (vocab_abs v) t = Some i \<longleftrightarrow> (\<exists>e \<in> set (used (table v)). ve_text e = t \<and> ve_id e = i)"
proof -
  have "distinct (map fst (map (\<lambda>e. (ve_text e, ve_id e)) (used (table v))))"
    using distinct_used [OF assms] by (simp add: comp_def)
  then show ?thesis by (auto simp: vocab_abs_def map_of_eq_Some_iff simp del: map_map)
qed

lemma abs_ran: "vocab_inv v \<Longrightarrow> ran (sp_ids (vocab_abs v)) = ve_id ` set (used (table v))"
  by (auto simp: ran_def abs_ids_iff)

lemma abs_dom: "dom (sp_ids (vocab_abs v)) = ve_text ` set (used (table v))"
  by (auto simp: vocab_abs_def dom_map_of_conv_image_fst image_image)

lemma find_by_id_cases:
  assumes inv: "vocab_inv v"
  obtains (miss) "i \<notin> ran (sp_ids (vocab_abs v))" "vocab_find_by_id v i = table_capacity v"
  | (hit) e where "vocab_find_by_id v i < table_capacity v" "table v ! vocab_find_by_id v i = e"
      "e \<in> set (used (table v))" "ve_id e = i" "i \<in> ran (sp_ids (vocab_abs v))"
proof (cases "i \<in> ve_id ` set (used (table v))")
  case True
  then obtain e where e: "e \<in> set (used (table v))" "ve_id e = i" by blast
  have ok: "table_ok (table v)" "length (table v) = table_capacity v" using inv by (auto simp: vocab_inv_def)
  obtain s where "s < table_capacity v" "vocab_find_by_id v i = s" "table v ! s = e"
    using find_id_hit [OF ok(1) e(1)] ok(2) e(2) by (auto simp: vocab_find_by_id_def)
  then show ?thesis using e True abs_ran [OF inv] by (intro hit) auto
next
  case False
  then show ?thesis
    using find_id_miss [OF False] inv abs_ran [OF inv] by (intro miss) (auto simp: vocab_find_by_id_def vocab_inv_def)
qed

lemma find_slot_cases:
  assumes inv: "vocab_inv v"
  obtains (miss) "sp_ids (vocab_abs v) t = None" "vocab_find_slot v t = table_capacity v"
  | (hit) e where "vocab_find_slot v t < table_capacity v" "table v ! vocab_find_slot v t = e"
      "e \<in> set (used (table v))" "ve_text e = t" "sp_ids (vocab_abs v) t = Some (ve_id e)"
proof (cases "t \<in> ve_text ` set (used (table v))")
  case True
  then obtain e where e: "e \<in> set (used (table v))" "ve_text e = t" by blast
  have ok: "table_ok (table v)" "length (table v) = table_capacity v" using inv by (auto simp: vocab_inv_def)
  obtain s where "s < table_capacity v" "vocab_find_slot v t = s" "table v ! s = e"
    using find_slot_hit [OF ok(1) e(1)] ok(2) e(2) by (auto simp: vocab_find_slot_def)
  then show ?thesis using e abs_ids_iff [OF inv] by (intro hit) auto
next
  case False
  then have "sp_ids (vocab_abs v) t = None" using abs_dom [of v] by (metis domIff)
  then show ?thesis
    using find_slot_miss [OF _ False] inv by (intro miss) (auto simp: vocab_find_slot_def vocab_inv_def)
qed

section \<open>The operations refine the map\<close>

text \<open>The abstraction only depends on which entries are in use.\<close>

lemma map_ext_Some: "(\<And>x y. m x = Some y \<longleftrightarrow> m' x = Some y) \<Longrightarrow> m = m'"
  by (rule ext) (metis not_None_eq)

lemma abs_ids_cong:
  assumes "vocab_inv v" and "vocab_inv w" and "set (used (table v)) = set (used (table w))"
  shows "sp_ids (vocab_abs v) = sp_ids (vocab_abs w)"
  by (rule map_ext_Some) (simp only: abs_ids_iff [OF assms(1)] abs_ids_iff [OF assms(2)] assms(3))

lemma resize_correct:
  assumes inv: "vocab_inv v"
  shows "\<exists>v'. vocab_resize True v = (HBI_OK, v') \<and> vocab_inv v' \<and> vocab_abs v' = vocab_abs v \<and>
    v_count v' = v_count v \<and> unat (v_count v') * 10 \<le> table_capacity v' * 7"
proof -
  let ?cap = "table_capacity v * 2"
  let ?new = "replicate ?cap zero_entry"
  let ?v = "v\<lparr>table := rehash ?cap (table v) ?new, table_capacity := ?cap\<rparr>"
  have i: "table_ok (table v)" "length (table v) = table_capacity v" "16 \<le> table_capacity v"
    "unat (v_count v) = length (used (table v))" "unat (v_count v) * 10 \<le> table_capacity v * 7 + 10"
    using inv by (auto simp: vocab_inv_def)
  obtain k where "table_capacity v = 2 ^ k" using i(1,2) by (auto simp: table_ok_def)
  then have "table_ok ?new" using table_ok_empty [of "Suc k"] by (simp add: mult.commute)
  moreover have "length (used (table v)) \<le> table_capacity v" using i(2) by (metis length_filter_le)
  ultimately have r: "table_ok (table ?v)" "length (table ?v) = ?cap" "mset (used (table ?v)) = mset (used (table v))"
    using rehash_correct [of ?new ?cap "table v"] i(1,3) by (auto simp: table_ok_def)
  have inv': "vocab_inv ?v"
    using r i inv mset_eq_length [OF r(3)] by (simp add: vocab_inv_def)
  have "set (used (table ?v)) = set (used (table v))" using r(3) by (metis set_mset_mset)
  then have "vocab_abs ?v = vocab_abs v"
    using abs_ids_cong [OF inv' inv] by (simp add: vocab_abs_def)
  then show ?thesis using inv' i(3,5) by (simp add: vocab_resize_def Let_def)
qed

lemma insert_refines:
  assumes inv: "vocab_inv v" and load: "unat (v_count v) * 10 \<le> table_capacity v * 7"
    and few: "length (used (table v)) + 1 < 2 ^ 32"
    and fresh: "t \<notin> dom (sp_ids (vocab_abs v))" "i \<notin> ran (sp_ids (vocab_abs v))"
  shows "\<exists>v'. vocab_insert v t i = (HBI_OK, v') \<and> vocab_inv v' \<and>
    vocab_abs v' = (vocab_abs v)\<lparr>sp_ids := (sp_ids (vocab_abs v))(t \<mapsto> i)\<rparr> \<and>
    length (used (table v')) = length (used (table v)) + 1"
proof -
  have I: "table_ok (table v)" "length (table v) = table_capacity v" "16 \<le> table_capacity v"
    "unat (v_count v) = length (used (table v))" using inv by (auto simp: vocab_inv_def)
  have room: "length (used (table v)) < length (table v)" using I load by simp
  obtain tb where tb: "insert_loop (new_entry t i) (table v) (table_capacity v) (vocab_hash t (table_capacity v)) [0..<table_capacity v] = Some tb"
    "table_ok tb" "length tb = table_capacity v" "mset (used tb) = add_mset (new_entry t i) (mset (used (table v)))"
    using insert_correct [OF I(1) room, of "new_entry t i"] fresh abs_ran [OF inv] abs_dom [of v] I(2)
    by (auto simp: new_entry_def)
  let ?v = "v\<lparr>table := tb, v_count := v_count v + 1\<rparr>"
  have len: "length (used tb) = length (used (table v)) + 1" using tb(4) by (metis Suc_eq_plus1 size_add_mset size_mset)
  have "unat (v_count v + 1) = unat (v_count v) + 1" using few I(4) by (simp add: unat_word_ariths)
  then have inv': "vocab_inv ?v" using tb(2,3) I load len inv by (simp add: vocab_inv_def)
  have used: "set (used tb) = insert (new_entry t i) (set (used (table v)))" using tb(4) by (metis set_mset_add_mset_insert set_mset_mset)
  have ids: "sp_ids (vocab_abs ?v) = (sp_ids (vocab_abs v))(t \<mapsto> i)"
  proof (rule map_ext_Some)
    fix x j
    have "sp_ids (vocab_abs ?v) x = Some j \<longleftrightarrow>
        t = x \<and> i = j \<or> (\<exists>e \<in> set (used (table v)). ve_text e = x \<and> ve_id e = j)"
      unfolding abs_ids_iff [OF inv'] using used by (simp add: new_entry_def)
    also have "\<dots> \<longleftrightarrow> t = x \<and> i = j \<or> sp_ids (vocab_abs v) x = Some j"
      unfolding abs_ids_iff [OF inv] ..
    also have "\<dots> \<longleftrightarrow> ((sp_ids (vocab_abs v))(t \<mapsto> i)) x = Some j"
      using fresh(1) by (auto simp: domIff)
    finally show "sp_ids (vocab_abs ?v) x = Some j \<longleftrightarrow> ((sp_ids (vocab_abs v))(t \<mapsto> i)) x = Some j" .
  qed
  have flags: "{e \<in> set (used tb). ve_is_special e} = {e \<in> set (used (table v)). ve_is_special e}"
    using used by (auto simp: new_entry_def)
  have "vocab_abs ?v = (vocab_abs v)\<lparr>sp_ids := sp_ids (vocab_abs ?v)\<rparr>"
    using flags by (simp add: vocab_abs_def)
  then have "vocab_abs ?v = (vocab_abs v)\<lparr>sp_ids := (sp_ids (vocab_abs v))(t \<mapsto> i)\<rparr>"
    unfolding ids .
  then show ?thesis using tb(1) inv' len by (simp add: vocab_insert_def)
qed

lemma add_refines:
  assumes inv: "vocab_inv v" and few: "length (used (table v)) + 1 < 2 ^ 32"
  shows "\<exists>st v'. hbi_vocabulary_add ok (Some v) (Some t) i = (st, Some v') \<and> vocab_inv v' \<and>
    length (used (table v')) \<le> length (used (table v)) + 1 \<and>
    ((st, vocab_abs v') = spec_add t i (vocab_abs v) \<or> \<not> ok \<and> st = HBI_ERR_OOM \<and> v' = v)"
proof (cases "t = [] \<or> HBI_TOKEN_TEXT_MAX \<le> length t")
  case True
  then show ?thesis using inv by (auto simp: hbi_vocabulary_add_def spec_add_def)
next
  case len: False
  show ?thesis
  proof (cases rule: find_by_id_cases [OF inv, of i, case_names miss hit])
    case (hit e)
    have "sp_ids (vocab_abs v) t = Some i \<longleftrightarrow> ve_text e = t"
      using abs_ids_iff [OF inv, of t i] used_id_eq [of "table v"] hit inv by (auto simp: vocab_inv_def)
    then show ?thesis using hit len inv by (auto simp: hbi_vocabulary_add_def spec_add_def Let_def)
  next
    case no_id: miss
    show ?thesis
    proof (cases rule: find_slot_cases [OF inv, of t, case_names miss hit])
      case (hit e)
      have "ve_id e \<noteq> i" using hit(5) no_id(1) by (auto simp: ran_def)
      then show ?thesis
        using hit no_id len inv by (auto simp: hbi_vocabulary_add_def spec_add_def Let_def)
    next
      case no_text: miss
      let ?grow = "unat (v_count v) * 10 > table_capacity v * 7"
      have spec: "spec_add t i (vocab_abs v) = (HBI_OK, (vocab_abs v)\<lparr>sp_ids := (sp_ids (vocab_abs v))(t \<mapsto> i)\<rparr>)"
        using len no_id(1) no_text(1) by (auto simp: spec_add_def)
      have step: "\<exists>v'. vocab_insert w t i = (HBI_OK, v') \<and> vocab_inv v' \<and> (HBI_OK, vocab_abs v') = spec_add t i (vocab_abs v) \<and>
          length (used (table v')) = length (used (table v)) + 1"
        if "vocab_inv w" "vocab_abs w = vocab_abs v" "v_count w = v_count v" "unat (v_count w) * 10 \<le> table_capacity w * 7" for w
      proof -
        have "length (used (table w)) = length (used (table v))" using that(1,3) inv by (simp add: vocab_inv_def)
        then show ?thesis using insert_refines [OF that(1,4)] few that(2) no_id(1) no_text(1) spec by auto
      qed
      have def: "hbi_vocabulary_add ok (Some v) (Some t) i =
          (let (st, v1) = (if ?grow then vocab_resize ok v else (HBI_OK, v)) in
           if st \<noteq> HBI_OK then (st, Some v1) else map_prod id Some (vocab_insert v1 t i))"
        using len no_id(2) no_text(2) by (simp add: hbi_vocabulary_add_def)
      show ?thesis
      proof (cases "?grow \<and> \<not> ok")
        case True
        then have "hbi_vocabulary_add ok (Some v) (Some t) i = (HBI_ERR_OOM, Some v)"
          unfolding def by (simp add: vocab_resize_def)
        then show ?thesis using inv True by simp
      next
        case False
        then obtain w where "(if ?grow then vocab_resize ok v else (HBI_OK, v)) = (HBI_OK, w)" "vocab_inv w"
          "vocab_abs w = vocab_abs v" "v_count w = v_count v" "unat (v_count w) * 10 \<le> table_capacity w * 7"
          using resize_correct [OF inv] inv by (cases ?grow) auto
        then show ?thesis using step [of w] by (auto simp: def)
      qed
    qed
  qed
qed

text \<open>Marking an entry leaves its slot, text and id alone.\<close>

lemma used_update_same:
  assumes "s < length tbl" and "ve_occupied (tbl ! s) = ve_occupied e" and "g (tbl ! s) = g e"
  shows "map g (used (tbl[s := e])) = map g (used tbl)"
  using assms
proof (induction tbl arbitrary: s)
  case (Cons x tbl)
  then show ?case by (cases s) auto
qed simp

lemma table_ok_mark:
  assumes ok: "table_ok tbl" and s: "s < length tbl" and occ: "ve_occupied e = ve_occupied (tbl ! s)"
    and tx: "ve_text e = ve_text (tbl ! s)" and ident: "ve_id e = ve_id (tbl ! s)"
  shows "table_ok (tbl[s := e])"
proof -
  have same: "ve_occupied (tbl[s := e] ! x) = ve_occupied (tbl ! x)" "ve_text (tbl[s := e] ! x) = ve_text (tbl ! x)" for x
    using s occ tx by (cases "x = s"; simp)+
  have "chained (tbl[s := e])" using ok by (simp add: table_ok_def chained_def same)
  then show ?thesis
    using ok used_update_same [OF s, of e ve_text] used_update_same [OF s, of e ve_id] occ tx ident
    by (simp add: table_ok_def)
qed

lemma flags_mark:
  assumes s: "s < length tbl" and e: "ve_occupied (tbl ! s)" "ve_occupied e" "ve_is_special e" "ve_id e = ve_id (tbl ! s)"
  shows "ve_id ` {x \<in> set (used (tbl[s := e])). ve_is_special x} =
    insert (ve_id (tbl ! s)) (ve_id ` {x \<in> set (used tbl). ve_is_special x})" (is "?L = ?R")
proof (intro equalityI subsetI)
  fix y assume "y \<in> ?L"
  then obtain j where j: "j < length tbl" "ve_occupied (tbl[s := e] ! j)" "ve_is_special (tbl[s := e] ! j)" "y = ve_id (tbl[s := e] ! j)"
    by (auto simp: in_set_conv_nth)
  then show "y \<in> ?R" using s e by (cases "j = s") auto
next
  fix y assume "y \<in> ?R"
  then consider "y = ve_id (tbl ! s)" | j where "j < length tbl" "ve_occupied (tbl ! j)" "ve_is_special (tbl ! j)" "y = ve_id (tbl ! j)"
    by (auto simp: in_set_conv_nth)
  then show "y \<in> ?L"
  proof cases
    case 1
    then show ?thesis using s e by (intro image_eqI [of _ _ e]) (auto simp: set_update_memI)
  next
    case (2 j)
    have "ve_id (tbl[s := e] ! j) = y" using 2 s e by (cases "j = s") auto
    moreover have "tbl[s := e] ! j \<in> {x \<in> set (used (tbl[s := e])). ve_is_special x}"
      using 2 s e by (cases "j = s") (auto simp: in_set_conv_nth intro!: exI [of _ j])
    ultimately show ?thesis by blast
  qed
qed

lemma set_special_refines:
  assumes inv: "vocab_inv v"
  shows "\<exists>st v'. hbi_vocabulary_set_special (Some v) i ty = (st, Some v') \<and> vocab_inv v' \<and>
    length (used (table v')) = length (used (table v)) \<and> (st, vocab_abs v') = spec_set_special i ty (vocab_abs v)"
proof (cases "ty = HBI_SPECIAL_COUNT")
  case True
  then show ?thesis using inv by (simp add: hbi_vocabulary_set_special_def spec_set_special_def)
next
  case ty: False
  have tyv: "special_value ty < 7" using ty by (cases ty) auto
  show ?thesis
  proof (cases rule: find_by_id_cases [OF inv, of i, case_names miss hit])
    case miss
    then show ?thesis using inv ty tyv by (simp add: hbi_vocabulary_set_special_def spec_set_special_def)
  next
    case (hit e)
    let ?s = "vocab_find_by_id v i"
    let ?e = "e\<lparr>ve_is_special := True, ve_special_type := ty\<rparr>"
    let ?v = "v\<lparr>table := (table v)[?s := ?e], special_ids := (special_ids v)[special_value ty := i]\<rparr>"
    have I: "table_ok (table v)" "length (table v) = table_capacity v" "length (special_ids v) = 7"
      using inv by (auto simp: vocab_inv_def)
    have s: "?s < length (table v)" using hit(1) I(2) by simp
    have ids: "map (\<lambda>e. (ve_text e, ve_id e)) (used (table ?v)) = map (\<lambda>e. (ve_text e, ve_id e)) (used (table v))"
      using used_update_same [OF s, of ?e "\<lambda>e. (ve_text e, ve_id e)"] hit(2) by simp
    then have len: "length (used (table ?v)) = length (used (table v))" by (rule map_eq_imp_length_eq)
    have "table_ok (table ?v)" using table_ok_mark [OF I(1) s, of ?e] hit(2) by simp
    then have inv': "vocab_inv ?v" using inv len by (simp add: vocab_inv_def)
    have "special_of ((special_ids v)[special_value ty := i]) = (special_of (special_ids v))(ty := i)"
    proof (rule ext)
      show "special_of ((special_ids v)[special_value ty := i]) x = ((special_of (special_ids v))(ty := i)) x" for x
        using I(3) ty tyv by (cases x; cases ty) (simp_all add: special_of_def)
    qed
    moreover have "ve_id ` {x \<in> set (used (table ?v)). ve_is_special x} =
        insert i (ve_id ` {x \<in> set (used (table v)). ve_is_special x})"
      using flags_mark [OF s, of ?e] hit(2,3,4) by simp
    moreover have "sp_ids (vocab_abs ?v) = sp_ids (vocab_abs v)"
      using ids by (simp add: vocab_abs_def)
    ultimately have "vocab_abs ?v = (vocab_abs v)\<lparr>sp_flags := insert i (sp_flags (vocab_abs v)),
        sp_special := (sp_special (vocab_abs v))(ty := i)\<rparr>"
      by (simp add: vocab_abs_def)
    then show ?thesis
      using hit inv' len ty tyv by (simp add: hbi_vocabulary_set_special_def spec_set_special_def Let_def)
  qed
qed

section \<open>Sequences of operations\<close>

datatype vocab_op = Add bool "u8 list" u32 | Set_Special u32 hbi_special_token_type

fun vocab_step :: "vocab_op \<Rightarrow> hbi_vocabulary ptr \<Rightarrow> hbi_status \<times> hbi_vocabulary ptr" where
  "vocab_step (Add ok t i) v = hbi_vocabulary_add ok v (Some t) i"
| "vocab_step (Set_Special i ty) v = hbi_vocabulary_set_special v i ty"

fun vocab_run :: "vocab_op list \<Rightarrow> hbi_vocabulary ptr \<Rightarrow> hbi_status list \<times> hbi_vocabulary ptr" where
  "vocab_run [] v = ([], v)"
| "vocab_run (op # ops) v = (case vocab_step op v of (st, v1) \<Rightarrow> map_prod ((#) st) id (vocab_run ops v1))"

text \<open>The specification, told which of the operations run out of memory.\<close>

fun spec_step :: "bool \<Rightarrow> vocab_op \<Rightarrow> vocab_spec \<Rightarrow> hbi_status \<times> vocab_spec" where
  "spec_step oom (Add ok t i) a = (if oom then (HBI_ERR_OOM, a) else spec_add t i a)"
| "spec_step oom (Set_Special i ty) a = spec_set_special i ty a"

fun spec_run :: "(bool \<times> vocab_op) list \<Rightarrow> vocab_spec \<Rightarrow> hbi_status list \<times> vocab_spec" where
  "spec_run [] a = ([], a)"
| "spec_run ((oom, op) # ops) a = (case spec_step oom op a of (st, a1) \<Rightarrow> map_prod ((#) st) id (spec_run ops a1))"

fun may_oom :: "vocab_op \<Rightarrow> bool" where
  "may_oom (Add ok t i) = (\<not> ok)"
| "may_oom (Set_Special i ty) = False"

lemma vocab_step_refines:
  assumes "vocab_inv v" and "length (used (table v)) + 1 < 2 ^ 32"
  shows "\<exists>st v' oom. vocab_step op (Some v) = (st, Some v') \<and> vocab_inv v' \<and>
    length (used (table v')) \<le> length (used (table v)) + 1 \<and> (st, vocab_abs v') = spec_step oom op (vocab_abs v) \<and>
    (oom \<longrightarrow> may_oom op)"
proof (cases op)
  case (Add ok t i)
  obtain st v' where r: "hbi_vocabulary_add ok (Some v) (Some t) i = (st, Some v')" "vocab_inv v'"
    "length (used (table v')) \<le> length (used (table v)) + 1"
    "(st, vocab_abs v') = spec_add t i (vocab_abs v) \<or> \<not> ok \<and> st = HBI_ERR_OOM \<and> v' = v"
    using add_refines [OF assms, of ok t i] by blast
  show ?thesis
  proof (cases "(st, vocab_abs v') = spec_add t i (vocab_abs v)")
    case True
    then show ?thesis using r(1-3) Add by (intro exI [of _ st] exI [of _ v'] exI [of _ False]) simp
  next
    case False
    then show ?thesis using r Add by (intro exI [of _ st] exI [of _ v'] exI [of _ True]) simp
  qed
next
  case (Set_Special i ty)
  then show ?thesis using set_special_refines [OF assms(1), of i ty] by auto
qed

lemma vocab_run_refines:
  assumes "vocab_inv v" and "length (used (table v)) + length ops < 2 ^ 32"
  shows "\<exists>sts v' ooms. vocab_run ops (Some v) = (sts, Some v') \<and> vocab_inv v' \<and>
    spec_run (zip ooms ops) (vocab_abs v) = (sts, vocab_abs v') \<and> list_all2 (\<lambda>oom op. oom \<longrightarrow> may_oom op) ooms ops"
  using assms
proof (induction ops arbitrary: v)
  case (Cons op ops)
  have "length (used (table v)) + 1 < 2 ^ 32" using Cons.prems(2) by simp
  then obtain st v1 oom where 1: "vocab_step op (Some v) = (st, Some v1)" "vocab_inv v1"
    "length (used (table v1)) \<le> length (used (table v)) + 1" "(st, vocab_abs v1) = spec_step oom op (vocab_abs v)"
    "oom \<longrightarrow> may_oom op"
    using vocab_step_refines [OF Cons.prems(1), of op] by blast
  have "length (used (table v1)) + length ops < 2 ^ 32" using 1(3) Cons.prems(2) by simp
  then obtain sts v' ooms where 2: "vocab_run ops (Some v1) = (sts, Some v')" "vocab_inv v'"
    "spec_run (zip ooms ops) (vocab_abs v1) = (sts, vocab_abs v')" "list_all2 (\<lambda>oom op. oom \<longrightarrow> may_oom op) ooms ops"
    using Cons.IH [OF 1(2)] by blast
  show ?case
    by (intro exI [of _ "st # sts"] exI [of _ v'] exI [of _ "oom # ooms"])
      (use 1(1) 1(4) [symmetric] 1(5) 2 in simp)
qed simp

lemma create_refines:
  assumes "initial \<le> 2 ^ 63"
  shows "\<exists>v. hbi_vocabulary_create True True initial = Some (Inr v) \<and> vocab_inv v \<and> vocab_abs v = spec_empty \<and>
    used (table v) = []"
proof -
  have "(if initial < 16 then 16 else initial) \<le> 2 ^ 63" using assms by simp
  then obtain j where j: "vocab_next_pow2 (if initial < 16 then 16 else initial) = Some (2 ^ j)" "4 \<le> j" "j \<le> 63"
    using pow2_loop_returns [of "2 ^ 4" 4 "if initial < 16 then 16 else initial"] by (auto simp: vocab_next_pow2_def simp del: if_split)
  let ?v = "\<lparr>table = replicate (2 ^ j) zero_entry, table_capacity = 2 ^ j, v_count = 0,
      special_ids = replicate (special_value HBI_SPECIAL_COUNT) HBI_TOKEN_INVALID_ID\<rparr>"
  have c: "hbi_vocabulary_create True True initial = Some (Inr ?v)"
    using j by (simp add: hbi_vocabulary_create_def unat_2p)
  have "(2::nat) ^ 4 \<le> 2 ^ j" using j(2) by (intro power_increasing) auto
  then have inv: "vocab_inv ?v" using table_ok_empty [of j] by (simp add: vocab_inv_def)
  have "special_of (special_ids ?v) ty = HBI_TOKEN_INVALID_ID" for ty
    by (cases ty) (simp_all add: special_of_def eval_nat_numeral)
  then have "vocab_abs ?v = spec_empty" by (auto simp: vocab_abs_def spec_empty_def)
  then show ?thesis using c inv by auto
qed

section \<open>What the accessors return\<close>

lemma lookup_abs: "vocab_inv v \<Longrightarrow> hbi_vocabulary_lookup (Some v) (Some t) =
    (case sp_ids (vocab_abs v) t of None \<Rightarrow> HBI_TOKEN_INVALID_ID | Some i \<Rightarrow> i)"
  by (rule find_slot_cases [of v t]) (auto simp: hbi_vocabulary_lookup_def)

lemma text_abs:
  assumes inv: "vocab_inv v"
  shows "hbi_vocabulary_text (Some v) i = Some t \<longleftrightarrow> sp_ids (vocab_abs v) t = Some i"
proof (cases rule: find_by_id_cases [OF inv, of i, case_names miss hit])
  case miss
  then show ?thesis by (auto simp: hbi_vocabulary_text_def ran_def)
next
  case (hit e)
  have "sp_ids (vocab_abs v) t = Some i \<longleftrightarrow> ve_text e = t"
    using abs_ids_iff [OF inv, of t i] used_id_eq [of "table v"] hit inv by (auto simp: vocab_inv_def)
  then show ?thesis using hit by (simp add: hbi_vocabulary_text_def)
qed

lemma size_abs:
  assumes "vocab_inv v"
  shows "unat (hbi_vocabulary_size (Some v)) = card (dom (sp_ids (vocab_abs v)))"
  using assms distinct_used [OF assms] distinct_card [of "map ve_text (used (table v))"]
  by (simp add: hbi_vocabulary_size_def abs_dom vocab_inv_def)

lemma is_special_abs:
  assumes inv: "vocab_inv v"
  shows "hbi_vocabulary_is_special (Some v) i \<longleftrightarrow> i \<in> sp_flags (vocab_abs v)"
proof (cases rule: find_by_id_cases [OF inv, of i, case_names miss hit])
  case miss
  have "sp_flags (vocab_abs v) \<subseteq> ran (sp_ids (vocab_abs v))"
    unfolding abs_ran [OF inv] by (auto simp: vocab_abs_def)
  then show ?thesis using miss by (auto simp: hbi_vocabulary_is_special_def)
next
  case (hit e)
  have ok: "table_ok (table v)" using inv by (simp add: vocab_inv_def)
  have "i \<in> sp_flags (vocab_abs v) \<longleftrightarrow> (\<exists>x \<in> set (used (table v)). ve_is_special x \<and> ve_id x = ve_id e)"
    unfolding hit(4) by (auto simp: vocab_abs_def)
  also have "\<dots> \<longleftrightarrow> ve_is_special e" using used_id_eq [OF ok _ hit(3)] hit(3) by blast
  finally have "i \<in> sp_flags (vocab_abs v) \<longleftrightarrow> ve_is_special e" .
  then show ?thesis using hit by (simp add: hbi_vocabulary_is_special_def)
qed

lemma special_id_abs: "hbi_vocabulary_special_id (Some v) ty = sp_special (vocab_abs v) ty"
  by (cases ty) (simp_all add: hbi_vocabulary_special_id_def vocab_abs_def special_of_def)

lemma utf8_scan_iff: "utf8_scan es = (if \<forall>e \<in> set (used es). hbi_utf8_validate (Some (ve_text e)) (length (ve_text e))
    then HBI_OK else HBI_ERR_CORRUPT)"
  by (induction es) auto

lemma validate_abs: "hbi_vocabulary_validate (Some v) =
    (if \<exists>t \<in> dom (sp_ids (vocab_abs v)). \<not> hbi_utf8_validate (Some t) (length t) then HBI_ERR_CORRUPT
     else if sp_special (vocab_abs v) HBI_SPECIAL_UNKNOWN = HBI_TOKEN_INVALID_ID then HBI_ERR_STATE
     else HBI_OK)"
proof -
  have "(\<exists>t \<in> dom (sp_ids (vocab_abs v)). \<not> hbi_utf8_validate (Some t) (length t)) \<longleftrightarrow>
      \<not> (\<forall>e \<in> set (used (table v)). hbi_utf8_validate (Some (ve_text e)) (length (ve_text e)))"
    unfolding abs_dom by blast
  moreover have "sp_special (vocab_abs v) HBI_SPECIAL_UNKNOWN = special_ids v ! special_value HBI_SPECIAL_UNKNOWN"
    by (simp add: vocab_abs_def special_of_def)
  ultimately show ?thesis by (simp only: hbi_vocabulary_validate_def utf8_scan_iff Let_def) simp
qed

text \<open>
  C8. The vocabulary refines a partial map. From creation on, every sequence of additions and special
  marks returns the statuses of the specification (a map from text to id that accepts each text and
  each id once, repetitions of an entry included), except that an addition that runs out of memory
  reports so and changes nothing; afterwards looking up a text, the text of an id, the size, the
  special marks and the special ids all read the map, however the table was probed and resized, and
  validation reports exactly an entry that is not UTF-8 or a missing unknown token.\<close>

theorem vocabulary_refines:
  assumes "initial \<le> 2 ^ 63" and "length ops < 2 ^ 32"
  shows "\<exists>v sts v' ooms a. hbi_vocabulary_create True True initial = Some (Inr v) \<and>
    vocab_run ops (Some v) = (sts, Some v') \<and> spec_run (zip ooms ops) spec_empty = (sts, a) \<and>
    list_all2 (\<lambda>oom op. oom \<longrightarrow> may_oom op) ooms ops \<and>
    (\<forall>t. hbi_vocabulary_lookup (Some v') (Some t) = (case sp_ids a t of None \<Rightarrow> HBI_TOKEN_INVALID_ID | Some i \<Rightarrow> i)) \<and>
    (\<forall>i t. hbi_vocabulary_text (Some v') i = Some t \<longleftrightarrow> sp_ids a t = Some i) \<and>
    unat (hbi_vocabulary_size (Some v')) = card (dom (sp_ids a)) \<and>
    (\<forall>i. hbi_vocabulary_is_special (Some v') i \<longleftrightarrow> i \<in> sp_flags a) \<and>
    (\<forall>ty. hbi_vocabulary_special_id (Some v') ty = sp_special a ty) \<and>
    hbi_vocabulary_validate (Some v') =
      (if \<exists>t \<in> dom (sp_ids a). \<not> hbi_utf8_validate (Some t) (length t) then HBI_ERR_CORRUPT
       else if sp_special a HBI_SPECIAL_UNKNOWN = HBI_TOKEN_INVALID_ID then HBI_ERR_STATE else HBI_OK)"
proof -
  obtain v where v: "hbi_vocabulary_create True True initial = Some (Inr v)" "vocab_inv v" "vocab_abs v = spec_empty"
    "used (table v) = []" using create_refines [OF assms(1)] by blast
  obtain sts v' ooms where r: "vocab_run ops (Some v) = (sts, Some v')" "vocab_inv v'"
    "spec_run (zip ooms ops) spec_empty = (sts, vocab_abs v')" "list_all2 (\<lambda>oom op. oom \<longrightarrow> may_oom op) ooms ops"
    using vocab_run_refines [OF v(2), of ops] v(3,4) assms(2) by auto
  show ?thesis
    by (intro exI [of _ v] exI [of _ sts] exI [of _ v'] exI [of _ ooms] exI [of _ "vocab_abs v'"] conjI allI)
      (rule v r lookup_abs text_abs size_abs is_special_abs special_id_abs validate_abs)+
qed

theorem vocabulary_refines_witness:
  "\<exists>v v'. hbi_vocabulary_create True True 20 = Some (Inr v) \<and>
     vocab_run [Add True [97] 5, Add True [98] 5, Set_Special 5 HBI_SPECIAL_BOS] (Some v)
       = ([HBI_OK, HBI_ERR_STATE, HBI_OK], Some v') \<and>
     hbi_vocabulary_lookup (Some v') (Some [97]) = 5 \<and> hbi_vocabulary_text (Some v') 5 = Some [97] \<and>
     hbi_vocabulary_special_id (Some v') HBI_SPECIAL_BOS = 5"
proof -
  let ?ops = "[Add True [97] 5, Add True [98] 5, Set_Special 5 HBI_SPECIAL_BOS]"
  have small: "(20 :: u64) \<le> 2 ^ 63" "length ?ops < 2 ^ 32" by simp_all
  obtain v sts v' ooms a where r: "hbi_vocabulary_create True True 20 = Some (Inr v)"
    "vocab_run ?ops (Some v) = (sts, Some v')" "spec_run (zip ooms ?ops) spec_empty = (sts, a)"
    "list_all2 (\<lambda>oom op. oom \<longrightarrow> may_oom op) ooms ?ops"
    "\<forall>t. hbi_vocabulary_lookup (Some v') (Some t) = (case sp_ids a t of None \<Rightarrow> HBI_TOKEN_INVALID_ID | Some i \<Rightarrow> i)"
    "\<forall>i t. hbi_vocabulary_text (Some v') i = Some t \<longleftrightarrow> sp_ids a t = Some i"
    "\<forall>ty. hbi_vocabulary_special_id (Some v') ty = sp_special a ty"
    using vocabulary_refines [OF small] by blast
  have "ooms = [False, False, False]" using r(4) by (auto simp: list_all2_Cons2)
  then have "(sts, a) = ([HBI_OK, HBI_ERR_STATE, HBI_OK],
      \<lparr>sp_ids = [[97] \<mapsto> 5], sp_flags = {5}, sp_special = (\<lambda>_. HBI_TOKEN_INVALID_ID)(HBI_SPECIAL_BOS := 5)\<rparr>)"
    using r(3) by (simp add: spec_add_def spec_set_special_def spec_empty_def HBI_TOKEN_TEXT_MAX_def)
  then show ?thesis using r(1,2,5,6,7) by (intro exI [of _ v] exI [of _ v']) simp
qed

end
