(* ===== verification/Tokenizer.thy ===== *)
theory Tokenizer
  imports Registry Vocabulary
begin

text \<open>
  The rest of \<open>src/src/tokenizer/tokenizer.c\<close> (decode state, tokenizer registry, tokenizer manager)
  and the byte-level tokenizer of \<open>src/src/tokenizer/tokenizer_mock.c\<close>.

  A tokenizer is a record of the functions its table holds; \<open>'c\<close> is what an incremental-encoding
  context points to. Encoding returns \<open>None\<close> where appending to the sequence has no defined
  result. The registry mutex is not modelled (the operations are atomic), the clock readings around a call are
  arguments, and atomic counters are plain 64-bit words.
\<close>

section \<open>Decode state\<close>

record hbi_decode_state =
  pending :: "u8 list"
  pending_len :: u32

definition hbi_decode_state_create :: "bool \<Rightarrow> hbi_decode_state outcome" where
  "hbi_decode_state_create ok =
     (if \<not> ok then Inl HBI_ERR_OOM else Inr \<lparr>pending = replicate 4 0, pending_len = 0\<rparr>)"

definition hbi_decode_state_reset :: "hbi_decode_state ptr \<Rightarrow> hbi_decode_state ptr" where
  "hbi_decode_state_reset s = map_option (\<lambda>_. \<lparr>pending = replicate 4 0, pending_len = 0\<rparr>) s"

section \<open>Tokenizers and their registry\<close>

record 'c hbi_tokenizer =
  tk_name :: "string ptr"
  tk_init :: "(hbi_vocabulary \<Rightarrow> hbi_status) ptr"
  tk_encode :: "(hbi_vocabulary \<Rightarrow> u8 list \<Rightarrow> hbi_token_sequence \<Rightarrow> (hbi_status \<times> hbi_token_sequence) option) ptr"
  tk_decode :: "(hbi_vocabulary \<Rightarrow> u32 list \<Rightarrow> nat \<Rightarrow> hbi_status \<times> u8 list) ptr"
  tk_encode_incremental :: "(hbi_vocabulary \<Rightarrow> u8 list \<Rightarrow> hbi_token_sequence \<Rightarrow> 'c ptr \<Rightarrow>
    (hbi_status \<times> hbi_token_sequence \<times> 'c ptr) option) ptr"
  tk_decode_incremental :: "(hbi_vocabulary \<Rightarrow> u32 \<Rightarrow> hbi_decode_state \<Rightarrow> nat \<Rightarrow> hbi_status \<times> hbi_decode_state \<times> u8 list) ptr"

definition HBI_TOKENIZER_REGISTRY_MAX :: nat where "HBI_TOKENIZER_REGISTRY_MAX = 16"

definition hbi_tokenizer_register ::
  "'c hbi_tokenizer list \<Rightarrow> 'c hbi_tokenizer ptr \<Rightarrow> hbi_status \<times> 'c hbi_tokenizer list" where
  "hbi_tokenizer_register reg tokenizer =
     (case tokenizer of
        None \<Rightarrow> (HBI_ERR_INVALID_ARG, reg)
      | Some t \<Rightarrow>
          if tk_name t = None \<or> tk_encode t = None \<or> tk_decode t = None then (HBI_ERR_INVALID_ARG, reg)
          else if \<exists>e \<in> set reg. tk_name e = tk_name t then (HBI_ERR_STATE, reg)
          else if HBI_TOKENIZER_REGISTRY_MAX \<le> length reg then (HBI_ERR_STATE, reg)
          else (HBI_OK, reg @ [t]))"

definition hbi_tokenizer_find :: "'c hbi_tokenizer list \<Rightarrow> string ptr \<Rightarrow> 'c hbi_tokenizer ptr" where
  "hbi_tokenizer_find reg name = (case name of None \<Rightarrow> None | Some n \<Rightarrow> find (\<lambda>e. tk_name e = Some n) reg)"

definition hbi_tokenizer_count :: "'c hbi_tokenizer list \<Rightarrow> nat" where
  "hbi_tokenizer_count reg = length reg"

definition hbi_tokenizer_registry_clear :: "'c hbi_tokenizer list" where
  "hbi_tokenizer_registry_clear = []"

section \<open>The manager\<close>

record hbi_tokenizer_statistics =
  encode_time_ns :: u64
  decode_time_ns :: u64
  tokens_encoded :: u64
  tokens_decoded :: u64
  vocabulary_lookups :: u64
  encode_calls :: u64
  decode_calls :: u64

record 'c hbi_tokenizer_manager =
  tm_tokenizer :: "'c hbi_tokenizer"
  tm_vocabulary :: hbi_vocabulary
  tm_stats :: hbi_tokenizer_statistics
  tm_initialized :: bool

definition hbi_tokenizer_manager_create ::
  "bool \<Rightarrow> 'c hbi_tokenizer ptr \<Rightarrow> hbi_vocabulary ptr \<Rightarrow> 'c hbi_tokenizer_manager outcome" where
  "hbi_tokenizer_manager_create ok tokenizer vocab =
     (case (tokenizer, vocab) of
        (Some t, Some v) \<Rightarrow>
          if \<not> ok then Inl HBI_ERR_OOM
          else
            let st = (case tk_init t of None \<Rightarrow> HBI_OK | Some f \<Rightarrow> f v) in
            if st \<noteq> HBI_OK then Inl st
            else Inr \<lparr>tm_tokenizer = t, tm_vocabulary = v,
              tm_stats = \<lparr>encode_time_ns = 0, decode_time_ns = 0, tokens_encoded = 0, tokens_decoded = 0,
                vocabulary_lookups = 0, encode_calls = 0, decode_calls = 0\<rparr>,
              tm_initialized = True\<rparr>
      | _ \<Rightarrow> Inl HBI_ERR_INVALID_ARG)"

definition hbi_tokenizer_manager_encode ::
  "u64 \<Rightarrow> u64 \<Rightarrow> 'c hbi_tokenizer_manager ptr \<Rightarrow> u8 list ptr \<Rightarrow> hbi_token_sequence ptr \<Rightarrow>
     (hbi_status \<times> 'c hbi_tokenizer_manager ptr \<times> hbi_token_sequence ptr) option" where
  "hbi_tokenizer_manager_encode t0 t1 manager txt out_seq =
     (case (manager, txt, out_seq) of
        (Some m, Some t, Some s) \<Rightarrow>
          if \<not> tm_initialized m then Some (HBI_ERR_STATE, manager, out_seq)
          else
            (case the (tk_encode (tm_tokenizer m)) (tm_vocabulary m) t s of
               None \<Rightarrow> None
             | Some (st, s') \<Rightarrow>
                 Some (st,
                   Some (if st = HBI_OK then m\<lparr>tm_stats := (tm_stats m)\<lparr>
                       encode_time_ns := encode_time_ns (tm_stats m) + (t1 - t0),
                       encode_calls := encode_calls (tm_stats m) + 1,
                       tokens_encoded := tokens_encoded (tm_stats m) + ucast (hbi_token_sequence_count (Some s'))\<rparr>\<rparr>
                     else m),
                   Some s'))
      | _ \<Rightarrow> Some (HBI_ERR_INVALID_ARG, manager, out_seq))"

text \<open>\<open>tokens\<close> is NULL or the \<open>token_count\<close> ids it points to; the text written is the last component.\<close>

definition hbi_tokenizer_manager_decode ::
  "u64 \<Rightarrow> u64 \<Rightarrow> 'c hbi_tokenizer_manager ptr \<Rightarrow> u32 list ptr \<Rightarrow> u32 \<Rightarrow> nat \<Rightarrow>
     hbi_status \<times> 'c hbi_tokenizer_manager ptr \<times> u8 list" where
  "hbi_tokenizer_manager_decode t0 t1 manager tokens token_count out_capacity =
     (case manager of
        None \<Rightarrow> (HBI_ERR_INVALID_ARG, manager, [])
      | Some m \<Rightarrow>
          if tokens = None \<and> token_count > 0 then (HBI_ERR_INVALID_ARG, manager, [])
          else if \<not> tm_initialized m then (HBI_ERR_STATE, manager, [])
          else
            let ids = (case tokens of None \<Rightarrow> [] | Some xs \<Rightarrow> take (unat token_count) xs);
                (st, out) = the (tk_decode (tm_tokenizer m)) (tm_vocabulary m) ids out_capacity in
            (st,
             Some (if st = HBI_OK then m\<lparr>tm_stats := (tm_stats m)\<lparr>
                 decode_time_ns := decode_time_ns (tm_stats m) + (t1 - t0),
                 decode_calls := decode_calls (tm_stats m) + 1,
                 tokens_decoded := tokens_decoded (tm_stats m) + ucast token_count\<rparr>\<rparr>
               else m),
             out))"

definition hbi_tokenizer_manager_encode_incremental ::
  "'c hbi_tokenizer_manager ptr \<Rightarrow> 'c ptr \<Rightarrow> u8 list ptr \<Rightarrow> hbi_token_sequence ptr \<Rightarrow>
     (hbi_status \<times> hbi_token_sequence ptr \<times> 'c ptr) option" where
  "hbi_tokenizer_manager_encode_incremental manager ctx txt out_seq =
     (case (manager, txt, out_seq) of
        (Some m, Some t, Some s) \<Rightarrow>
          if \<not> tm_initialized m then Some (HBI_ERR_STATE, out_seq, ctx)
          else (case tk_encode_incremental (tm_tokenizer m) of
              None \<Rightarrow> Some (HBI_ERR_UNSUPPORTED, out_seq, ctx)
            | Some f \<Rightarrow> map_option (\<lambda>(st, s', c). (st, Some s', c)) (f (tm_vocabulary m) t s ctx))
      | _ \<Rightarrow> Some (HBI_ERR_INVALID_ARG, out_seq, ctx))"

definition hbi_tokenizer_manager_decode_incremental ::
  "'c hbi_tokenizer_manager ptr \<Rightarrow> hbi_decode_state ptr \<Rightarrow> u32 \<Rightarrow> nat \<Rightarrow> hbi_status \<times> hbi_decode_state ptr \<times> u8 list" where
  "hbi_tokenizer_manager_decode_incremental manager state token out_capacity =
     (case (manager, state) of
        (Some m, Some s) \<Rightarrow>
          if \<not> tm_initialized m then (HBI_ERR_STATE, state, [])
          else (case tk_decode_incremental (tm_tokenizer m) of
              None \<Rightarrow> (HBI_ERR_UNSUPPORTED, state, [])
            | Some f \<Rightarrow> (case f (tm_vocabulary m) token s out_capacity of (st, s', out) \<Rightarrow> (st, Some s', out)))
      | _ \<Rightarrow> (HBI_ERR_INVALID_ARG, state, []))"

definition hbi_tokenizer_manager_vocabulary :: "'c hbi_tokenizer_manager ptr \<Rightarrow> hbi_vocabulary ptr" where
  "hbi_tokenizer_manager_vocabulary manager = map_option tm_vocabulary manager"

definition hbi_tokenizer_manager_tokenizer :: "'c hbi_tokenizer_manager ptr \<Rightarrow> 'c hbi_tokenizer ptr" where
  "hbi_tokenizer_manager_tokenizer manager = map_option tm_tokenizer manager"

definition hbi_tokenizer_manager_get_statistics :: "'c hbi_tokenizer_manager ptr \<Rightarrow> hbi_tokenizer_statistics outcome" where
  "hbi_tokenizer_manager_get_statistics manager =
     (case manager of None \<Rightarrow> Inl HBI_ERR_INVALID_ARG | Some m \<Rightarrow> Inr (tm_stats m))"

section \<open>The byte-level tokenizer\<close>

definition MOCK_OFFSET :: u32 where "MOCK_OFFSET = 5"

fun mock_append ::
  "bool \<Rightarrow> (nat \<Rightarrow> u32) \<Rightarrow> u8 list \<Rightarrow> hbi_token_sequence \<Rightarrow> (hbi_status \<times> hbi_token_sequence) option" where
  "mock_append ok junk [] s = Some (HBI_OK, s)"
| "mock_append ok junk (b # bs) s =
     (case hbi_token_sequence_append ok junk (Some s) (wide b + MOCK_OFFSET) of
        None \<Rightarrow> None
      | Some (st, s') \<Rightarrow> if st \<noteq> HBI_OK then Some (st, the s') else mock_append ok junk bs (the s'))"

definition mock_encode ::
  "bool \<Rightarrow> (nat \<Rightarrow> u32) \<Rightarrow> hbi_vocabulary \<Rightarrow> u8 list \<Rightarrow> hbi_token_sequence \<Rightarrow> (hbi_status \<times> hbi_token_sequence) option" where
  "mock_encode ok junk vocab txt s =
     (if \<not> hbi_utf8_validate (Some txt) (length txt) then Some (HBI_ERR_INVALID_ARG, s)
      else mock_append ok junk txt s)"

text \<open>The decode loop; \<open>pos\<close> is the number of bytes written so far.\<close>

fun mock_decode_loop :: "u32 list \<Rightarrow> nat \<Rightarrow> nat \<Rightarrow> u8 list" where
  "mock_decode_loop [] pos cap = []"
| "mock_decode_loop (t # ts) pos cap =
     (if t < MOCK_OFFSET \<or> t > MOCK_OFFSET + 127 then mock_decode_loop ts pos cap
      else if cap \<le> pos + 1 then []
      else ucast (t - MOCK_OFFSET) # mock_decode_loop ts (pos + 1) cap)"

definition mock_decode :: "hbi_vocabulary \<Rightarrow> u32 list \<Rightarrow> nat \<Rightarrow> hbi_status \<times> u8 list" where
  "mock_decode vocab tokens out_capacity =
     (if out_capacity = 0 then (HBI_ERR_INVALID_ARG, [])
      else (HBI_OK, mock_decode_loop tokens 0 out_capacity))"

text \<open>The context holds the number of bytes seen; \<open>ok_ctx\<close> is the allocation of the context.\<close>

definition mock_encode_incremental ::
  "bool \<Rightarrow> bool \<Rightarrow> (nat \<Rightarrow> u32) \<Rightarrow> hbi_vocabulary \<Rightarrow> u8 list \<Rightarrow> hbi_token_sequence \<Rightarrow> u64 ptr \<Rightarrow>
     (hbi_status \<times> hbi_token_sequence \<times> u64 ptr) option" where
  "mock_encode_incremental ok_ctx ok junk vocab txt s ctx =
     (case (case ctx of None \<Rightarrow> (if ok_ctx then Some 0 else None) | Some n \<Rightarrow> Some n) of
        None \<Rightarrow> Some (HBI_ERR_OOM, s, None)
      | Some n \<Rightarrow>
          (case mock_append ok junk txt s of
             None \<Rightarrow> None
           | Some (st, s') \<Rightarrow>
               if st \<noteq> HBI_OK then Some (st, s', Some n)
               else Some (HBI_OK, s', Some (n + of_nat (length txt)))))"

definition mock_decode_incremental ::
  "hbi_vocabulary \<Rightarrow> u32 \<Rightarrow> hbi_decode_state \<Rightarrow> nat \<Rightarrow> hbi_status \<times> hbi_decode_state \<times> u8 list" where
  "mock_decode_incremental vocab token state out_capacity =
     (if out_capacity < 2 then (HBI_ERR_INVALID_ARG, state, [])
      else if token < MOCK_OFFSET \<or> token > MOCK_OFFSET + 127 then (HBI_OK, state, [])
      else (HBI_OK, state, [ucast (token - MOCK_OFFSET)]))"

definition mock_tokenizer :: "bool \<Rightarrow> bool \<Rightarrow> (nat \<Rightarrow> u32) \<Rightarrow> u64 hbi_tokenizer" where
  "mock_tokenizer ok_ctx ok junk = \<lparr>tk_name = Some ''mock'', tk_init = Some (\<lambda>_. HBI_OK),
     tk_encode = Some (mock_encode ok junk), tk_decode = Some mock_decode,
     tk_encode_incremental = Some (mock_encode_incremental ok_ctx ok junk),
     tk_decode_incremental = Some mock_decode_incremental\<rparr>"

section \<open>The registry contract\<close>

interpretation tokr: keyed_registry "\<lambda>r. r" "\<lambda>r k. hbi_tokenizer_register r (Some k)" tk_name HBI_TOKENIZER_REGISTRY_MAX
  by unfold_locales (auto simp: hbi_tokenizer_register_def split: if_splits)

text \<open>
  Tokenizer lookup by name is stable: once a registration succeeded, the name finds that
  tokenizer after any further registrations, and no other tokenizer is accepted under the name.\<close>

lemma tokenizer_find_stable:
  assumes "hbi_tokenizer_register (foldl (\<lambda>r k. snd (hbi_tokenizer_register r (Some k))) hbi_tokenizer_registry_clear before)
      (Some t) = (HBI_OK, reg)"
  shows "let reg' = foldl (\<lambda>r k. snd (hbi_tokenizer_register r (Some k))) reg after in
    hbi_tokenizer_find reg' (tk_name t) = Some t \<and> hbi_tokenizer_count reg' \<le> HBI_TOKENIZER_REGISTRY_MAX \<and>
    (\<forall>u. tk_name u = tk_name t \<longrightarrow> fst (hbi_tokenizer_register reg' (Some u)) \<noteq> HBI_OK)"
proof -
  let ?r0 = "foldl (\<lambda>r k. snd (hbi_tokenizer_register r (Some k))) hbi_tokenizer_registry_clear before"
  let ?reg' = "foldl (\<lambda>r k. snd (hbi_tokenizer_register r (Some k))) reg after"
  have "tokr.reg_inv hbi_tokenizer_registry_clear" by (simp add: tokr.reg_inv_def hbi_tokenizer_registry_clear_def)
  then have inv0: "tokr.reg_inv ?r0" by (rule tokr.register_all_inv)
  have "tokr.reg_inv reg" using tokr.register_inv [OF inv0, of t] assms by simp
  then have inv: "tokr.reg_inv ?reg'" by (rule tokr.register_all_inv)
  have found: "find (\<lambda>e. tk_name e = tk_name t) ?reg' = Some t"
    by (rule tokr.accepted_is_found [OF inv0 assms])
  then have "t \<in> set ?reg'" by (auto simp: find_Some_iff)
  then have "fst (hbi_tokenizer_register ?reg' (Some u)) \<noteq> HBI_OK" if "tk_name u = tk_name t" for u
    using tokr.key_taken [OF inv] that by simp
  moreover obtain n where "tk_name t = Some n" using assms by (auto simp: hbi_tokenizer_register_def split: if_splits)
  ultimately show ?thesis
    using found inv by (simp add: hbi_tokenizer_find_def hbi_tokenizer_count_def tokr.reg_inv_def)
qed

section \<open>The round trip through the manager\<close>

lemma mock_append_correct:
  assumes "seq_inv s" and "length (contents s) + length bs \<le> 2 ^ 31"
  shows "\<exists>s'. mock_append True junk bs s = Some (HBI_OK, s') \<and> seq_inv s' \<and>
    contents s' = contents s @ map (\<lambda>b. wide b + MOCK_OFFSET) bs"
  using assms
proof (induction bs arbitrary: s)
  case (Cons b bs)
  have "length (contents s) + length [wide b + MOCK_OFFSET] \<le> 2 ^ 31" using Cons.prems(2) by simp
  then obtain s1 where s1: "hbi_token_sequence_append True junk (Some s) (wide b + MOCK_OFFSET) = Some (HBI_OK, Some s1)"
    "seq_inv s1" "contents s1 = contents s @ [wide b + MOCK_OFFSET]"
    using append_many_correct [OF Cons.prems(1), of "[wide b + MOCK_OFFSET]" True junk]
    by (auto simp: append_is_append_many)
  then show ?case using Cons.IH [OF s1(2)] Cons.prems(2) by simp
qed simp

lemma unat_wide: "unat (wide b) = unat b"
  by (simp add: unsigned_ucast_eq take_bit_nat_eq_self order_less_trans [OF unsigned_less])

lemma ucast_wide: "ucast (wide b) = b"
  by (rule bit_word_eqI) (auto simp: bit_simps)

lemma mock_decode_byte:
  assumes "b < 128"
  shows "\<not> (wide b + MOCK_OFFSET < MOCK_OFFSET)" "\<not> (wide b + MOCK_OFFSET > MOCK_OFFSET + 127)"
proof -
  have b: "unat b < 128" using assms by (simp add: word_less_nat_alt)
  have s: "unat (wide b + MOCK_OFFSET) = unat b + 5"
    using b by (simp add: MOCK_OFFSET_def unat_word_ariths unat_wide)
  show "\<not> (wide b + MOCK_OFFSET < MOCK_OFFSET)" using s by (simp add: word_less_nat_alt MOCK_OFFSET_def)
  show "\<not> (wide b + MOCK_OFFSET > MOCK_OFFSET + 127)"
    using s b by (simp add: word_less_nat_alt MOCK_OFFSET_def)
qed

lemma mock_decode_loop_correct:
  assumes "list_all (\<lambda>b. b < 128) bs" and "pos + length bs < cap"
  shows "mock_decode_loop (map (\<lambda>b. wide b + MOCK_OFFSET) bs) pos cap = bs"
  using assms by (induction bs arbitrary: pos) (simp_all add: mock_decode_byte ucast_wide)

lemma ascii_encode: "b < 128 \<Longrightarrow> scalar_value (wide b) \<and> hbi_utf8_encode (wide b) = [b]"
proof -
  assume "b < 128"
  then have "unat (wide b) < 128" by (simp add: unat_wide word_less_nat_alt)
  then have "wide b < 0x80" by (simp add: word_less_nat_alt)
  moreover from this have "\<not> wide b > 0x10FFFF" "\<not> (wide b \<ge> 0xD800 \<and> wide b \<le> 0xDFFF)"
    by (auto simp: word_less_nat_alt word_le_nat_alt)
  ultimately show ?thesis by (simp add: scalar_value_def hbi_utf8_encode_def ucast_wide)
qed

lemma ascii_valid: "list_all (\<lambda>b. b < 128) bs \<Longrightarrow> utf8_validate_loop bs"
proof (induction bs)
  case (Cons b bs)
  then have "scalar_value (wide b)" "hbi_utf8_encode (wide b) = [b]" using ascii_encode by auto
  then have "hbi_utf8_decode (Some (b # bs)) = (1, wide b)" using decode_encode [of "wide b" bs] by simp
  then show ?case using Cons by (subst utf8_validate_loop.simps) simp
qed (simp add: utf8_validate_loop.simps)

text \<open>
  C33. Text survives the tokenizer: encoding any ASCII text of fewer than \<open>2 ^ 31\<close> bytes through a
  manager over the byte-level tokenizer into a new sequence, and decoding the ids of the sequence
  into a buffer with room for the text and its terminator, gives the text back, and the manager's
  statistics count one call and all the tokens in each direction.\<close>

theorem manager_roundtrip:
  assumes "list_all (\<lambda>b. b < 128) txt" and "length txt \<le> 2 ^ 31" and "length txt < cap"
    and "hbi_tokenizer_manager_create True (Some (mock_tokenizer ok_ctx True junk)) (Some v) = Inr m"
    and "hbi_token_sequence_create True True junk' = Inr s"
  shows "\<exists>m1 s1 m2 st. hbi_tokenizer_manager_encode t0 t1 (Some m) (Some txt) (Some s) = Some (HBI_OK, Some m1, Some s1) \<and>
    hbi_tokenizer_manager_decode t2 t3 (Some m1) (hbi_token_sequence_data (Some s1)) (hbi_token_sequence_count (Some s1)) cap
      = (HBI_OK, Some m2, txt) \<and>
    hbi_tokenizer_manager_get_statistics (Some m2) = Inr st \<and> encode_calls st = 1 \<and> decode_calls st = 1 \<and>
    unat (tokens_encoded st) = length txt \<and> unat (tokens_decoded st) = length txt"
proof -
  have s: "seq_inv s" "contents s = []" using create_ok [OF assms(5)] by auto
  then obtain s1 where s1: "mock_append True junk txt s = Some (HBI_OK, s1)" "seq_inv s1"
    "contents s1 = map (\<lambda>b. wide b + MOCK_OFFSET) txt"
    using mock_append_correct [OF s(1), of "txt" junk] assms(2) by auto
  have n: "unat (ts_count s1) = length txt" using length_contents [OF s1(2)] s1(3) by simp
  have cnt: "unat (ucast (ts_count s1) :: u64) = length txt"
    using n unat_lt2p_32 [of "ts_count s1"] by (simp add: unsigned_ucast_eq take_bit_nat_eq_self)
  have ids: "take (unat (ts_count s1)) (ts_data s1) = map (\<lambda>b. wide b + MOCK_OFFSET) txt"
    using s1(3) by (simp add: contents_def)
  have valid: "hbi_utf8_validate (Some txt) (length txt)"
    using ascii_valid [OF assms(1)] by (simp add: hbi_utf8_validate_def)
  have dec: "mock_decode v (map (\<lambda>b. wide b + MOCK_OFFSET) txt) cap = (HBI_OK, txt)" for v
    using mock_decode_loop_correct [OF assms(1), of 0 cap] assms(3) by (simp add: mock_decode_def)
  have m: "tm_initialized m" "tk_encode (tm_tokenizer m) = Some (mock_encode True junk)"
    "tk_decode (tm_tokenizer m) = Some mock_decode" "tokens_encoded (tm_stats m) = 0" "tokens_decoded (tm_stats m) = 0"
    "encode_calls (tm_stats m) = 0" "decode_calls (tm_stats m) = 0"
    using assms(4) by (auto simp: hbi_tokenizer_manager_create_def mock_tokenizer_def)
  let ?m1 = "m\<lparr>tm_stats := (tm_stats m)\<lparr>encode_time_ns := encode_time_ns (tm_stats m) + (t1 - t0),
      encode_calls := 1, tokens_encoded := ucast (ts_count s1)\<rparr>\<rparr>"
  let ?m2 = "?m1\<lparr>tm_stats := (tm_stats ?m1)\<lparr>decode_time_ns := decode_time_ns (tm_stats m) + (t3 - t2),
      decode_calls := 1, tokens_decoded := ucast (ts_count s1)\<rparr>\<rparr>"
  have "hbi_tokenizer_manager_encode t0 t1 (Some m) (Some txt) (Some s) = Some (HBI_OK, Some ?m1, Some s1)"
    using s1(1) valid m by (simp add: hbi_tokenizer_manager_encode_def mock_encode_def hbi_token_sequence_count_def)
  moreover have "hbi_tokenizer_manager_decode t2 t3 (Some ?m1) (hbi_token_sequence_data (Some s1))
      (hbi_token_sequence_count (Some s1)) cap = (HBI_OK, Some ?m2, txt)"
    using dec ids m by (simp add: hbi_tokenizer_manager_decode_def hbi_token_sequence_data_def hbi_token_sequence_count_def)
  moreover have "hbi_tokenizer_manager_get_statistics (Some ?m2) = Inr (tm_stats ?m2)"
    by (simp add: hbi_tokenizer_manager_get_statistics_def)
  moreover have "encode_calls (tm_stats ?m2) = 1 \<and> decode_calls (tm_stats ?m2) = 1 \<and>
      unat (tokens_encoded (tm_stats ?m2)) = length txt \<and> unat (tokens_decoded (tm_stats ?m2)) = length txt"
    using cnt by simp
  ultimately show ?thesis by blast
qed

theorem manager_roundtrip_witness:
  "\<exists>m1 s1 m2. hbi_tokenizer_manager_encode 10 20 (Some \<lparr>tm_tokenizer = mock_tokenizer True True (\<lambda>_. 0),
       tm_vocabulary = \<lparr>table = [], table_capacity = 0, v_count = 0, special_ids = []\<rparr>,
       tm_stats = \<lparr>encode_time_ns = 0, decode_time_ns = 0, tokens_encoded = 0, tokens_decoded = 0,
         vocabulary_lookups = 0, encode_calls = 0, decode_calls = 0\<rparr>, tm_initialized = True\<rparr>)
       (Some [72, 105]) (Some \<lparr>ts_data = map (\<lambda>_. 0) [0..<64], ts_count = 0, ts_capacity = 64\<rparr>)
       = Some (HBI_OK, Some m1, Some s1) \<and>
     hbi_tokenizer_manager_decode 30 40 (Some m1) (hbi_token_sequence_data (Some s1)) (hbi_token_sequence_count (Some s1)) 8
       = (HBI_OK, Some m2, [72, 105])"
proof -
  let ?v = "\<lparr>table = [], table_capacity = 0, v_count = 0, special_ids = []\<rparr>"
  let ?m = "\<lparr>tm_tokenizer = mock_tokenizer True True (\<lambda>_. 0), tm_vocabulary = ?v,
       tm_stats = \<lparr>encode_time_ns = 0, decode_time_ns = 0, tokens_encoded = 0, tokens_decoded = 0,
         vocabulary_lookups = 0, encode_calls = 0, decode_calls = 0\<rparr>, tm_initialized = True\<rparr>"
  have m: "hbi_tokenizer_manager_create True (Some (mock_tokenizer True True (\<lambda>_. 0))) (Some ?v) = Inr ?m"
    by (simp add: hbi_tokenizer_manager_create_def mock_tokenizer_def)
  have s: "hbi_token_sequence_create True True (\<lambda>_. 0) = Inr \<lparr>ts_data = map (\<lambda>_. 0) [0..<64], ts_count = 0, ts_capacity = 64\<rparr>"
    by (simp add: hbi_token_sequence_create_def HBI_TOKEN_SEQ_INITIAL_CAP_def)
  have t: "list_all (\<lambda>b. b < 128) [72, 105 :: u8]" "length [72, 105 :: u8] \<le> 2 ^ 31" "length [72, 105 :: u8] < 8" by simp_all
  show ?thesis using manager_roundtrip [OF t m s, of 10 20 30 40] by blast
qed

end
