(* ===== verification/Quant.thy ===== *)
theory Quant
  imports Complex_Main Tensor
begin

text \<open>
  Decoding of element types to binary32 (\<open>src/src/quant/quant.c\<close>).

  A \<open>float\<close> is its bit pattern, as the source constructs it. The product of two floats in the
  MXFP4 decoder is an operation of the machine and is a parameter (\<open>fmul\<close>). Source arrays are read
  from a byte memory, little-endian; the destination array is the list of its elements. The
  normalisation loop of the half-precision decoder has no bound of its own and is a
  \<open>partial_function\<close>.

  The reference is the value that the IEEE 754 interchange formats assign to a bit pattern.
\<close>

unbundle bit_operations_syntax

section \<open>Half precision and bfloat16\<close>

partial_function (option) normalize :: "u32 \<Rightarrow> u32 \<Rightarrow> (u32 \<times> u32) option" where
  "normalize mant e = (if mant AND 0x400 = 0 then normalize (push_bit 1 mant) (e - 1) else Some (mant, e))"

definition fp16_to_fp32 :: "u16 \<Rightarrow> u32 option" where
  "fp16_to_fp32 h =
     (let sign = push_bit 16 (ucast (h AND 0x8000)) :: u32;
          e = ucast (drop_bit 10 h AND 0x1F) :: u32;
          mant = ucast (h AND 0x3FF) :: u32 in
      if e = 0 then
        (if mant = 0 then Some sign
         else case normalize mant (127 - 15 + 1) of
             None \<Rightarrow> None
           | Some (m, e') \<Rightarrow> Some (sign OR push_bit 23 e' OR push_bit 13 (m AND 0x3FF)))
      else if e = 0x1F then Some (sign OR 0x7F800000 OR push_bit 13 mant)
      else Some (sign OR push_bit 23 (e - 15 + 127) OR push_bit 13 mant))"

definition bf16_to_fp32 :: "u16 \<Rightarrow> u32" where
  "bf16_to_fp32 b = push_bit 16 (ucast b)"

section \<open>MXFP4\<close>

definition k_e2m1_lut :: "u32 list" where
  "k_e2m1_lut = [0x00000000, 0x3F000000, 0x3F800000, 0x3FC00000, 0x40000000, 0x40400000, 0x40800000, 0x40C00000,
                 0x80000000, 0xBF000000, 0xBF800000, 0xBFC00000, 0xC0000000, 0xC0400000, 0xC0800000, 0xC0C00000]"

definition e8m0_to_scale :: "u8 \<Rightarrow> u32" where
  "e8m0_to_scale e =
     (if e = 0xFF then 0
      else let unbiased = uint e - 127 in push_bit 23 (word_of_int (unbiased + 127)))"

definition hbi_quant_mxfp4_validate :: "hbi_quant_meta ptr \<Rightarrow> nat \<Rightarrow> hbi_status" where
  "hbi_quant_mxfp4_validate meta n_elems =
     (case meta of
        None \<Rightarrow> HBI_ERR_CORRUPT
      | Some m \<Rightarrow>
          if group_size m \<noteq> 32 then HBI_ERR_CORRUPT
          else if scales m = 0 then HBI_ERR_CORRUPT
          else if scale_dtype m \<noteq> HBI_DTYPE_INT8 then HBI_ERR_CORRUPT
          else if num_scales m \<noteq> (n_elems + 31) div 32 then HBI_ERR_CORRUPT
          else HBI_OK)"

definition mxfp4_elem :: "(u32 \<Rightarrow> u32 \<Rightarrow> u32) \<Rightarrow> memory \<Rightarrow> nat \<Rightarrow> hbi_quant_meta \<Rightarrow> nat \<Rightarrow> u32" where
  "mxfp4_elem fmul mem src m i =
     (let byte = mem (src + i div 2);
          odd_elem = (i mod 2 \<noteq> 0);
          is_high = (if nibble_order m = HBI_NIBBLE_HIGH_FIRST then \<not> odd_elem else odd_elem);
          nib = (if is_high then drop_bit 4 byte else byte AND 0x0F);
          scale = e8m0_to_scale (mem (scales m + i div 32)) in
      fmul (k_e2m1_lut ! unat nib) scale)"

definition dequant_mxfp4 ::
  "(u32 \<Rightarrow> u32 \<Rightarrow> u32) \<Rightarrow> memory \<Rightarrow> nat \<Rightarrow> nat \<Rightarrow> hbi_quant_meta ptr \<Rightarrow> u32 list outcome" where
  "dequant_mxfp4 fmul mem src n_elems meta =
     (let st = hbi_quant_mxfp4_validate meta n_elems in
      if st \<noteq> HBI_OK then Inl st
      else Inr (map (mxfp4_elem fmul mem src (the meta)) [0..<n_elems]))"

section \<open>The entry point\<close>

definition load_u16 :: "memory \<Rightarrow> nat \<Rightarrow> u16" where
  "load_u16 mem a = ucast (mem a) OR push_bit 8 (ucast (mem (a + 1)))"

definition load_u32 :: "memory \<Rightarrow> nat \<Rightarrow> u32" where
  "load_u32 mem a = ucast (mem a) OR push_bit 8 (ucast (mem (a + 1))) OR push_bit 16 (ucast (mem (a + 2)))
     OR push_bit 24 (ucast (mem (a + 3)))"

text \<open>\<open>None\<close> would mean that a decoding loop does not return.\<close>

definition hbi_quant_dequantize_to_fp32 ::
  "(u32 \<Rightarrow> u32 \<Rightarrow> u32) \<Rightarrow> hbi_dtype \<Rightarrow> memory \<Rightarrow> nat \<Rightarrow> nat \<Rightarrow> hbi_quant_meta ptr \<Rightarrow> u32 list outcome option" where
  "hbi_quant_dequantize_to_fp32 fmul src_dtype mem src n_elems meta =
     (if src = 0 \<or> n_elems = 0 then Some (Inl HBI_ERR_INVALID_ARG)
      else (case src_dtype of
          HBI_DTYPE_FP32 \<Rightarrow> Some (Inr (map (\<lambda>i. load_u32 mem (src + 4 * i)) [0..<n_elems]))
        | HBI_DTYPE_FP16 \<Rightarrow>
            (let rs = map (\<lambda>i. fp16_to_fp32 (load_u16 mem (src + 2 * i))) [0..<n_elems] in
             if None \<in> set rs then None else Some (Inr (map the rs)))
        | HBI_DTYPE_BF16 \<Rightarrow> Some (Inr (map (\<lambda>i. bf16_to_fp32 (load_u16 mem (src + 2 * i))) [0..<n_elems]))
        | HBI_DTYPE_MXFP4 \<Rightarrow> Some (dequant_mxfp4 fmul mem src n_elems meta)
        | _ \<Rightarrow> Some (Inl HBI_ERR_UNSUPPORTED)))"

section \<open>Values of bit patterns\<close>

datatype fp = Fp_Nan | Fp_Inf bool | Fp_Num bool rat

text \<open>Sign, exponent field and fraction field of an interchange format with \<open>ew\<close> and \<open>fw\<close> bits.\<close>

definition ieee_fields :: "nat \<Rightarrow> nat \<Rightarrow> bool \<Rightarrow> nat \<Rightarrow> nat \<Rightarrow> fp" where
  "ieee_fields ew fw s e f =
     (let bias = 2 ^ (ew - 1) - 1 :: int in
      if e = 2 ^ ew - 1 then (if f = 0 then Fp_Inf s else Fp_Nan)
      else if e = 0 then Fp_Num s (of_nat f * 2 powi (1 - bias - int fw))
      else Fp_Num s (of_nat (2 ^ fw + f) * 2 powi (int e - bias - int fw)))"

definition ieee :: "nat \<Rightarrow> nat \<Rightarrow> nat \<Rightarrow> fp" where
  "ieee ew fw n = ieee_fields ew fw (odd (n div 2 ^ (ew + fw))) (n div 2 ^ fw mod 2 ^ ew) (n mod 2 ^ fw)"

definition binary16 :: "u16 \<Rightarrow> fp" where "binary16 h = ieee 5 10 (unat h)"
definition bfloat16 :: "u16 \<Rightarrow> fp" where "bfloat16 b = ieee 8 7 (unat b)"
definition binary32 :: "u32 \<Rightarrow> fp" where "binary32 w = ieee 8 23 (unat w)"

lemma ieee_split:
  assumes "e < 2 ^ ew" and "f < 2 ^ fw"
  shows "ieee ew fw ((if s then 2 ^ (ew + fw) else 0) + (e * 2 ^ fw + f)) = ieee_fields ew fw s e f"
proof -
  let ?n = "(if s then 2 ^ (ew + fw) else 0) + (e * 2 ^ fw + f)"
  have f: "?n mod 2 ^ fw = f" using assms(2) by (simp add: power_add)
  have d: "?n div 2 ^ fw = (if s then 2 ^ ew else 0) + e"
    using assms(2) by (simp add: power_add flip: add.assoc distrib_right)
  have "?n div 2 ^ (ew + fw) = ?n div (2 ^ fw * 2 ^ ew)" by (simp only: power_add mult.commute)
  also have "\<dots> = ?n div 2 ^ fw div 2 ^ ew" by (rule div_mult2_eq)
  also have "\<dots> = (if s then 1 else 0)" using assms(1) by (simp add: d)
  finally have sg: "odd (?n div 2 ^ (ew + fw)) \<longleftrightarrow> s" by simp
  have "?n div 2 ^ fw mod 2 ^ ew = e" using assms(1) by (simp add: d)
  then show ?thesis unfolding ieee_def by (simp only: f sg)
qed

lemma sign_bit: "bit ((if s then 0x80000000 else 0) :: u32) n \<longleftrightarrow> s \<and> n = 31"
proof -
  have "bit (2 ^ 31 :: u32) n \<longleftrightarrow> n = 31" by (auto simp only: bit_exp_iff possible_bit_word) simp
  then show ?thesis by simp
qed

lemma binary32_fields:
  assumes "unat e < 2 ^ 8" and "unat m < 2 ^ 10"
  shows "binary32 ((if s then 0x80000000 else 0) OR push_bit 23 e OR push_bit 13 m) =
    ieee_fields 8 23 s (unat e) (unat m * 2 ^ 13)"
proof -
  let ?sg = "(if s then 0x80000000 else 0) :: u32"
  have m: "unat (push_bit 13 m) = unat m * 2 ^ 13" using assms(2) by (simp add: unat_push_bit)
  have e: "unat (push_bit 23 e) = unat e * 2 ^ 23" using assms(1) by (simp add: unat_push_bit)
  have me: "\<not> bit m n" if "10 \<le> n" for n using bit_below [OF assms(2) that] .
  have ee: "\<not> bit e n" if "8 \<le> n" for n using bit_below [OF assms(1) that] .
  have em: "unat (push_bit 23 e OR push_bit 13 m) = unat e * 2 ^ 23 + unat m * 2 ^ 13"
    using m e assms by (subst unat_or_disjoint) (auto simp: bit_push_bit_iff me)
  have "unat (?sg OR (push_bit 23 e OR push_bit 13 m)) = (if s then 2 ^ 31 else 0) + (unat e * 2 ^ 23 + unat m * 2 ^ 13)"
    using em assms by (subst unat_or_disjoint) (auto simp: sign_bit bit_or_iff bit_push_bit_iff me ee)
  moreover have "unat m * 2 ^ 13 < 2 ^ 23" using assms(2) by simp
  ultimately show ?thesis
    using ieee_split [OF assms(1), of "unat m * 2 ^ 13" 23 s] by (cases s) (simp_all add: binary32_def or.assoc)
qed

section \<open>Half precision decodes to the same value\<close>

lemma normalize_returns:
  assumes "1024 \<le> unat m * 2 ^ d" and "unat m * 2 ^ d < 2048"
  shows "\<exists>m'. normalize m e = Some (m', e - of_nat d) \<and> unat m' = unat m * 2 ^ d"
  using assms
proof (induction d arbitrary: m e)
  case 0
  then have "unat m div 1024 = 1" by simp
  then have "bit (unat m) 10" by (simp add: bit_iff_odd)
  then have "bit m 10" by (simp add: bit_unsigned_iff)
  then have "m AND 0x400 \<noteq> 0" using and_exp_eq_0_iff_not_bit [of m 10] by simp
  then show ?case by (subst normalize.simps) simp
next
  case (Suc d)
  have less: "unat m < 1024" using Suc.prems(2) le_less_trans [of "unat m" "unat m * 2 ^ d" 1024] by simp
  then have "\<not> bit m 10" using bit_below [of m 10 10] by simp
  then have z: "m AND 0x400 = 0" using and_exp_eq_0_iff_not_bit [of m 10] by simp
  have "unat (push_bit 1 m) = unat m * 2" using less by (subst unat_push_bit) auto
  then have "\<exists>m'. normalize (push_bit 1 m) (e - 1) = Some (m', e - 1 - of_nat d) \<and> unat m' = unat m * 2 ^ Suc d"
    using Suc.IH [of "push_bit 1 m" "e - 1"] Suc.prems by (simp add: mult.assoc)
  then show ?case using z by (subst normalize.simps) (simp add: algebra_simps)
qed

lemma normalize_subnormal:
  assumes "0 < unat m" and "unat m < 1024"
  shows "\<exists>m' d. normalize m e = Some (m', e - of_nat d) \<and> unat m' = unat m * 2 ^ d \<and> d \<le> 10 \<and>
    1024 \<le> unat m' \<and> unat m' < 2048"
proof -
  obtain k where k: "2 ^ k \<le> unat m" "unat m < 2 ^ Suc k" using ex_power_ivl1 [of 2 "unat m"] assms(1) by auto
  have "(2::nat) ^ k < 2 ^ 10" using k(1) assms(2) by simp
  then have k10: "k < 10" by (rule power_less_imp_less_exp [rotated]) simp
  have "(2::nat) ^ k * 2 ^ (10 - k) = 1024" using k10 by (simp flip: power_add)
  then have "1024 \<le> unat m * 2 ^ (10 - k)" using k(1) by (metis mult_le_mono1)
  moreover have "(2::nat) ^ Suc k * 2 ^ (10 - k) = 2048" using k10 by (simp flip: power_add)
  then have "unat m * 2 ^ (10 - k) < 2048" using k(2) by (metis mult_less_mono1 zero_less_numeral zero_less_power)
  ultimately show ?thesis using normalize_returns [of m "10 - k" e] by (metis diff_le_self)
qed

lemma half_fields:
  fixes h :: u16
  shows "push_bit 16 (ucast (h AND 0x8000)) = (if odd (unat h div 2 ^ 15) then 0x80000000 else 0 :: u32)"
    and "unat (ucast (drop_bit 10 h AND 0x1F) :: u32) = unat h div 2 ^ 10 mod 2 ^ 5"
    and "unat (ucast (h AND 0x3FF) :: u32) = unat h mod 2 ^ 10"
proof -
  have up: "unat (ucast x :: u32) = unat x" for x :: u16
    by (simp add: unsigned_ucast_eq take_bit_nat_eq_self order_less_trans [OF unsigned_less])
  have b: "bit h 15 \<longleftrightarrow> odd (unat h div 2 ^ 15)"
    by (simp only: bit_iff_odd [symmetric] bit_unsigned_iff) simp
  show "push_bit 16 (ucast (h AND 0x8000)) = (if odd (unat h div 2 ^ 15) then 0x80000000 else 0 :: u32)"
    unfolding b [symmetric]
  proof (rule bit_word_eqI)
    fix n
    have "bit (2 ^ 15 :: u16) j \<longleftrightarrow> j = 15" for j by (auto simp only: bit_exp_iff possible_bit_word) simp
    then have j: "bit (0x8000 :: u16) j \<longleftrightarrow> j = 15" for j by simp
    assume "n < LENGTH(32)"
    then show "bit (push_bit 16 (ucast (h AND 0x8000)) :: u32) n = bit (if bit h 15 then 0x80000000 else 0 :: u32) n"
      unfolding sign_bit bit_push_bit_iff bit_ucast_iff bit_and_iff j by auto
  qed
  have "(0x3FF :: u16) = mask 10" "(0x1F :: u16) = mask 5" by (simp_all add: mask_eq_exp_minus_1)
  then have "unat (ucast (drop_bit 10 h AND 0x1F) :: u32) = unat (drop_bit 10 h) mod 2 ^ 5"
    "unat (ucast (h AND 0x3FF) :: u32) = unat h mod 2 ^ 10"
    by (simp_all only: up word_and_mask_mod)
  moreover have "unat (drop_bit 10 h) = unat h div 2 ^ 10" by (subst unat_drop_bit_eq) (rule drop_bit_eq_div)
  ultimately show "unat (ucast (drop_bit 10 h AND 0x1F) :: u32) = unat h div 2 ^ 10 mod 2 ^ 5"
    "unat (ucast (h AND 0x3FF) :: u32) = unat h mod 2 ^ 10" by simp_all
qed

lemma low_mantissa: "1024 \<le> unat m \<Longrightarrow> unat m < 2048 \<Longrightarrow> unat (m AND 0x3FF) = unat m - 1024" for m :: u32
proof -
  assume m: "1024 \<le> unat m" "unat m < 2048"
  have "(0x3FF :: u32) = mask 10" by (simp add: mask_eq_exp_minus_1)
  then have "unat (m AND 0x3FF) = unat m mod 2 ^ 10" by (simp only: word_and_mask_mod)
  then show ?thesis using m by (simp add: mod_if [of "unat m"])
qed

lemma powi_shift: "(x :: rat) * 2 ^ k * 2 powi i = x * 2 powi (int k + i)"
  by (simp add: power_int_add)

lemma fp16_value: "\<exists>w. fp16_to_fp32 h = Some w \<and> binary32 w = binary16 h"
proof -
  let ?s = "odd (unat h div 2 ^ 15)" and ?E = "unat h div 2 ^ 10 mod 2 ^ 5" and ?M = "unat h mod 2 ^ 10"
  let ?sg = "if ?s then 0x80000000 else 0 :: u32"
  let ?e = "ucast (drop_bit 10 h AND 0x1F) :: u32" and ?m = "ucast (h AND 0x3FF) :: u32"
  have e: "unat ?e = ?E" and m: "unat ?m = ?M" using half_fields by blast+
  have M: "?M < 1024" "?E < 32" by simp_all
  have ref: "binary16 h = ieee_fields 5 10 ?s ?E ?M" by (simp add: binary16_def ieee_def)
  have e0: "?e = 0 \<longleftrightarrow> ?E = 0" and m0: "?m = 0 \<longleftrightarrow> ?M = 0" and e31: "?e = 0x1F \<longleftrightarrow> ?E = 31"
    using e m by (simp_all add: word_unat_eq_iff)
  consider "?E = 0" "?M = 0" | "?E = 0" "?M \<noteq> 0" | "?E = 31" | "?E \<noteq> 0" "?E \<noteq> 31" by blast
  then show ?thesis
  proof cases
    case 1
    have "binary32 (?sg OR push_bit 23 0 OR push_bit 13 0) = ieee_fields 8 23 ?s 0 0"
      using binary32_fields [of 0 0 ?s] by simp
    then show ?thesis
      using 1 e0 m0 by (simp add: fp16_to_fp32_def half_fields(1) ref ieee_fields_def)
  next
    case 2
    then have "0 < unat ?m" "unat ?m < 1024" using m M by simp_all
    then obtain m' d where n: "normalize ?m 113 = Some (m', 113 - of_nat d)" "unat m' = unat ?m * 2 ^ d" "d \<le> 10"
      "1024 \<le> unat m'" "unat m' < 2048"
      using normalize_subnormal [of ?m 113] by blast
    have ue: "unat (113 - of_nat d :: u32) = 113 - d" using n(3) by (simp add: unat_sub word_le_nat_alt unat_of_nat)
    have um: "unat (m' AND 0x3FF) = unat m' - 1024" using low_mantissa n(4,5) by blast
    let ?w = "?sg OR push_bit 23 (113 - of_nat d) OR push_bit 13 (m' AND 0x3FF)"
    have w: "fp16_to_fp32 h = Some ?w"
      using 2 e0 m0 n(1) by (simp add: fp16_to_fp32_def half_fields(1))
    have "binary32 ?w = ieee_fields 8 23 ?s (113 - d) ((unat m' - 1024) * 2 ^ 13)"
      using binary32_fields [of "113 - of_nat d" "m' AND 0x3FF" ?s] n(3,5) um ue by simp
    also have "\<dots> = Fp_Num ?s (of_nat (2 ^ 23 + (unat m' - 1024) * 2 ^ 13) * 2 powi (int (113 - d) - 127 - 23))"
      using n(3) by (simp add: ieee_fields_def)
    also have "2 ^ 23 + (unat m' - 1024) * 2 ^ 13 = unat ?m * 2 ^ (d + 13)"
      using n(2,4) by (simp add: power_add)
    also have "of_nat (unat ?m * 2 ^ (d + 13)) * 2 powi (int (113 - d) - 127 - 23) = (of_nat (unat ?m) * 2 powi (- 24) :: rat)"
      using n(3) powi_shift [of "of_nat (unat ?m)" "d + 13" "int (113 - d) - 127 - 23"] by simp
    finally show ?thesis using w 2(1) m by (simp add: ref ieee_fields_def)
  next
    case 3
    have "push_bit 23 (255 :: u32) = 0x7F800000" by simp
    then have "fp16_to_fp32 h = Some (?sg OR push_bit 23 255 OR push_bit 13 ?m)"
      using 3 e0 e31 by (simp add: fp16_to_fp32_def half_fields(1))
    moreover have "binary32 (?sg OR push_bit 23 255 OR push_bit 13 ?m) = ieee_fields 8 23 ?s 255 (?M * 2 ^ 13)"
      using binary32_fields [of 255 ?m ?s] m M(1) by simp
    ultimately show ?thesis using 3 by (simp add: ref ieee_fields_def)
  next
    case 4
    have ue: "unat (?e - 15 + 127) = ?E + 112"
    proof -
      have "?e - 15 + 127 = ?e + 112" by simp
      moreover have "unat (?e + 112) = unat ?e + 112" using e M(2) by (simp add: unat_word_ariths)
      ultimately show ?thesis using e by (simp only:)
    qed
    have "fp16_to_fp32 h = Some (?sg OR push_bit 23 (?e - 15 + 127) OR push_bit 13 ?m)"
      using 4 e0 e31 by (simp add: fp16_to_fp32_def half_fields(1))
    moreover have "binary32 (?sg OR push_bit 23 (?e - 15 + 127) OR push_bit 13 ?m) = ieee_fields 8 23 ?s (?E + 112) (?M * 2 ^ 13)"
      using binary32_fields [of "?e - 15 + 127" ?m ?s] m M ue by simp
    moreover have "ieee_fields 8 23 ?s (?E + 112) (?M * 2 ^ 13) =
        Fp_Num ?s (of_nat (2 ^ 10 + ?M) * 2 ^ 13 * 2 powi (int ?E + 112 - 127 - 23))"
      using 4 M(2) by (simp add: ieee_fields_def algebra_simps)
    ultimately show ?thesis
      using 4 powi_shift [of "of_nat (2 ^ 10 + ?M)" 13 "int ?E + 112 - 127 - 23"] by (simp add: ref ieee_fields_def)
  qed
qed

lemma bf16_value: "binary32 (bf16_to_fp32 b) = bfloat16 b"
proof -
  let ?n = "unat b"
  have lt: "?n < 2 ^ 16" using unsigned_less [of b] by simp
  have up: "unat (ucast b :: u32) = ?n" using lt by (simp add: unsigned_ucast_eq take_bit_nat_eq_self)
  have n: "unat (bf16_to_fp32 b) = ?n * 2 ^ 16"
    unfolding bf16_to_fp32_def using lt up by (subst unat_push_bit) auto
  have d: "?n * 2 ^ 16 div 2 ^ (k + 16) = ?n div 2 ^ k" for k
    by (simp only: power_add) simp
  have s31: "?n * 2 ^ 16 div 2 ^ (8 + 23) = ?n div 2 ^ (8 + 7)" using d [of 15] by simp
  have e23: "?n * 2 ^ 16 div 2 ^ 23 = ?n div 2 ^ 7" using d [of 7] by simp
  have f23: "?n * 2 ^ 16 mod 2 ^ 23 = (?n mod 2 ^ 7) * 2 ^ 16"
    using mult_mod_right [of "2 ^ 16" ?n "2 ^ 7"] by (simp add: mult.commute)
  have shift: "of_nat (f * 2 ^ 16) * 2 powi i = (of_nat f * 2 powi (16 + i) :: rat)" for f i
    using powi_shift [of "of_nat f" 16 i] by simp
  have "ieee_fields 8 23 x e (f * 2 ^ 16) = ieee_fields 8 7 x e f" for x e f
    using shift [of f "- 149"] shift [of "2 ^ 7 + f" "int e - 150"] by (simp add: ieee_fields_def algebra_simps)
  then show ?thesis unfolding binary32_def bfloat16_def ieee_def n s31 e23 f23 by blast
qed

section \<open>MXFP4 codes and scales\<close>








section \<open>Properties\<close>

text \<open>
  C14. Decoding half precision and bfloat16 is exact: for every number of elements the decoder
  returns, and the binary32 pattern of each element has the same IEEE 754 value (sign of zero,
  infinities and NaN included) as the 16-bit pattern it was decoded from; binary32 is copied.\<close>

theorem dequantize_exact:
  assumes "src \<noteq> 0" and "0 < n"
  shows "(\<exists>ds. hbi_quant_dequantize_to_fp32 fmul HBI_DTYPE_FP16 mem src n meta = Some (Inr ds) \<and> length ds = n \<and>
      (\<forall>i < n. binary32 (ds ! i) = binary16 (load_u16 mem (src + 2 * i)))) \<and>
    (\<exists>ds. hbi_quant_dequantize_to_fp32 fmul HBI_DTYPE_BF16 mem src n meta = Some (Inr ds) \<and> length ds = n \<and>
      (\<forall>i < n. binary32 (ds ! i) = bfloat16 (load_u16 mem (src + 2 * i)))) \<and>
    (\<exists>ds. hbi_quant_dequantize_to_fp32 fmul HBI_DTYPE_FP32 mem src n meta = Some (Inr ds) \<and> length ds = n \<and>
      (\<forall>i < n. ds ! i = load_u32 mem (src + 4 * i)))"
proof (intro conjI)
  have "fp16_to_fp32 h \<noteq> None" "binary32 (the (fp16_to_fp32 h)) = binary16 h" for h
    using fp16_value [of h] by auto
  then show "\<exists>ds. hbi_quant_dequantize_to_fp32 fmul HBI_DTYPE_FP16 mem src n meta = Some (Inr ds) \<and> length ds = n \<and>
      (\<forall>i < n. binary32 (ds ! i) = binary16 (load_u16 mem (src + 2 * i)))"
    using assms by (auto simp: hbi_quant_dequantize_to_fp32_def Let_def) (metis option.distinct(1))
qed (use assms bf16_value in \<open>simp_all add: hbi_quant_dequantize_to_fp32_def\<close>)

theorem dequantize_exact_witness:
  "\<exists>ds. hbi_quant_dequantize_to_fp32 (\<lambda>a b. a) HBI_DTYPE_FP16 (\<lambda>a. if a = 4097 then 0x3C else 0) 4096 1 None = Some (Inr ds) \<and>
     binary32 (ds ! 0) = Fp_Num False 1"
proof -
  let ?mem = "\<lambda>a. if a = 4097 then 0x3C else 0 :: u8"
  obtain ds where ds: "hbi_quant_dequantize_to_fp32 (\<lambda>a b. a) HBI_DTYPE_FP16 ?mem 4096 1 None = Some (Inr ds)"
    "binary32 (ds ! 0) = binary16 (load_u16 ?mem 4096)"
    using dequantize_exact [of 4096 1 "\<lambda>a b. a" ?mem None] by auto
  have "load_u16 ?mem 4096 = 0x3C00" by (simp add: load_u16_def)
  then have "binary32 (ds ! 0) = Fp_Num False 1"
    using ds(2) by (simp add: binary16_def ieee_def ieee_fields_def power_int_def power_one_over)
  then show ?thesis using ds(1) by blast
qed




text \<open>
  The scale byte 0 stands for \<open>2 powi (- 127)\<close>, but the bit construction yields the pattern of zero.
\<close>

lemma scale_zero: "e8m0_to_scale 0 = 0" "binary32 0 = Fp_Num False 0"
  by (simp_all add: e8m0_to_scale_def binary32_def ieee_def ieee_fields_def)

end
