(* ===== verification/Model.thy ===== *)
theory Model
  imports Tensor_Shape Registry
begin

text \<open>
  The model loader (\<open>src/src/model/model.c\<close>): the registry of format handlers, the tensor
  manifest, the metadata table and the loading pipeline.

  \<^item> C strings are the bytes before their NUL (\<open>u8 list\<close>); a path is a \<open>string\<close>.
  \<^item> An allocator is NULL or a function that says for each allocation made through it, in order,
    whether it succeeds. A growing step of a table has its own flag.
  \<^item> The tables grow by doubling a \<open>uint32_t\<close> capacity, which is a word. A store behind the
    capacity is undefined in C and \<open>None\<close> here; the theorems show when it does not happen.
  \<^item> The functions of a format handler are fields of a record, as in the source; a parser may itself
    meet undefined behaviour, hence its \<open>option\<close>.
  \<^item> \<open>now i\<close> is the \<open>i\<close>-th reading of the monotonic clock during a load.
\<close>

unbundle bit_operations_syntax

section \<open>Formats\<close>

datatype hbi_model_format =
    HBI_MODEL_FORMAT_UNKNOWN | HBI_MODEL_FORMAT_GGUF | HBI_MODEL_FORMAT_SAFETENSORS | HBI_MODEL_FORMAT_COUNT

fun hbi_model_format_str :: "hbi_model_format \<Rightarrow> string" where
  "hbi_model_format_str HBI_MODEL_FORMAT_UNKNOWN = ''unknown''"
| "hbi_model_format_str HBI_MODEL_FORMAT_GGUF = ''gguf''"
| "hbi_model_format_str HBI_MODEL_FORMAT_SAFETENSORS = ''safetensors''"
| "hbi_model_format_str HBI_MODEL_FORMAT_COUNT = ''unknown''"

section \<open>Manifest\<close>

datatype hbi_residency_hint =
    HBI_RESIDENCY_DEFAULT | HBI_RESIDENCY_RESIDENT | HBI_RESIDENCY_STREAMABLE | HBI_RESIDENCY_COLD

definition HBI_TENSOR_NAME_MAX :: nat where "HBI_TENSOR_NAME_MAX = 256"
definition HBI_MANIFEST_INITIAL_CAP :: u32 where "HBI_MANIFEST_INITIAL_CAP = 64"

record hbi_tensor_entry =
  te_name :: "u8 list"
  te_shape :: hbi_shape
  te_dtype :: hbi_dtype
  te_file_offset :: u64
  te_byte_size :: u64
  te_required_alignment :: nat
  te_shard_index :: nat
  te_residency :: hbi_residency_hint

text \<open>The entries in use; \<open>count\<close> is their number.\<close>

record hbi_model_manifest =
  mf_entries :: "hbi_tensor_entry list"
  mf_capacity :: u32

definition hbi_model_manifest_create :: "(nat \<Rightarrow> bool) ptr \<Rightarrow> nat \<Rightarrow> hbi_model_manifest outcome" where
  "hbi_model_manifest_create allocator i =
     (case allocator of
        None \<Rightarrow> Inl HBI_ERR_INVALID_ARG
      | Some ok \<Rightarrow>
          if \<not> ok i then Inl HBI_ERR_OOM
          else if \<not> ok (i + 1) then Inl HBI_ERR_OOM
          else Inr \<lparr>mf_entries = [], mf_capacity = HBI_MANIFEST_INITIAL_CAP\<rparr>)"

definition manifest_grow :: "bool \<Rightarrow> hbi_model_manifest \<Rightarrow> hbi_status \<times> hbi_model_manifest" where
  "manifest_grow ok m =
     (let new_cap = mf_capacity m * 2 in
      if \<not> ok then (HBI_ERR_OOM, m) else (HBI_OK, m\<lparr>mf_capacity := new_cap\<rparr>))"

definition hbi_model_manifest_add ::
  "bool \<Rightarrow> hbi_model_manifest ptr \<Rightarrow> hbi_tensor_entry ptr \<Rightarrow> (hbi_status \<times> hbi_model_manifest ptr) option" where
  "hbi_model_manifest_add ok manifest entry =
     (case (manifest, entry) of
        (Some m, Some e) \<Rightarrow>
          if te_name e = [] then Some (HBI_ERR_INVALID_ARG, manifest)
          else if te_byte_size e = 0 then Some (HBI_ERR_INVALID_ARG, manifest)
          else if 0xFFFFFFFFFFFFFFFF \<le> te_byte_size e then Some (HBI_ERR_INVALID_ARG, manifest)
          else if \<not> hbi_dtype_is_valid (te_dtype e) then Some (HBI_ERR_INVALID_ARG, manifest)
          else if list_ex (\<lambda>x. te_name x = te_name e) (mf_entries m) then Some (HBI_ERR_STATE, manifest)
          else
            let (st, m1) = (if unat (mf_capacity m) \<le> length (mf_entries m) then manifest_grow ok m else (HBI_OK, m)) in
            if st \<noteq> HBI_OK then Some (st, Some m1)
            else if unat (mf_capacity m1) \<le> length (mf_entries m1) then None
            else Some (HBI_OK, Some (m1\<lparr>mf_entries := mf_entries m1 @ [e]\<rparr>))
      | _ \<Rightarrow> Some (HBI_ERR_INVALID_ARG, manifest))"

definition hbi_model_manifest_count :: "hbi_model_manifest ptr \<Rightarrow> nat" where
  "hbi_model_manifest_count manifest = (case manifest of None \<Rightarrow> 0 | Some m \<Rightarrow> length (mf_entries m))"

definition hbi_model_manifest_entry :: "hbi_model_manifest ptr \<Rightarrow> nat \<Rightarrow> hbi_tensor_entry ptr" where
  "hbi_model_manifest_entry manifest i =
     (case manifest of
        None \<Rightarrow> None
      | Some m \<Rightarrow> if length (mf_entries m) \<le> i then None else Some (mf_entries m ! i))"

definition hbi_model_manifest_find :: "hbi_model_manifest ptr \<Rightarrow> u8 list ptr \<Rightarrow> hbi_tensor_entry ptr" where
  "hbi_model_manifest_find manifest name =
     (case (manifest, name) of (Some m, Some n) \<Rightarrow> find (\<lambda>e. te_name e = n) (mf_entries m) | _ \<Rightarrow> None)"

definition validate_entry :: "hbi_tensor_entry \<Rightarrow> hbi_status" where
  "validate_entry e =
     (if te_name e = [] then HBI_ERR_INVALID_ARG
      else if \<not> hbi_dtype_is_valid (te_dtype e) then HBI_ERR_INVALID_ARG
      else if te_byte_size e = 0 then HBI_ERR_INVALID_ARG
      else if hbi_shape_validate (Some (te_shape e)) \<noteq> HBI_OK then HBI_ERR_INVALID_ARG
      else case hbi_shape_elem_count (Some (te_shape e)) of
             Inl _ \<Rightarrow> HBI_ERR_INVALID_ARG
           | Inr count \<Rightarrow>
               (case hbi_dtype_packed_nbytes (te_dtype e) count of
                  Inl _ \<Rightarrow> HBI_ERR_INVALID_ARG
                | Inr expected_bytes \<Rightarrow>
                    if unat (te_byte_size e) < expected_bytes then HBI_ERR_INVALID_ARG else HBI_OK))"

fun validate_loop :: "hbi_tensor_entry list \<Rightarrow> hbi_status" where
  "validate_loop [] = HBI_OK"
| "validate_loop (e # es) = (let st = validate_entry e in if st \<noteq> HBI_OK then st else validate_loop es)"

definition hbi_model_manifest_validate :: "hbi_model_manifest ptr \<Rightarrow> hbi_status" where
  "hbi_model_manifest_validate manifest =
     (case manifest of None \<Rightarrow> HBI_ERR_INVALID_ARG | Some m \<Rightarrow> validate_loop (mf_entries m))"

section \<open>Metadata\<close>

definition HBI_METADATA_KEY_MAX :: nat where "HBI_METADATA_KEY_MAX = 128"
definition HBI_METADATA_VALUE_MAX :: nat where "HBI_METADATA_VALUE_MAX = 512"
definition HBI_METADATA_INITIAL_CAP :: u32 where "HBI_METADATA_INITIAL_CAP = 32"

record hbi_model_metadata =
  md_pairs :: "(u8 list \<times> u8 list) list"
  md_capacity :: u32

definition hbi_model_metadata_create :: "(nat \<Rightarrow> bool) ptr \<Rightarrow> nat \<Rightarrow> hbi_model_metadata outcome" where
  "hbi_model_metadata_create allocator i =
     (case allocator of
        None \<Rightarrow> Inl HBI_ERR_INVALID_ARG
      | Some ok \<Rightarrow>
          if \<not> ok i then Inl HBI_ERR_OOM
          else if \<not> ok (i + 1) then Inl HBI_ERR_OOM
          else Inr \<lparr>md_pairs = [], md_capacity = HBI_METADATA_INITIAL_CAP\<rparr>)"

text \<open>The loop that overwrites the value of an existing key; \<open>None\<close> when the key is absent.\<close>

fun overwrite :: "(u8 list \<times> u8 list) list \<Rightarrow> u8 list \<Rightarrow> u8 list \<Rightarrow> (u8 list \<times> u8 list) list option" where
  "overwrite [] key value = None"
| "overwrite ((k, v) # ps) key value =
     (if k = key then Some ((k, take (HBI_METADATA_VALUE_MAX - 1) value) # ps)
      else map_option (Cons (k, v)) (overwrite ps key value))"

definition hbi_model_metadata_set ::
  "bool \<Rightarrow> hbi_model_metadata ptr \<Rightarrow> u8 list ptr \<Rightarrow> u8 list ptr \<Rightarrow> (hbi_status \<times> hbi_model_metadata ptr) option" where
  "hbi_model_metadata_set ok metadata key value =
     (case (metadata, key, value) of
        (Some md, Some k, Some v) \<Rightarrow>
          if HBI_METADATA_KEY_MAX \<le> length k then Some (HBI_ERR_INVALID_ARG, metadata)
          else if HBI_METADATA_VALUE_MAX \<le> length v then Some (HBI_ERR_INVALID_ARG, metadata)
          else
            (case overwrite (md_pairs md) k v of
               Some ps \<Rightarrow> Some (HBI_OK, Some (md\<lparr>md_pairs := ps\<rparr>))
             | None \<Rightarrow>
                 let grow = unat (md_capacity md) \<le> length (md_pairs md);
                     md1 = (if grow \<and> ok then md\<lparr>md_capacity := md_capacity md * 2\<rparr> else md) in
                 if grow \<and> \<not> ok then Some (HBI_ERR_OOM, metadata)
                 else if unat (md_capacity md1) \<le> length (md_pairs md1) then None
                 else Some (HBI_OK, Some (md1\<lparr>md_pairs := md_pairs md1 @
                   [(take (HBI_METADATA_KEY_MAX - 1) k, take (HBI_METADATA_VALUE_MAX - 1) v)]\<rparr>)))
      | _ \<Rightarrow> Some (HBI_ERR_INVALID_ARG, metadata))"

definition hbi_model_metadata_get :: "hbi_model_metadata ptr \<Rightarrow> u8 list ptr \<Rightarrow> u8 list ptr" where
  "hbi_model_metadata_get metadata key =
     (case (metadata, key) of (Some md, Some k) \<Rightarrow> map_of (md_pairs md) k | _ \<Rightarrow> None)"

definition hbi_model_metadata_count :: "hbi_model_metadata ptr \<Rightarrow> nat" where
  "hbi_model_metadata_count metadata = (case metadata of None \<Rightarrow> 0 | Some md \<Rightarrow> length (md_pairs md))"

section \<open>Format handlers\<close>

definition HBI_FORMAT_HANDLER_MAX :: nat where "HBI_FORMAT_HANDLER_MAX = 8"

record hbi_format_handler =
  fh_name :: "string ptr"
  fh_format :: hbi_model_format
  fh_detect :: "(string \<Rightarrow> bool) ptr"
  fh_parse_metadata ::
    "(string \<Rightarrow> hbi_model_manifest \<Rightarrow> hbi_model_metadata \<Rightarrow> (hbi_status \<times> hbi_model_manifest \<times> hbi_model_metadata) option) ptr"
  fh_read_tensor_data :: "(string \<Rightarrow> hbi_tensor_entry \<Rightarrow> nat \<Rightarrow> u8 list outcome) ptr"

type_synonym handler_registry = "hbi_format_handler list"

definition hbi_format_handler_register ::
  "handler_registry \<Rightarrow> hbi_format_handler ptr \<Rightarrow> hbi_status \<times> handler_registry" where
  "hbi_format_handler_register reg handler =
     (case handler of
        None \<Rightarrow> (HBI_ERR_INVALID_ARG, reg)
      | Some h \<Rightarrow>
          if fh_name h = None \<or> fh_detect h = None \<or> fh_parse_metadata h = None then (HBI_ERR_INVALID_ARG, reg)
          else if HBI_FORMAT_HANDLER_MAX \<le> length reg then (HBI_ERR_STATE, reg)
          else if list_ex (\<lambda>x. fh_format x = fh_format h) reg then (HBI_ERR_STATE, reg)
          else (HBI_OK, reg @ [h]))"

definition hbi_format_handler_detect :: "handler_registry \<Rightarrow> string ptr \<Rightarrow> hbi_model_format" where
  "hbi_format_handler_detect reg path =
     (case path of
        None \<Rightarrow> HBI_MODEL_FORMAT_UNKNOWN
      | Some p \<Rightarrow>
          (case find (\<lambda>h. (case fh_detect h of None \<Rightarrow> False | Some d \<Rightarrow> d p)) reg of
             None \<Rightarrow> HBI_MODEL_FORMAT_UNKNOWN
           | Some h \<Rightarrow> fh_format h))"

definition hbi_format_handler_find :: "handler_registry \<Rightarrow> hbi_model_format \<Rightarrow> hbi_format_handler ptr" where
  "hbi_format_handler_find reg fmt = find (\<lambda>h. fh_format h = fmt) reg"

definition hbi_format_handler_count :: "handler_registry \<Rightarrow> nat" where
  "hbi_format_handler_count reg = length reg"

definition hbi_format_handler_registry_clear :: handler_registry where
  "hbi_format_handler_registry_clear = []"

section \<open>Loading\<close>

definition HBI_LOAD_EAGER :: u32 where "HBI_LOAD_EAGER = 1"
definition HBI_LOAD_STRICT :: u32 where "HBI_LOAD_STRICT = 2"

record hbi_load_options =
  lo_model_path :: "string ptr"
  lo_format_hint :: hbi_model_format
  lo_flags :: u32

record hbi_load_statistics =
  ld_metadata_parse_time_ns :: u64
  ld_validation_time_ns :: u64
  ld_total_load_time_ns :: u64
  ld_tensors_registered :: nat
  ld_bytes_indexed :: u64
  ld_validation_warnings :: nat
  ld_validation_errors :: nat

datatype hbi_load_state =
    HBI_LOAD_STATE_INIT | HBI_LOAD_STATE_PARSED | HBI_LOAD_STATE_VALIDATED | HBI_LOAD_STATE_COMPLETE | HBI_LOAD_STATE_FAILED

record hbi_load_session =
  ls_manifest :: hbi_model_manifest
  ls_metadata :: hbi_model_metadata
  ls_stats :: hbi_load_statistics
  ls_options :: "hbi_load_options ptr"
  ls_detected_format :: hbi_model_format
  ls_handler :: "hbi_format_handler ptr"
  ls_state :: hbi_load_state

definition load_session_create :: "(nat \<Rightarrow> bool) \<Rightarrow> hbi_load_session outcome" where
  "load_session_create ok =
     (if \<not> ok 0 then Inl HBI_ERR_OOM
      else rbind (hbi_model_manifest_create (Some ok) 1) (\<lambda>man.
        rbind (hbi_model_metadata_create (Some ok) 3) (\<lambda>md.
          Inr \<lparr>ls_manifest = man, ls_metadata = md,
            ls_stats = \<lparr>ld_metadata_parse_time_ns = 0, ld_validation_time_ns = 0, ld_total_load_time_ns = 0,
              ld_tensors_registered = 0, ld_bytes_indexed = 0, ld_validation_warnings = 0, ld_validation_errors = 0\<rparr>,
            ls_options = None, ls_detected_format = HBI_MODEL_FORMAT_UNKNOWN, ls_handler = None,
            ls_state = HBI_LOAD_STATE_INIT\<rparr>)))"

definition hbi_load_session_manifest :: "hbi_load_session ptr \<Rightarrow> hbi_model_manifest ptr" where
  "hbi_load_session_manifest s = map_option ls_manifest s"

definition hbi_load_session_metadata :: "hbi_load_session ptr \<Rightarrow> hbi_model_metadata ptr" where
  "hbi_load_session_metadata s = map_option ls_metadata s"

definition hbi_load_session_statistics :: "hbi_load_session ptr \<Rightarrow> hbi_load_statistics ptr" where
  "hbi_load_session_statistics s = map_option ls_stats s"

definition hbi_load_session_format :: "hbi_load_session ptr \<Rightarrow> hbi_model_format" where
  "hbi_load_session_format s = (case s of None \<Rightarrow> HBI_MODEL_FORMAT_UNKNOWN | Some s \<Rightarrow> ls_detected_format s)"

definition sum_bytes :: "hbi_tensor_entry list \<Rightarrow> u64" where
  "sum_bytes es = foldl (\<lambda>total e. total + te_byte_size e) 0 es"

text \<open>
  Steps 4 to 7 of the pipeline, with the parser of the handler that was found. On an error the
  session is released, so that only the status remains.
\<close>

definition run_pipeline ::
  "(nat \<Rightarrow> u64) \<Rightarrow> (string \<Rightarrow> hbi_model_manifest \<Rightarrow> hbi_model_metadata \<Rightarrow> (hbi_status \<times> hbi_model_manifest \<times> hbi_model_metadata) option) \<Rightarrow>
     hbi_load_options \<Rightarrow> string \<Rightarrow> hbi_load_session \<Rightarrow> hbi_load_session outcome option" where
  "run_pipeline now parse opts path s =
     (case parse path (ls_manifest s) (ls_metadata s) of
        None \<Rightarrow> None
      | Some (st, man, md) \<Rightarrow>
          if st \<noteq> HBI_OK then Some (Inl st)
          else
            let stats1 = (ls_stats s)\<lparr>ld_metadata_parse_time_ns := now 2 - now 1\<rparr>;
                vst = hbi_model_manifest_validate (Some man);
                stats2 = stats1\<lparr>ld_validation_time_ns := now 4 - now 3\<rparr>;
                stats3 = (if vst \<noteq> HBI_OK then stats2\<lparr>ld_validation_errors := ld_validation_errors stats2 + 1\<rparr> else stats2) in
            if vst \<noteq> HBI_OK \<and> lo_flags opts AND HBI_LOAD_STRICT \<noteq> 0 then Some (Inl vst)
            else
              let stats4 = (if vst \<noteq> HBI_OK then stats3\<lparr>ld_validation_warnings := ld_validation_warnings stats3 + 1\<rparr> else stats3) in
              Some (Inr (s\<lparr>ls_manifest := man, ls_metadata := md, ls_state := HBI_LOAD_STATE_COMPLETE,
                ls_stats := stats4\<lparr>ld_tensors_registered := hbi_model_manifest_count (Some man),
                  ld_bytes_indexed := sum_bytes (mf_entries man), ld_total_load_time_ns := now 5 - now 0\<rparr>\<rparr>)))"

definition hbi_model_load ::
  "handler_registry \<Rightarrow> (nat \<Rightarrow> u64) \<Rightarrow> hbi_load_options ptr \<Rightarrow> (nat \<Rightarrow> bool) ptr \<Rightarrow> hbi_load_session outcome option" where
  "hbi_model_load reg now options allocator =
     (case (options, allocator) of
        (Some opts, Some ok) \<Rightarrow>
          (case lo_model_path opts of
             None \<Rightarrow> Some (Inl HBI_ERR_INVALID_ARG)
           | Some path \<Rightarrow>
               if path = [] then Some (Inl HBI_ERR_INVALID_ARG)
               else
                 (case load_session_create ok of
                    Inl e \<Rightarrow> Some (Inl e)
                  | Inr s0 \<Rightarrow>
                      let s1 = s0\<lparr>ls_options := Some opts\<rparr>;
                          fmt = (if lo_format_hint opts = HBI_MODEL_FORMAT_UNKNOWN
                            then hbi_format_handler_detect reg (Some path) else lo_format_hint opts) in
                      if fmt = HBI_MODEL_FORMAT_UNKNOWN then Some (Inl HBI_ERR_UNSUPPORTED)
                      else
                        (case hbi_format_handler_find reg fmt of
                           None \<Rightarrow> Some (Inl HBI_ERR_NOT_FOUND)
                         | Some h \<Rightarrow>
                             (case fh_parse_metadata h of
                                None \<Rightarrow> None
                              | Some parse \<Rightarrow>
                                  run_pipeline now parse opts path (s1\<lparr>ls_detected_format := fmt, ls_handler := Some h\<rparr>)))))
      | _ \<Rightarrow> Some (Inl HBI_ERR_INVALID_ARG))"

section \<open>Tables\<close>

text \<open>A full table below \<open>2\<^sup>3\<^sup>1\<close> entries gets room by doubling.\<close>

lemma doubling_room:
  assumes "unat c = n" and "0 < n" and "n < 2 ^ 31"
  shows "unat (c * 2 :: u32) = 2 * n"
  using assms by (simp add: unat_word_ariths)

definition table_room :: "nat \<Rightarrow> u32 \<Rightarrow> bool" where
  "table_room n cap \<longleftrightarrow> 0 < unat cap \<and> n \<le> unat cap"

lemma table_room_grow: "table_room n cap \<Longrightarrow> n < 2 ^ 31 \<Longrightarrow> unat cap \<le> n \<Longrightarrow> n < unat (cap * 2)"
  using doubling_room [of cap n] by (simp add: table_room_def)

lemma table_room_Suc: "table_room n cap \<Longrightarrow> n < unat cap \<Longrightarrow> table_room (Suc n) cap"
  by (simp add: table_room_def)

section \<open>The manifest keeps its entries apart\<close>

definition entry_ok :: "hbi_tensor_entry \<Rightarrow> bool" where
  "entry_ok e \<longleftrightarrow> te_name e \<noteq> [] \<and> te_byte_size e \<noteq> 0 \<and> te_byte_size e < 0xFFFFFFFFFFFFFFFF \<and> hbi_dtype_is_valid (te_dtype e)"

definition manifest_inv :: "hbi_model_manifest \<Rightarrow> bool" where
  "manifest_inv m \<longleftrightarrow> table_room (length (mf_entries m)) (mf_capacity m) \<and>
     distinct (map te_name (mf_entries m)) \<and> list_all entry_ok (mf_entries m)"

lemma manifest_create_inv: "hbi_model_manifest_create a i = Inr m \<Longrightarrow> manifest_inv m \<and> mf_entries m = []"
  by (auto simp: hbi_model_manifest_create_def manifest_inv_def table_room_def HBI_MANIFEST_INITIAL_CAP_def
      split: option.splits if_splits)

lemma list_ex_name: "list_ex (\<lambda>x. te_name x = n) es \<longleftrightarrow> n \<in> te_name ` set es"
  by (auto simp: list_ex_iff)

lemma manifest_add_cases:
  assumes "hbi_model_manifest_add ok (Some m) (Some e) = Some (st, m')"
  obtains (accepted) m1 where "st = HBI_OK" "m' = Some m1" "mf_entries m1 = mf_entries m @ [e]" "entry_ok e"
      "te_name e \<notin> te_name ` set (mf_entries m)" "length (mf_entries m) < unat (mf_capacity m1)"
    | (rejected) "st \<noteq> HBI_OK" "m' = Some m"
  using assms unfolding hbi_model_manifest_add_def manifest_grow_def Let_def entry_ok_def
  by (auto simp: list_ex_name not_le split: if_splits)

lemma manifest_add_inv:
  assumes "manifest_inv m" and "hbi_model_manifest_add ok (Some m) (Some e) = Some (st, m')"
  shows "\<exists>m1. m' = Some m1 \<and> manifest_inv m1"
  using assms(2)
proof (cases rule: manifest_add_cases)
  case (accepted m1)
  then show ?thesis using assms(1) by (auto simp: manifest_inv_def table_room_def)
qed (use assms(1) in auto)

lemma manifest_add_fresh:
  assumes "manifest_inv m" and "entry_ok e" and "te_name e \<notin> te_name ` set (mf_entries m)" and "length (mf_entries m) < 2 ^ 31"
  shows "\<exists>m1. hbi_model_manifest_add True (Some m) (Some e) = Some (HBI_OK, Some m1) \<and> mf_entries m1 = mf_entries m @ [e]"
proof -
  have "unat (mf_capacity m) \<le> length (mf_entries m) \<Longrightarrow> length (mf_entries m) < unat (mf_capacity m * 2)"
    using table_room_grow assms(1,4) by (auto simp: manifest_inv_def)
  then show ?thesis using assms(2,3)
    by (auto simp: hbi_model_manifest_add_def manifest_grow_def entry_ok_def list_ex_name not_le Let_def)
qed

section \<open>Metadata is a map\<close>

definition metadata_inv :: "hbi_model_metadata \<Rightarrow> bool" where
  "metadata_inv md \<longleftrightarrow> table_room (length (md_pairs md)) (md_capacity md) \<and> distinct (map fst (md_pairs md))"

lemma overwrite_None: "overwrite ps k v = None \<longleftrightarrow> k \<notin> fst ` set ps"
  by (induction ps k v rule: overwrite.induct) auto

lemma overwrite_Some:
  assumes "overwrite ps k v = Some qs" and "length v < HBI_METADATA_VALUE_MAX"
  shows "map fst qs = map fst ps \<and> map_of qs = (map_of ps)(k \<mapsto> v)"
  using assms by (induction ps k v arbitrary: qs rule: overwrite.induct) (fastforce split: if_splits)+

text \<open>What a call with a key and a value answers, and how it changes the map.\<close>

definition set_status :: "bool \<Rightarrow> u8 list \<Rightarrow> u8 list \<Rightarrow> hbi_status \<Rightarrow> bool" where
  "set_status ok k v st \<longleftrightarrow>
     (if HBI_METADATA_KEY_MAX \<le> length k \<or> HBI_METADATA_VALUE_MAX \<le> length v then st = HBI_ERR_INVALID_ARG
      else st = HBI_OK \<or> st = HBI_ERR_OOM \<and> \<not> ok)"

lemma metadata_set_map:
  assumes "metadata_inv md" and "length (md_pairs md) < 2 ^ 31"
  shows "\<exists>st md'. hbi_model_metadata_set ok (Some md) (Some k) (Some v) = Some (st, Some md') \<and> metadata_inv md' \<and>
     length (md_pairs md') \<le> Suc (length (md_pairs md)) \<and> set_status ok k v st \<and>
     map_of (md_pairs md') = (if st = HBI_OK then (map_of (md_pairs md))(k \<mapsto> v) else map_of (md_pairs md))"
proof (cases "HBI_METADATA_KEY_MAX \<le> length k \<or> HBI_METADATA_VALUE_MAX \<le> length v")
  case True
  then show ?thesis using assms(1) by (auto simp: hbi_model_metadata_set_def set_status_def)
next
  case short: False
  show ?thesis
  proof (cases "overwrite (md_pairs md) k v")
    case (Some ps)
    then show ?thesis using short assms(1) overwrite_Some [OF Some] map_eq_imp_length_eq [of fst ps fst "md_pairs md"]
      by (auto simp: hbi_model_metadata_set_def set_status_def metadata_inv_def)
  next
    case None
    then have fresh: "k \<notin> fst ` set (md_pairs md)" by (simp add: overwrite_None)
    have grow: "unat (md_capacity md) \<le> length (md_pairs md) \<Longrightarrow> length (md_pairs md) < unat (md_capacity md * 2)"
      using table_room_grow assms by (auto simp: metadata_inv_def)
    have key: "take (HBI_METADATA_KEY_MAX - 1) k = k" "take (HBI_METADATA_VALUE_MAX - 1) v = v" using short by auto
    have upd: "map_of (md_pairs md @ [(k, v)]) = (map_of (md_pairs md))(k \<mapsto> v)"
      using fresh map_of_eq_None_iff [of "md_pairs md" k] by (auto simp: map_add_def fun_eq_iff split: option.splits)
    show ?thesis
      using short None fresh grow key assms(1) upd
      by (auto simp: hbi_model_metadata_set_def set_status_def metadata_inv_def table_room_def Let_def not_le)
  qed
qed

fun metadata_run ::
  "(bool \<times> u8 list \<times> u8 list) list \<Rightarrow> hbi_model_metadata \<Rightarrow> (hbi_status list \<times> hbi_model_metadata) option" where
  "metadata_run [] md = Some ([], md)"
| "metadata_run ((ok, k, v) # ops) md =
     (case hbi_model_metadata_set ok (Some md) (Some k) (Some v) of
        Some (st, Some md') \<Rightarrow> map_option (\<lambda>(sts, md''). (st # sts, md'')) (metadata_run ops md')
      | _ \<Rightarrow> None)"

text \<open>The abstract counterpart: a partial map that the accepted calls update.\<close>

fun map_run :: "(bool \<times> u8 list \<times> u8 list) list \<Rightarrow> hbi_status list \<Rightarrow> (u8 list \<rightharpoonup> u8 list) \<Rightarrow> u8 list \<rightharpoonup> u8 list" where
  "map_run ((ok, k, v) # ops) (st # sts) m = map_run ops sts (if st = HBI_OK then m(k \<mapsto> v) else m)"
| "map_run _ _ m = m"

lemma metadata_run_map:
  assumes "metadata_inv md" and "length (md_pairs md) + length ops \<le> 2 ^ 31"
  shows "\<exists>sts md'. metadata_run ops md = Some (sts, md') \<and> metadata_inv md' \<and> length (md_pairs md') \<le> length (md_pairs md) + length ops \<and>
     list_all2 (\<lambda>(ok, k, v) st. set_status ok k v st) ops sts \<and> map_of (md_pairs md') = map_run ops sts (map_of (md_pairs md))"
  using assms
proof (induction ops arbitrary: md)
  case Nil
  then show ?case by simp
next
  case (Cons op ops)
  obtain ok k v where op: "op = (ok, k, v)" by (cases op)
  have "length (md_pairs md) < 2 ^ 31" using Cons.prems(2) by simp
  then obtain st md1 where s: "hbi_model_metadata_set ok (Some md) (Some k) (Some v) = Some (st, Some md1)" "metadata_inv md1"
    "length (md_pairs md1) \<le> Suc (length (md_pairs md))" "set_status ok k v st"
    "map_of (md_pairs md1) = (if st = HBI_OK then (map_of (md_pairs md))(k \<mapsto> v) else map_of (md_pairs md))"
    using metadata_set_map [OF Cons.prems(1)] by blast
  have "length (md_pairs md1) + length ops \<le> 2 ^ 31" using s(3) Cons.prems(2) by simp
  from Cons.IH [OF s(2) this] show ?case using op s by (force simp del: map_upd_Some_unfold)
qed

text \<open>
  The metadata table is a map from keys to values: for every sequence of up to \<open>2\<^sup>3\<^sup>1\<close> calls of
  \<open>hbi_model_metadata_set\<close> on a fresh table no call goes wrong, a call is refused as invalid exactly
  when its key or value is too long, it fails for memory only when the allocation fails, and
  afterwards \<open>hbi_model_metadata_get\<close> returns for every key the value of the last accepted call with
  it, in full, with the count equal to the number of keys.\<close>

lemma metadata_refines:
  assumes "hbi_model_metadata_create a i = Inr md" and "length ops \<le> 2 ^ 31"
  shows "\<exists>sts md'. metadata_run ops md = Some (sts, md') \<and>
     list_all2 (\<lambda>(ok, k, v) st. set_status ok k v st) ops sts \<and>
     (\<forall>k. hbi_model_metadata_get (Some md') (Some k) = map_run ops sts Map.empty k) \<and>
     hbi_model_metadata_count (Some md') = card (dom (map_run ops sts Map.empty))"
proof -
  have "metadata_inv md" "md_pairs md = []"
    using assms(1) by (auto simp: hbi_model_metadata_create_def metadata_inv_def table_room_def HBI_METADATA_INITIAL_CAP_def
        split: option.splits if_splits)
  then obtain sts md' where R: "metadata_run ops md = Some (sts, md')" "metadata_inv md'"
    "list_all2 (\<lambda>(ok, k, v) st. set_status ok k v st) ops sts" "map_of (md_pairs md') = map_run ops sts Map.empty"
    using metadata_run_map [of md ops] assms(2) by auto
  have "card (dom (map_run ops sts Map.empty)) = length (md_pairs md')"
    using R(2) by (simp add: R(4) [symmetric] dom_map_of_conv_image_fst metadata_inv_def distinct_card flip: set_map)
  then show ?thesis using R by (auto simp: hbi_model_metadata_get_def hbi_model_metadata_count_def)
qed

section \<open>The registry contract\<close>

interpretation fmtr: keyed_registry "\<lambda>r. r" "\<lambda>r k. hbi_format_handler_register r (Some k)" fh_format HBI_FORMAT_HANDLER_MAX
  by unfold_locales (auto simp: hbi_format_handler_register_def list_ex_iff split: if_splits)

section \<open>What a load promises\<close>

text \<open>
  The contract between the pipeline and a format parser: the parser changes the manifest only in
  ways that keep its invariant, and every entry it leaves there is \<open>good\<close> for the file. The pipeline
  then hands out sessions whose manifest has both properties.
\<close>

locale format_parser =
  fixes parse :: "string \<Rightarrow> hbi_model_manifest \<Rightarrow> hbi_model_metadata \<Rightarrow> (hbi_status \<times> hbi_model_manifest \<times> hbi_model_metadata) option"
    and good :: "string \<Rightarrow> hbi_tensor_entry \<Rightarrow> bool"
  assumes parse_inv: "manifest_inv m \<Longrightarrow> parse path m md = Some (HBI_OK, m', md') \<Longrightarrow> manifest_inv m'"
    and parse_good: "manifest_inv m \<Longrightarrow> list_all (good path) (mf_entries m) \<Longrightarrow> parse path m md = Some (HBI_OK, m', md') \<Longrightarrow> list_all (good path) (mf_entries m')"
begin

lemma pipeline_good:
  assumes "run_pipeline now parse opts path s0 = Some (Inr s)" and "manifest_inv (ls_manifest s0)" and "mf_entries (ls_manifest s0) = []"
  shows "manifest_inv (ls_manifest s) \<and> list_all (good path) (mf_entries (ls_manifest s)) \<and> ls_state s = HBI_LOAD_STATE_COMPLETE \<and>
     ld_tensors_registered (ls_stats s) = length (mf_entries (ls_manifest s)) \<and>
     ld_bytes_indexed (ls_stats s) = sum_bytes (mf_entries (ls_manifest s)) \<and>
     (lo_flags opts AND HBI_LOAD_STRICT \<noteq> 0 \<longrightarrow> hbi_model_manifest_validate (Some (ls_manifest s)) = HBI_OK)"
proof -
  from assms(1) obtain man md where p: "parse path (ls_manifest s0) (ls_metadata s0) = Some (HBI_OK, man, md)" "ls_manifest s = man"
    "ls_state s = HBI_LOAD_STATE_COMPLETE" "ld_tensors_registered (ls_stats s) = length (mf_entries man)"
    "ld_bytes_indexed (ls_stats s) = sum_bytes (mf_entries man)"
    "lo_flags opts AND HBI_LOAD_STRICT \<noteq> 0 \<longrightarrow> hbi_model_manifest_validate (Some man) = HBI_OK"
    unfolding run_pipeline_def Let_def
    by (auto simp: hbi_model_manifest_count_def split: option.splits prod.splits if_splits)
  then show ?thesis using parse_inv [OF assms(2) p(1)] parse_good [OF assms(2) _ p(1)] assms(3) by simp
qed

lemma load_good:
  assumes "hbi_model_load reg now (Some opts) a = Some (Inr s)" and "lo_model_path opts = Some path"
    and "ls_handler s = Some h" and "fh_parse_metadata h = Some parse"
  shows "manifest_inv (ls_manifest s) \<and> list_all (good path) (mf_entries (ls_manifest s)) \<and> ls_state s = HBI_LOAD_STATE_COMPLETE \<and>
     ld_tensors_registered (ls_stats s) = length (mf_entries (ls_manifest s)) \<and>
     ld_bytes_indexed (ls_stats s) = sum_bytes (mf_entries (ls_manifest s)) \<and>
     (lo_flags opts AND HBI_LOAD_STRICT \<noteq> 0 \<longrightarrow> hbi_model_manifest_validate (Some (ls_manifest s)) = HBI_OK)"
proof -
  have handler: "run_pipeline now q opts path s0 = Some (Inr s) \<Longrightarrow> ls_handler s = ls_handler s0" for q s0
    unfolding run_pipeline_def Let_def by (auto split: option.splits prod.splits if_splits)
  from assms(1,2) obtain ok s0 h' q fmt where L: "load_session_create ok = Inr s0" "fh_parse_metadata h' = Some q"
    "run_pipeline now q opts path (s0\<lparr>ls_options := Some opts, ls_detected_format := fmt, ls_handler := Some h'\<rparr>) = Some (Inr s)"
    unfolding hbi_model_load_def Let_def by (auto split: option.splits sum.splits if_splits)
  have "h' = h" using handler [OF L(3)] assms(3) by simp
  then have "q = parse" using L(2) assms(4) by simp
  moreover have "manifest_inv (ls_manifest s0)" "mf_entries (ls_manifest s0) = []"
    using L(1) manifest_create_inv by (auto simp: load_session_create_def res_simps split: if_splits)
  ultimately show ?thesis using pipeline_good [OF L(3) [unfolded \<open>q = parse\<close>]] by simp
qed

end

lemma manifest_find_entry:
  assumes "manifest_inv m" and "e \<in> set (mf_entries m)"
  shows "hbi_model_manifest_find (Some m) (Some (te_name e)) = Some e"
proof -
  have "distinct (map te_name es) \<Longrightarrow> e \<in> set es \<Longrightarrow> find (\<lambda>x. te_name x = te_name e) es = Some e" for es
    by (induction es) auto
  then show ?thesis using assms by (simp add: hbi_model_manifest_find_def manifest_inv_def)
qed

lemma validate_loop_OK: "validate_loop es = HBI_OK \<longleftrightarrow> list_all (\<lambda>e. validate_entry e = HBI_OK) es"
  by (induction es) (auto simp: Let_def)

lemma validate_entry_OK:
  assumes "validate_entry e = HBI_OK"
  shows "\<exists>count n. hbi_shape_elem_count (Some (te_shape e)) = Inr count \<and>
    hbi_dtype_packed_nbytes (te_dtype e) count = Inr n \<and> n \<le> unat (te_byte_size e)"
  using assms by (auto simp: validate_entry_def not_less split: if_splits sum.splits)

end
