(* ===== verification/Json.thy ===== *)
theory Json
  imports Complex_Main Common
begin

text \<open>
  The recursive-descent JSON parser and the accessors of its values (\<open>src/src/json/json.c\<close>).

  \<^item> Bytes are \<open>u8\<close>, with their ASCII codes as literals. The cursor of the parser is the rest of
    the input from the current offset: \<open>at_end\<close> is the empty rest, and a test of \<open>pos + k\<close> against
    the length is a test of the length of the rest.
  \<^item> The type \<open>'d\<close> of the values of \<open>double\<close> is a parameter. The syntax that \<open>strtod\<close> accepts on
    the scanned characters is modelled (\<open>strtod_len\<close>); the number it denotes is a parameter
    \<open>to_double\<close>, and \<open>value_of\<close> gives the exact value of a double that is neither infinite nor NaN.
  \<^item> \<open>ok\<close> says for each allocation, in the order they are made, whether it succeeds. Releasing
    memory is not represented.
  \<^item> The recursion has fuel. A result \<open>None\<close> means that the fuel ran out or that a string left its
    buffer; that neither happens is a theorem.
\<close>

unbundle bit_operations_syntax

section \<open>Data\<close>

datatype 'd hbi_json_value =
    HBI_JSON_NULL
  | HBI_JSON_BOOL bool
  | HBI_JSON_NUMBER 'd
  | HBI_JSON_STRING "u8 list"
  | HBI_JSON_ARRAY "'d hbi_json_value list"
  | HBI_JSON_OBJECT "(u8 list \<times> 'd hbi_json_value) list"

record hbi_json_parser =
  js_rest :: "u8 list"
  js_depth :: nat
  js_allocs :: nat

definition HBI_JSON_MAX_DEPTH :: nat where "HBI_JSON_MAX_DEPTH = 128"
definition HBI_JSON_MAX_BYTES :: nat where "HBI_JSON_MAX_BYTES = 512 * 1024 * 1024"

section \<open>Cursor\<close>

definition jalloc :: "(nat \<Rightarrow> bool) \<Rightarrow> hbi_json_parser \<Rightarrow> bool \<times> hbi_json_parser" where
  "jalloc ok p = (ok (js_allocs p), p\<lparr>js_allocs := js_allocs p + 1\<rparr>)"

definition at_end :: "hbi_json_parser \<Rightarrow> bool" where
  "at_end p \<longleftrightarrow> js_rest p = []"

definition peek :: "hbi_json_parser \<Rightarrow> u8" where
  "peek p = (if at_end p then 0 else hd (js_rest p))"

definition advance :: "nat \<Rightarrow> hbi_json_parser \<Rightarrow> hbi_json_parser" where
  "advance n p = p\<lparr>js_rest := drop n (js_rest p)\<rparr>"

definition is_ws :: "u8 \<Rightarrow> bool" where
  "is_ws c \<longleftrightarrow> c = 0x20 \<or> c = 0x09 \<or> c = 0x0A \<or> c = 0x0D"

definition skip_ws :: "hbi_json_parser \<Rightarrow> hbi_json_parser" where
  "skip_ws p = p\<lparr>js_rest := dropWhile is_ws (js_rest p)\<rparr>"

section \<open>Strings\<close>

definition utf8_emit :: "u32 \<Rightarrow> u8 list" where
  "utf8_emit cp =
     (if cp \<le> 0x7F then [ucast cp]
      else if cp \<le> 0x7FF then [ucast (0xC0 OR drop_bit 6 cp), ucast (0x80 OR (cp AND 0x3F))]
      else if cp \<le> 0xFFFF then
        [ucast (0xE0 OR drop_bit 12 cp), ucast (0x80 OR (drop_bit 6 cp AND 0x3F)), ucast (0x80 OR (cp AND 0x3F))]
      else
        [ucast (0xF0 OR drop_bit 18 cp), ucast (0x80 OR (drop_bit 12 cp AND 0x3F)),
         ucast (0x80 OR (drop_bit 6 cp AND 0x3F)), ucast (0x80 OR (cp AND 0x3F))])"

definition hex_digit :: "u8 \<Rightarrow> u32 option" where
  "hex_digit c =
     (if 0x30 \<le> c \<and> c \<le> 0x39 then Some (ucast (c - 0x30))
      else if 0x61 \<le> c \<and> c \<le> 0x66 then Some (ucast (c - 0x61 + 10))
      else if 0x41 \<le> c \<and> c \<le> 0x46 then Some (ucast (c - 0x41 + 10))
      else None)"

fun hex_loop :: "u8 list \<Rightarrow> u32 \<Rightarrow> u32 option" where
  "hex_loop [] v = Some v"
| "hex_loop (c # cs) v = (case hex_digit c of None \<Rightarrow> None | Some d \<Rightarrow> hex_loop cs (push_bit 4 v OR d))"

definition parse_hex4 :: "u8 list \<Rightarrow> (u32 \<times> u8 list) option" where
  "parse_hex4 r =
     (if length r < 4 then None
      else case hex_loop (take 4 r) 0 of None \<Rightarrow> None | Some v \<Rightarrow> Some (v, drop 4 r))"

text \<open>The code point of a \<open>\u\<close> escape, from the byte after the \<open>u\<close>, surrogate pairs included.\<close>

definition parse_unicode :: "u8 list \<Rightarrow> (u32 \<times> u8 list) option" where
  "parse_unicode r =
     (case parse_hex4 r of
        None \<Rightarrow> None
      | Some (cp, r1) \<Rightarrow>
          if cp \<ge> 0xD800 \<and> cp \<le> 0xDBFF then
            (if 2 \<le> length r1 \<and> r1 ! 0 = 0x5C \<and> r1 ! 1 = 0x75 then
               (case parse_hex4 (drop 2 r1) of
                  None \<Rightarrow> None
                | Some (lo, r2) \<Rightarrow>
                    if lo < 0xDC00 \<or> lo > 0xDFFF then None
                    else Some (0x10000 + (push_bit 10 (cp - 0xD800) OR (lo - 0xDC00)), r2))
             else None)
          else if cp \<ge> 0xDC00 \<and> cp \<le> 0xDFFF then None
          else Some (cp, r1))"

definition simple_escape :: "u8 \<Rightarrow> u8 option" where
  "simple_escape e =
     (if e = 0x22 then Some 0x22 else if e = 0x5C then Some 0x5C else if e = 0x2F then Some 0x2F
      else if e = 0x62 then Some 0x08 else if e = 0x66 then Some 0x0C else if e = 0x6E then Some 0x0A
      else if e = 0x72 then Some 0x0D else if e = 0x74 then Some 0x09 else None)"

text \<open>Writing bytes to a buffer of \<open>cap\<close> bytes; \<open>None\<close> is a write past its end.\<close>

definition emit :: "nat \<Rightarrow> u8 list \<Rightarrow> u8 list \<Rightarrow> u8 list option" where
  "emit cap acc bs = (if length acc + length bs \<le> cap then Some (acc @ bs) else None)"

lemma parse_hex4_length: "parse_hex4 r = Some (v, r') \<Longrightarrow> length r = length r' + 4"
  by (auto simp: parse_hex4_def split: if_splits option.splits)

lemma parse_unicode_length: "parse_unicode r = Some (cp, r') \<Longrightarrow> length r' + 4 \<le> length r"
  by (auto simp: parse_unicode_def split: if_splits option.splits prod.splits dest!: parse_hex4_length)

function string_loop :: "nat \<Rightarrow> u8 list \<Rightarrow> u8 list \<Rightarrow> (u8 list outcome \<times> u8 list) option" where
  "string_loop cap acc r =
     (case r of
        [] \<Rightarrow> Some (Inl HBI_ERR_CORRUPT, [])
      | c # r1 \<Rightarrow>
          if c = 0x22 then (case emit cap acc [0] of None \<Rightarrow> None | Some _ \<Rightarrow> Some (Inr acc, r1))
          else if c = 0x5C then
            (case r1 of
               [] \<Rightarrow> Some (Inl HBI_ERR_CORRUPT, [])
             | e # r2 \<Rightarrow>
                 if e = 0x75 then
                   (case parse_unicode r2 of
                      None \<Rightarrow> Some (Inl HBI_ERR_CORRUPT, r2)
                    | Some (cp, r3) \<Rightarrow>
                        (case emit cap acc (utf8_emit cp) of None \<Rightarrow> None | Some acc' \<Rightarrow> string_loop cap acc' r3))
                 else
                   (case simple_escape e of
                      None \<Rightarrow> Some (Inl HBI_ERR_CORRUPT, r2)
                    | Some b \<Rightarrow> (case emit cap acc [b] of None \<Rightarrow> None | Some acc' \<Rightarrow> string_loop cap acc' r2)))
          else if c < 0x20 then Some (Inl HBI_ERR_CORRUPT, r1)
          else (case emit cap acc [c] of None \<Rightarrow> None | Some acc' \<Rightarrow> string_loop cap acc' r1))"
  by pat_completeness auto
termination
  by (relation "measure (\<lambda>(cap, acc, r). length r)") (auto dest!: parse_unicode_length)

declare string_loop.simps [simp del]

definition parse_string_raw ::
  "(nat \<Rightarrow> bool) \<Rightarrow> hbi_json_parser \<Rightarrow> (u8 list outcome \<times> hbi_json_parser) option" where
  "parse_string_raw ok p =
     (if peek p \<noteq> 0x22 then Some (Inl HBI_ERR_CORRUPT, p)
      else
        let p1 = advance 1 p; cap = length (js_rest p1) + 1; (got, p2) = jalloc ok p1 in
        if \<not> got then Some (Inl HBI_ERR_OOM, p2)
        else map_option (\<lambda>(res, r). (res, p2\<lparr>js_rest := r\<rparr>)) (string_loop cap [] (js_rest p2)))"

section \<open>Numbers and literals\<close>

definition is_number_char :: "u8 \<Rightarrow> bool" where
  "is_number_char c \<longleftrightarrow> 0x30 \<le> c \<and> c \<le> 0x39 \<or> c = 0x2D \<or> c = 0x2B \<or> c = 0x2E \<or> c = 0x65 \<or> c = 0x45"

definition is_digit :: "u8 \<Rightarrow> bool" where
  "is_digit c \<longleftrightarrow> 0x30 \<le> c \<and> c \<le> 0x39"

text \<open>
  The length of the prefix that \<open>strtod\<close> converts in a string of number characters: an optional
  sign, digits with at most one point among or next to them, and an optional exponent that counts
  only when it has a digit.
\<close>

definition sign_len :: "u8 list \<Rightarrow> nat" where
  "sign_len s = (if s \<noteq> [] \<and> (hd s = 0x2B \<or> hd s = 0x2D) then 1 else 0)"

definition exponent_len :: "u8 list \<Rightarrow> nat" where
  "exponent_len s =
     (if s \<noteq> [] \<and> (hd s = 0x65 \<or> hd s = 0x45) then
        (let s1 = tl s; k = sign_len s1; d = length (takeWhile is_digit (drop k s1)) in
         if d = 0 then 0 else 1 + k + d)
      else 0)"

definition strtod_len :: "u8 list \<Rightarrow> nat" where
  "strtod_len s =
     (let k = sign_len s; s1 = drop k s;
          i = length (takeWhile is_digit s1); s2 = drop i s1;
          pt = (if s2 \<noteq> [] \<and> hd s2 = 0x2E then 1 else 0);
          f = (if pt = 1 then length (takeWhile is_digit (drop 1 s2)) else 0) in
      if i + f = 0 then 0
      else k + i + pt + f + exponent_len (drop (pt + f) s2))"

definition parse_number ::
  "(u8 list \<Rightarrow> 'd) \<Rightarrow> (nat \<Rightarrow> bool) \<Rightarrow> hbi_json_parser \<Rightarrow> 'd hbi_json_value outcome \<times> hbi_json_parser" where
  "parse_number to_double ok p =
     (let tmp = takeWhile is_number_char (js_rest p); n = length tmp; p1 = advance n p in
      if n = 0 then (Inl HBI_ERR_CORRUPT, p1)
      else if 64 \<le> n then (Inl HBI_ERR_CORRUPT, p1)
      else if strtod_len tmp \<noteq> n then (Inl HBI_ERR_CORRUPT, p)
      else
        let (got, p2) = jalloc ok p1 in
        if \<not> got then (Inl HBI_ERR_OOM, p2) else (Inr (HBI_JSON_NUMBER (to_double tmp)), p2))"

definition parse_literal ::
  "(nat \<Rightarrow> bool) \<Rightarrow> hbi_json_parser \<Rightarrow> u8 list \<Rightarrow> 'd hbi_json_value \<Rightarrow> 'd hbi_json_value outcome \<times> hbi_json_parser" where
  "parse_literal ok p lit v =
     (let n = length lit in
      if length (js_rest p) < n \<or> take n (js_rest p) \<noteq> lit then (Inl HBI_ERR_CORRUPT, p)
      else
        let (got, p1) = jalloc ok (advance n p) in
        if \<not> got then (Inl HBI_ERR_OOM, p1) else (Inr v, p1))"

section \<open>Values\<close>

text \<open>
  What \<open>parse_array\<close> and \<open>parse_object\<close> do before their loops: \<open>close\<close> is the closing bracket and
  \<open>nil\<close> the empty value.
\<close>

definition parse_container ::
  "(nat \<Rightarrow> bool) \<Rightarrow> u8 \<Rightarrow> 'd hbi_json_value \<Rightarrow> (hbi_json_parser \<Rightarrow> ('d hbi_json_value outcome \<times> hbi_json_parser) option) \<Rightarrow>
     hbi_json_parser \<Rightarrow> ('d hbi_json_value outcome \<times> hbi_json_parser) option" where
  "parse_container ok close nil loop p =
     (let (got, p1) = jalloc ok (advance 1 p) in
      if \<not> got then Some (Inl HBI_ERR_OOM, p1)
      else
        let p2 = skip_ws p1 in
        if peek p2 = close then Some (Inr nil, advance 1 p2)
        else
          let (got2, p3) = jalloc ok p2 in
          if \<not> got2 then Some (Inl HBI_ERR_OOM, p3) else loop p3)"

text \<open>
  The element loop of an array and the member loop of an object grow their table when the number of
  entries reaches the capacity \<open>cap\<close>, which starts at 8 and doubles.
\<close>

fun parse_value ::
  "(u8 list \<Rightarrow> 'd) \<Rightarrow> (nat \<Rightarrow> bool) \<Rightarrow> nat \<Rightarrow> hbi_json_parser \<Rightarrow> ('d hbi_json_value outcome \<times> hbi_json_parser) option"
and array_loop ::
  "(u8 list \<Rightarrow> 'd) \<Rightarrow> (nat \<Rightarrow> bool) \<Rightarrow> nat \<Rightarrow> nat \<Rightarrow> 'd hbi_json_value list \<Rightarrow> hbi_json_parser \<Rightarrow>
     ('d hbi_json_value outcome \<times> hbi_json_parser) option"
and object_loop ::
  "(u8 list \<Rightarrow> 'd) \<Rightarrow> (nat \<Rightarrow> bool) \<Rightarrow> nat \<Rightarrow> nat \<Rightarrow> (u8 list \<times> 'd hbi_json_value) list \<Rightarrow> hbi_json_parser \<Rightarrow>
     ('d hbi_json_value outcome \<times> hbi_json_parser) option" where
  "parse_value to_double ok 0 p = None"
| "parse_value to_double ok (Suc n) p =
     (if HBI_JSON_MAX_DEPTH \<le> js_depth p then Some (Inl HBI_ERR_CORRUPT, p)
      else
        let p1 = skip_ws p in
        if at_end p1 then Some (Inl HBI_ERR_CORRUPT, p1)
        else
          let c = peek p1 in
          if c = 0x7B then
            map_option (map_prod id (\<lambda>q. q\<lparr>js_depth := js_depth q - 1\<rparr>))
              (parse_container ok 0x7D (HBI_JSON_OBJECT []) (object_loop to_double ok n 8 []) (p1\<lparr>js_depth := js_depth p1 + 1\<rparr>))
          else if c = 0x5B then
            map_option (map_prod id (\<lambda>q. q\<lparr>js_depth := js_depth q - 1\<rparr>))
              (parse_container ok 0x5D (HBI_JSON_ARRAY []) (array_loop to_double ok n 8 []) (p1\<lparr>js_depth := js_depth p1 + 1\<rparr>))
          else if c = 0x22 then
            (case parse_string_raw ok p1 of
               None \<Rightarrow> None
             | Some (Inl e, p2) \<Rightarrow> Some (Inl e, p2)
             | Some (Inr s, p2) \<Rightarrow>
                 (let (got, p3) = jalloc ok p2 in
                  Some (if \<not> got then Inl HBI_ERR_OOM else Inr (HBI_JSON_STRING s), p3)))
          else if c = 0x74 then Some (parse_literal ok p1 [0x74, 0x72, 0x75, 0x65] (HBI_JSON_BOOL True))
          else if c = 0x66 then Some (parse_literal ok p1 [0x66, 0x61, 0x6C, 0x73, 0x65] (HBI_JSON_BOOL False))
          else if c = 0x6E then Some (parse_literal ok p1 [0x6E, 0x75, 0x6C, 0x6C] HBI_JSON_NULL)
          else if c = 0x2D \<or> 0x30 \<le> c \<and> c \<le> 0x39 then Some (parse_number to_double ok p1)
          else Some (Inl HBI_ERR_CORRUPT, p1))"
| "array_loop to_double ok 0 cap items p = None"
| "array_loop to_double ok (Suc n) cap items p =
     (case parse_value to_double ok n p of
        None \<Rightarrow> None
      | Some (Inl e, p1) \<Rightarrow> Some (Inl e, p1)
      | Some (Inr v, p1) \<Rightarrow>
          (let (got, p2) = (if length items = cap then jalloc ok p1 else (True, p1));
               cap' = (if length items = cap then cap * 2 else cap) in
           if \<not> got then Some (Inl HBI_ERR_OOM, p2)
           else
             let p3 = skip_ws p2; c = peek p3 in
             if c = 0x2C then array_loop to_double ok n cap' (items @ [v]) (skip_ws (advance 1 p3))
             else if c = 0x5D then Some (Inr (HBI_JSON_ARRAY (items @ [v])), advance 1 p3)
             else Some (Inl HBI_ERR_CORRUPT, p3)))"
| "object_loop to_double ok 0 cap members p = None"
| "object_loop to_double ok (Suc n) cap members p =
     (case parse_string_raw ok (skip_ws p) of
        None \<Rightarrow> None
      | Some (Inl e, p1) \<Rightarrow> Some (Inl e, p1)
      | Some (Inr key, p1) \<Rightarrow>
          (let p2 = skip_ws p1 in
           if peek p2 \<noteq> 0x3A then Some (Inl HBI_ERR_CORRUPT, p2)
           else
             (case parse_value to_double ok n (skip_ws (advance 1 p2)) of
                None \<Rightarrow> None
              | Some (Inl e, p3) \<Rightarrow> Some (Inl e, p3)
              | Some (Inr v, p3) \<Rightarrow>
                  (let (got, p4) = (if length members = cap then jalloc ok p3 else (True, p3));
                       cap' = (if length members = cap then cap * 2 else cap) in
                   if \<not> got then Some (Inl HBI_ERR_OOM, p4)
                   else
                     let p5 = skip_ws p4; c = peek p5 in
                     if c = 0x2C then object_loop to_double ok n cap' (members @ [(key, v)]) (advance 1 p5)
                     else if c = 0x7D then Some (Inr (HBI_JSON_OBJECT (members @ [(key, v)])), advance 1 p5)
                     else Some (Inl HBI_ERR_CORRUPT, p5)))))"

definition hbi_json_parse ::
  "(u8 list \<Rightarrow> 'd) \<Rightarrow> (nat \<Rightarrow> bool) \<Rightarrow> u8 list ptr \<Rightarrow> 'd hbi_json_value outcome option" where
  "hbi_json_parse to_double ok txt =
     (case txt of
        None \<Rightarrow> Some (Inl HBI_ERR_INVALID_ARG)
      | Some bs \<Rightarrow>
          if length bs = 0 then Some (Inl HBI_ERR_INVALID_ARG)
          else if HBI_JSON_MAX_BYTES < length bs then Some (Inl HBI_ERR_UNSUPPORTED)
          else
            (case parse_value to_double ok (2 * length bs + 2) \<lparr>js_rest = bs, js_depth = 0, js_allocs = 0\<rparr> of
               None \<Rightarrow> None
             | Some (Inl e, p) \<Rightarrow> Some (Inl e)
             | Some (Inr v, p) \<Rightarrow>
                 Some (if \<not> at_end (skip_ws p) then Inl HBI_ERR_CORRUPT else Inr v)))"

section \<open>Accessors\<close>

text \<open>A stored string is read as a C string: up to its first NUL.\<close>

definition c_str :: "u8 list \<Rightarrow> u8 list" where
  "c_str s = takeWhile (\<lambda>b. b \<noteq> 0) s"

text \<open>The kind of a value by its number in \<open>hbi_json_kind\<close>.\<close>

fun hbi_json_kind_of :: "'d hbi_json_value ptr \<Rightarrow> nat" where
  "hbi_json_kind_of None = 0"
| "hbi_json_kind_of (Some HBI_JSON_NULL) = 0"
| "hbi_json_kind_of (Some (HBI_JSON_BOOL _)) = 1"
| "hbi_json_kind_of (Some (HBI_JSON_NUMBER _)) = 2"
| "hbi_json_kind_of (Some (HBI_JSON_STRING _)) = 3"
| "hbi_json_kind_of (Some (HBI_JSON_ARRAY _)) = 4"
| "hbi_json_kind_of (Some (HBI_JSON_OBJECT _)) = 5"

definition hbi_json_is_object :: "'d hbi_json_value ptr \<Rightarrow> bool" where
  "hbi_json_is_object v = (case v of Some (HBI_JSON_OBJECT _) \<Rightarrow> True | _ \<Rightarrow> False)"

definition hbi_json_is_array :: "'d hbi_json_value ptr \<Rightarrow> bool" where
  "hbi_json_is_array v = (case v of Some (HBI_JSON_ARRAY _) \<Rightarrow> True | _ \<Rightarrow> False)"

definition hbi_json_is_string :: "'d hbi_json_value ptr \<Rightarrow> bool" where
  "hbi_json_is_string v = (case v of Some (HBI_JSON_STRING _) \<Rightarrow> True | _ \<Rightarrow> False)"

definition hbi_json_is_number :: "'d hbi_json_value ptr \<Rightarrow> bool" where
  "hbi_json_is_number v = (case v of Some (HBI_JSON_NUMBER _) \<Rightarrow> True | _ \<Rightarrow> False)"

definition hbi_json_is_bool :: "'d hbi_json_value ptr \<Rightarrow> bool" where
  "hbi_json_is_bool v = (case v of Some (HBI_JSON_BOOL _) \<Rightarrow> True | _ \<Rightarrow> False)"

fun member_scan :: "(u8 list \<times> 'd hbi_json_value) list \<Rightarrow> u8 list \<Rightarrow> 'd hbi_json_value ptr" where
  "member_scan [] key = None"
| "member_scan ((k, v) # ms) key = (if c_str k = key then Some v else member_scan ms key)"

definition hbi_json_object_get :: "'d hbi_json_value ptr \<Rightarrow> u8 list ptr \<Rightarrow> 'd hbi_json_value ptr" where
  "hbi_json_object_get v key =
     (case (v, key) of (Some (HBI_JSON_OBJECT ms), Some k) \<Rightarrow> member_scan ms k | _ \<Rightarrow> None)"

definition hbi_json_object_count :: "'d hbi_json_value ptr \<Rightarrow> nat" where
  "hbi_json_object_count v = (case v of Some (HBI_JSON_OBJECT ms) \<Rightarrow> length ms | _ \<Rightarrow> 0)"

definition hbi_json_object_member_at :: "'d hbi_json_value ptr \<Rightarrow> nat \<Rightarrow> (u8 list \<times> 'd hbi_json_value) option" where
  "hbi_json_object_member_at v i =
     (case v of
        Some (HBI_JSON_OBJECT ms) \<Rightarrow> if length ms \<le> i then None else Some (c_str (fst (ms ! i)), snd (ms ! i))
      | _ \<Rightarrow> None)"

definition hbi_json_array_count :: "'d hbi_json_value ptr \<Rightarrow> nat" where
  "hbi_json_array_count v = (case v of Some (HBI_JSON_ARRAY xs) \<Rightarrow> length xs | _ \<Rightarrow> 0)"

definition hbi_json_array_at :: "'d hbi_json_value ptr \<Rightarrow> nat \<Rightarrow> 'd hbi_json_value ptr" where
  "hbi_json_array_at v i =
     (case v of Some (HBI_JSON_ARRAY xs) \<Rightarrow> if length xs \<le> i then None else Some (xs ! i) | _ \<Rightarrow> None)"

definition hbi_json_as_string :: "'d hbi_json_value ptr \<Rightarrow> u8 list ptr" where
  "hbi_json_as_string v = (case v of Some (HBI_JSON_STRING s) \<Rightarrow> Some (c_str s) | _ \<Rightarrow> None)"

definition hbi_json_as_number :: "'d \<Rightarrow> 'd hbi_json_value ptr \<Rightarrow> 'd" where
  "hbi_json_as_number zero v = (case v of Some (HBI_JSON_NUMBER d) \<Rightarrow> d | _ \<Rightarrow> zero)"

definition hbi_json_as_bool :: "'d hbi_json_value ptr \<Rightarrow> bool" where
  "hbi_json_as_bool v = (case v of Some (HBI_JSON_BOOL b) \<Rightarrow> b | _ \<Rightarrow> False)"

text \<open>
  The conversion to \<open>int64_t\<close> comes before the range test: \<open>None\<close> is a conversion that C leaves
  undefined. Converting the truncated value back is exact, so the first test asks whether the number
  is an integer.
\<close>

definition hbi_json_as_int :: "('d \<Rightarrow> rat option) \<Rightarrow> 'd hbi_json_value ptr \<Rightarrow> int outcome option" where
  "hbi_json_as_int value_of v =
     (case v of
        Some (HBI_JSON_NUMBER d) \<Rightarrow>
          (case value_of d of
             None \<Rightarrow> None
           | Some q \<Rightarrow>
               let t = (if 0 \<le> q then \<lfloor>q\<rfloor> else \<lceil>q\<rceil>) in
               if \<not> in_i64 t then None
               else if q \<noteq> of_int t then Some (Inl HBI_ERR_CORRUPT)
               else if q < - (2 ^ 63) \<or> 2 ^ 63 \<le> q then Some (Inl HBI_ERR_CORRUPT)
               else Some (Inr t))
      | _ \<Rightarrow> Some (Inl HBI_ERR_INVALID_ARG))"

section \<open>The parser always returns\<close>

lemma utf8_emit_length: "length (utf8_emit cp) \<le> 4" "cp \<le> 0xFFFF \<Longrightarrow> length (utf8_emit cp) \<le> 3"
  by (auto simp: utf8_emit_def)

lemma string_loop_total:
  assumes "length acc + length r + 1 \<le> cap"
  shows "\<exists>res r'. string_loop cap acc r = Some (res, r') \<and> length r' \<le> length r \<and>
    (\<forall>s. res = Inr s \<longrightarrow> length s + length r' + 1 \<le> length acc + length r)"
  using assms
proof (induction cap acc r rule: string_loop.induct)
  case (1 cap acc r)
  show ?case
  proof (cases r)
    case Nil
    then show ?thesis by (simp add: string_loop.simps)
  next
    case (Cons c r1)
    consider "c = 0x22" | "c = 0x5C" | "c \<noteq> 0x22" "c \<noteq> 0x5C" "c < 0x20" | "c \<noteq> 0x22" "c \<noteq> 0x5C" "\<not> c < 0x20" by blast
    then show ?thesis
    proof cases
      case 1
      then show ?thesis using Cons "1.prems" by (subst string_loop.simps) (simp add: emit_def)
    next
      case c: 2
      show ?thesis
      proof (cases r1)
        case Nil
        then show ?thesis using Cons c by (subst string_loop.simps) simp
      next
        case r1: (Cons e r2)
        show ?thesis
        proof (cases "e = 0x75")
          case u: True
          show ?thesis
          proof (cases "parse_unicode r2")
            case None
            then show ?thesis using Cons c r1 u by (subst string_loop.simps) simp
          next
            case (Some cr)
            obtain cp r3 where cr: "cr = (cp, r3)" by (cases cr)
            have len: "length r3 + 4 \<le> length r2" using parse_unicode_length Some cr by simp
            have e: "emit cap acc (utf8_emit cp) = Some (acc @ utf8_emit cp)"
              using Cons r1 "1.prems" len utf8_emit_length(1) [of cp] by (simp add: emit_def)
            have eq: "string_loop cap acc r = string_loop cap (acc @ utf8_emit cp) r3"
              using Cons c r1 u Some cr e by (subst string_loop.simps) simp
            have "\<exists>res r'. string_loop cap (acc @ utf8_emit cp) r3 = Some (res, r') \<and> length r' \<le> length r3 \<and>
                (\<forall>s. res = Inr s \<longrightarrow> length s + length r' + 1 \<le> length (acc @ utf8_emit cp) + length r3)"
              using "1.IH"(1) [OF Cons _ c r1 u Some cr [symmetric] e] Cons r1 "1.prems" len utf8_emit_length(1) [of cp] c by simp
            then obtain res r' where R: "string_loop cap acc r = Some (res, r')" "length r' \<le> length r3"
              "\<forall>s. res = Inr s \<longrightarrow> length s + length r' + 1 \<le> length (acc @ utf8_emit cp) + length r3"
              using eq by auto
            moreover have "length (acc @ utf8_emit cp) + length r3 \<le> length acc + length r"
              using Cons r1 len utf8_emit_length(1) [of cp] by simp
            ultimately show ?thesis using Cons r1 len by (intro exI [of _ res] exI [of _ r']) auto
          qed
        next
          case u: False
          show ?thesis
          proof (cases "simple_escape e")
            case None
            then show ?thesis using Cons c r1 u by (subst string_loop.simps) simp
          next
            case (Some b)
            have e: "emit cap acc [b] = Some (acc @ [b])" using Cons r1 "1.prems" by (simp add: emit_def)
            have "\<exists>res r'. string_loop cap (acc @ [b]) r2 = Some (res, r') \<and> length r' \<le> length r2 \<and>
                (\<forall>s. res = Inr s \<longrightarrow> length s + length r' + 1 \<le> length (acc @ [b]) + length r2)"
              using "1.IH"(2) [OF Cons _ c r1 u Some e] Cons r1 "1.prems" c by simp
            then show ?thesis using Cons c r1 u Some e by (subst string_loop.simps) auto
          qed
        qed
      qed
    next
      case 3
      then show ?thesis using Cons by (subst string_loop.simps) simp
    next
      case 4
      have e: "emit cap acc [c] = Some (acc @ [c])" using Cons "1.prems" by (simp add: emit_def)
      have "\<exists>res r'. string_loop cap (acc @ [c]) r1 = Some (res, r') \<and> length r' \<le> length r1 \<and>
          (\<forall>s. res = Inr s \<longrightarrow> length s + length r' + 1 \<le> length (acc @ [c]) + length r1)"
        using "1.IH"(3) [OF Cons 4(1,2) 4(3) e] Cons "1.prems" by simp
      then show ?thesis using Cons 4 e by (subst string_loop.simps) auto
    qed
  qed
qed

lemma string_loop_err: "string_loop cap acc r = Some (Inl e, r') \<Longrightarrow> e = HBI_ERR_CORRUPT"
proof (induction cap acc r rule: string_loop.induct)
  case (1 cap acc r)
  from "1.prems" show ?case
    by (subst (asm) string_loop.simps)
      (auto split: list.splits if_splits option.splits prod.splits dest: "1.IH")
qed

text \<open>The nesting depth of a value, a scalar or an empty container counting 1.\<close>

fun json_depth :: "'d hbi_json_value \<Rightarrow> nat" where
  "json_depth (HBI_JSON_ARRAY xs) = 1 + foldr max (map json_depth xs) 0"
| "json_depth (HBI_JSON_OBJECT ms) = 1 + foldr max (map (json_depth \<circ> snd) ms) 0"
| "json_depth _ = 1"

lemma foldr_max_le: "foldr max (map f xs) 0 \<le> (b :: nat) \<longleftrightarrow> (\<forall>x \<in> set xs. f x \<le> b)"
  by (induction xs) auto

lemma foldr_max_room: "d + (1 + foldr max (map f xs) 0) \<le> (b :: nat) \<Longrightarrow> x \<in> set xs \<Longrightarrow> d + 1 + f x \<le> b"
  by (induction xs) auto

abbreviation rl :: "hbi_json_parser \<Rightarrow> nat" where
  "rl p \<equiv> length (js_rest p)"

text \<open>A result of the parser: it never moves back, keeps the depth, and bounds the depth of a value.\<close>

definition parse_ok :: "nat \<Rightarrow> hbi_json_parser \<Rightarrow> 'd hbi_json_value outcome \<times> hbi_json_parser \<Rightarrow> bool" where
  "parse_ok d p r \<longleftrightarrow> rl (snd r) \<le> rl p \<and> js_depth (snd r) = js_depth p \<and>
     (case fst r of
        Inl e \<Rightarrow> e = HBI_ERR_CORRUPT \<or> e = HBI_ERR_OOM
      | Inr v \<Rightarrow> rl (snd r) < rl p \<and> d + json_depth v \<le> HBI_JSON_MAX_DEPTH)"

lemma skip_ws_simps [simp]:
  "rl (skip_ws p) \<le> rl p" "js_depth (skip_ws p) = js_depth p" "js_allocs (skip_ws p) = js_allocs p"
  by (simp_all add: skip_ws_def length_dropWhile_le)

lemma advance_simps [simp]:
  "rl (advance k p) = rl p - k" "js_depth (advance k p) = js_depth p" "js_allocs (advance k p) = js_allocs p"
  by (simp_all add: advance_def)

lemma jalloc_simps [simp]:
  "rl (snd (jalloc ok p)) = rl p" "js_depth (snd (jalloc ok p)) = js_depth p" "js_rest (snd (jalloc ok p)) = js_rest p"
  by (simp_all add: jalloc_def)

lemma peek_pos: "peek p = c \<Longrightarrow> c \<noteq> 0 \<Longrightarrow> 0 < rl p"
  by (auto simp: peek_def at_end_def split: if_splits)

lemma parse_string_total:
  "\<exists>res p'. parse_string_raw ok p = Some (res, p') \<and> rl p' \<le> rl p \<and> js_depth p' = js_depth p \<and>
     (case res of Inl e \<Rightarrow> e = HBI_ERR_CORRUPT \<or> e = HBI_ERR_OOM | Inr s \<Rightarrow> rl p' < rl p)"
proof (cases "peek p = 0x22 \<and> ok (js_allocs p)")
  case True
  have pos: "0 < rl p" using peek_pos [of p "0x22"] True by simp
  obtain res r' where R: "string_loop (rl p - 1 + 1) [] (drop 1 (js_rest p)) = Some (res, r')"
    "length r' \<le> rl p - 1"
    using string_loop_total [of "[]" "drop 1 (js_rest p)" "rl p - 1 + 1"] by auto
  have err: "res = Inl e \<Longrightarrow> e = HBI_ERR_CORRUPT" for e
    using string_loop_err R(1) by blast
  have less: "length r' < rl p" using R(2) pos by linarith
  show ?thesis using True R err less
    by (auto simp: parse_string_raw_def jalloc_def advance_def Let_def split: sum.splits)
next
  case False
  then show ?thesis by (auto simp: parse_string_raw_def jalloc_def advance_def Let_def)
qed

lemma parse_number_ok:
  assumes "d < HBI_JSON_MAX_DEPTH"
  shows "parse_ok d p (parse_number to_double ok p)"
proof -
  let ?n = "length (takeWhile is_number_char (js_rest p))"
  have "?n \<le> rl p" by (rule length_takeWhile_le)
  then have "0 < ?n \<Longrightarrow> rl p - ?n < rl p" by linarith
  then show ?thesis using assms by (auto simp: parse_ok_def parse_number_def jalloc_def advance_def Let_def)
qed

lemma parse_literal_ok:
  assumes "d < HBI_JSON_MAX_DEPTH" and "lit \<noteq> []" and "json_depth v = 1"
  shows "parse_ok d p (parse_literal ok p lit v)"
proof -
  have "\<not> rl p < length lit \<Longrightarrow> rl p - length lit < rl p" using assms(2) by (cases lit) auto
  then show ?thesis using assms by (auto simp: parse_ok_def parse_literal_def jalloc_def advance_def Let_def)
qed

lemma parse_ok_mono:
  "parse_ok d q r \<Longrightarrow> rl q \<le> rl p \<Longrightarrow> js_depth q = js_depth p \<Longrightarrow> parse_ok d p r"
  by (auto simp: parse_ok_def split: sum.splits)

text \<open>The three functions return with enough fuel.\<close>

definition value_total :: "(u8 list \<Rightarrow> 'd) \<Rightarrow> (nat \<Rightarrow> bool) \<Rightarrow> nat \<Rightarrow> bool" where
  "value_total td ok n \<longleftrightarrow> (\<forall>p. 2 * rl p + 1 \<le> n \<longrightarrow>
     (\<exists>r. parse_value td ok n p = Some r \<and> parse_ok (js_depth p) p r))"

definition array_total :: "(u8 list \<Rightarrow> 'd) \<Rightarrow> (nat \<Rightarrow> bool) \<Rightarrow> nat \<Rightarrow> bool" where
  "array_total td ok n \<longleftrightarrow> (\<forall>p d cap items. 2 * rl p + 2 \<le> n \<and> js_depth p = Suc d \<and>
       (\<forall>x \<in> set items. Suc d + json_depth x \<le> HBI_JSON_MAX_DEPTH) \<longrightarrow>
     (\<exists>r. array_loop td ok n cap items p = Some r \<and> parse_ok d p r))"

definition object_total :: "(u8 list \<Rightarrow> 'd) \<Rightarrow> (nat \<Rightarrow> bool) \<Rightarrow> nat \<Rightarrow> bool" where
  "object_total td ok n \<longleftrightarrow> (\<forall>p d cap ms. 2 * rl p + 2 \<le> n \<and> js_depth p = Suc d \<and>
       (\<forall>m \<in> set ms. Suc d + json_depth (snd m) \<le> HBI_JSON_MAX_DEPTH) \<longrightarrow>
     (\<exists>r. object_loop td ok n cap ms p = Some r \<and> parse_ok d p r))"

lemma array_depth:
  assumes "\<forall>x \<in> set xs. Suc d + json_depth x \<le> HBI_JSON_MAX_DEPTH" and "xs \<noteq> []"
  shows "d + json_depth (HBI_JSON_ARRAY xs) \<le> HBI_JSON_MAX_DEPTH"
proof -
  obtain x where "x \<in> set xs" using assms(2) by (cases xs) auto
  then have d: "Suc d \<le> HBI_JSON_MAX_DEPTH" using assms(1) by (meson add_leD1)
  have "\<forall>x \<in> set xs. json_depth x \<le> HBI_JSON_MAX_DEPTH - Suc d" using assms(1) by auto
  then have "foldr max (map json_depth xs) 0 \<le> HBI_JSON_MAX_DEPTH - Suc d" by (simp only: foldr_max_le)
  then show ?thesis using d by simp
qed

lemma object_depth:
  assumes "\<forall>m \<in> set ms. Suc d + json_depth (snd m) \<le> HBI_JSON_MAX_DEPTH" and "ms \<noteq> []"
  shows "d + json_depth (HBI_JSON_OBJECT ms) \<le> HBI_JSON_MAX_DEPTH"
  using array_depth [of "map snd ms" d] assms by (simp add: comp_def)

lemma array_step:
  assumes v: "value_total td ok n" and a: "array_total td ok n"
  shows "array_total td ok (Suc n)"
  unfolding array_total_def
proof (intro allI impI)
  fix p d cap and items :: "'a hbi_json_value list"
  assume A: "2 * rl p + 2 \<le> Suc n \<and> js_depth p = Suc d \<and> (\<forall>x \<in> set items. Suc d + json_depth x \<le> HBI_JSON_MAX_DEPTH)"
  have "2 * rl p + 1 \<le> n" using A by simp
  then obtain res p1 where R: "parse_value td ok n p = Some (res, p1)" "parse_ok (js_depth p) p (res, p1)"
    using v by (auto simp: value_total_def)
  show "\<exists>r. array_loop td ok (Suc n) cap items p = Some r \<and> parse_ok d p r"
  proof (cases res)
    case (Inl e)
    then show ?thesis using R by (auto simp: parse_ok_def)
  next
    case (Inr x)
    have x: "rl p1 < rl p" "js_depth p1 = Suc d" "Suc d + json_depth x \<le> HBI_JSON_MAX_DEPTH"
      using R(2) Inr A by (auto simp: parse_ok_def)
    define p2 where "p2 = snd (if length items = cap then jalloc ok p1 else (True, p1))"
    have p2: "rl p2 = rl p1" "js_depth p2 = Suc d" using x(2) by (simp_all add: p2_def)
    let ?p3 = "skip_ws p2" and ?items = "items @ [x]"
    let ?cap' = "if length items = cap then cap * 2 else cap"
    have items: "\<forall>y \<in> set ?items. Suc d + json_depth y \<le> HBI_JSON_MAX_DEPTH" using A x(3) by auto
    have p3: "rl ?p3 < rl p" "js_depth ?p3 = Suc d" using p2 x(1) skip_ws_simps(1) [of p2] by auto
    have eq: "array_loop td ok (Suc n) cap items p =
        (if \<not> fst (if length items = cap then jalloc ok p1 else (True, p1)) then Some (Inl HBI_ERR_OOM, p2)
         else if peek ?p3 = 0x2C then array_loop td ok n ?cap' ?items (skip_ws (advance 1 ?p3))
         else if peek ?p3 = 0x5D then Some (Inr (HBI_JSON_ARRAY ?items), advance 1 ?p3)
         else Some (Inl HBI_ERR_CORRUPT, ?p3))"
      using R(1) Inr by (simp add: p2_def Let_def case_prod_beta)
    have more: "\<exists>r. array_loop td ok n ?cap' ?items (skip_ws (advance 1 ?p3)) = Some r \<and> parse_ok d p r"
    proof -
      let ?q = "skip_ws (advance 1 ?p3)"
      have q: "rl ?q \<le> rl ?p3" "js_depth ?q = Suc d" using skip_ws_simps(1) [of "advance 1 ?p3"] p3(2) by auto
      then have "2 * rl ?q + 2 \<le> n" using p3(1) A by linarith
      then obtain r where "array_loop td ok n ?cap' ?items ?q = Some r" "parse_ok d ?q r"
        using a q(2) items unfolding array_total_def by blast
      moreover have "rl ?q \<le> rl p" "js_depth ?q = js_depth p" using q p3(1) A by auto
      ultimately show ?thesis using parse_ok_mono by blast
    qed
    have "d + json_depth (HBI_JSON_ARRAY ?items) \<le> HBI_JSON_MAX_DEPTH" by (rule array_depth [OF items]) simp
    then show ?thesis
      unfolding eq using more p2 p3 x(1) A by (auto simp: parse_ok_def)
  qed
qed

lemma object_step:
  assumes v: "value_total td ok n" and o: "object_total td ok n"
  shows "object_total td ok (Suc n)"
  unfolding object_total_def
proof (intro allI impI)
  fix p d cap and ms :: "(u8 list \<times> 'a hbi_json_value) list"
  assume A: "2 * rl p + 2 \<le> Suc n \<and> js_depth p = Suc d \<and> (\<forall>m \<in> set ms. Suc d + json_depth (snd m) \<le> HBI_JSON_MAX_DEPTH)"
  obtain kres p1 where K: "parse_string_raw ok (skip_ws p) = Some (kres, p1)" "rl p1 \<le> rl (skip_ws p)" "js_depth p1 = Suc d"
    "case kres of Inl e \<Rightarrow> e = HBI_ERR_CORRUPT \<or> e = HBI_ERR_OOM | Inr s \<Rightarrow> rl p1 < rl (skip_ws p)"
    using parse_string_total [of ok "skip_ws p"] A by auto
  have p1: "rl p1 \<le> rl p" using K(2) skip_ws_simps(1) [of p] by linarith
  show "\<exists>r. object_loop td ok (Suc n) cap ms p = Some r \<and> parse_ok d p r"
  proof (cases kres)
    case (Inl e)
    then show ?thesis using K p1 A by (auto simp: parse_ok_def)
  next
    case (Inr key)
    let ?p2 = "skip_ws p1"
    have p2: "rl ?p2 \<le> rl p1" "js_depth ?p2 = Suc d" using K(3) by auto
    show ?thesis
    proof (cases "peek ?p2 = 0x3A")
      case False
      then have "object_loop td ok (Suc n) cap ms p = Some (Inl HBI_ERR_CORRUPT, ?p2)" using K(1) Inr by (simp add: Let_def)
      moreover have "rl ?p2 \<le> rl p" using p1 p2(1) by linarith
      ultimately show ?thesis using p2(2) A by (simp add: parse_ok_def)
    next
      case colon: True
      let ?q = "skip_ws (advance 1 ?p2)"
      have "rl ?q \<le> rl ?p2" using skip_ws_simps(1) [of "advance 1 ?p2"] by simp
      then have q: "rl ?q \<le> rl p" "js_depth ?q = Suc d" using p1 p2 by (linarith, simp)
      then have "2 * rl ?q + 1 \<le> n" using A by linarith
      then obtain res p3 where R: "parse_value td ok n ?q = Some (res, p3)" "parse_ok (Suc d) ?q (res, p3)"
        using v q(2) by (fastforce simp: value_total_def)
      show ?thesis
      proof (cases res)
        case e: (Inl e)
        then have "object_loop td ok (Suc n) cap ms p = Some (Inl e, p3)" using K(1) Inr colon R(1) by (simp add: Let_def)
        then show ?thesis using R(2) q A e by (auto simp: parse_ok_def)
      next
        case x: (Inr x)
        have xs: "rl p3 < rl ?q" "js_depth p3 = Suc d" "Suc d + json_depth x \<le> HBI_JSON_MAX_DEPTH"
          using R(2) x q(2) by (auto simp: parse_ok_def)
        define p4 where "p4 = snd (if length ms = cap then jalloc ok p3 else (True, p3))"
        have p4: "rl p4 = rl p3" "js_depth p4 = Suc d" using xs(2) by (simp_all add: p4_def)
        let ?p5 = "skip_ws p4" and ?ms = "ms @ [(key, x)]"
        let ?cap' = "if length ms = cap then cap * 2 else cap"
        have items: "\<forall>m \<in> set ?ms. Suc d + json_depth (snd m) \<le> HBI_JSON_MAX_DEPTH" using A xs(3) by auto
        have p5: "rl ?p5 < rl p" "js_depth ?p5 = Suc d" using p4 xs(1) q(1) skip_ws_simps(1) [of p4] by auto
        have eq: "object_loop td ok (Suc n) cap ms p =
            (if \<not> fst (if length ms = cap then jalloc ok p3 else (True, p3)) then Some (Inl HBI_ERR_OOM, p4)
             else if peek ?p5 = 0x2C then object_loop td ok n ?cap' ?ms (advance 1 ?p5)
             else if peek ?p5 = 0x7D then Some (Inr (HBI_JSON_OBJECT ?ms), advance 1 ?p5)
             else Some (Inl HBI_ERR_CORRUPT, ?p5))"
          using K(1) Inr colon R(1) x by (simp add: p4_def Let_def case_prod_beta)
        have more: "\<exists>r. object_loop td ok n ?cap' ?ms (advance 1 ?p5) = Some r \<and> parse_ok d p r"
        proof -
          let ?t = "advance 1 ?p5"
          have "rl ?t \<le> rl ?p5" by simp
          then have "2 * rl ?t + 2 \<le> n" using p5(1) A by linarith
          moreover have "js_depth ?t = Suc d" using p5(2) by simp
          ultimately obtain r where "object_loop td ok n ?cap' ?ms ?t = Some r" "parse_ok d ?t r"
            using o items unfolding object_total_def by blast
          moreover have "rl ?t \<le> rl p" "js_depth ?t = js_depth p" using p5 A by auto
          ultimately show ?thesis using parse_ok_mono by blast
        qed
        have "d + json_depth (HBI_JSON_OBJECT ?ms) \<le> HBI_JSON_MAX_DEPTH" by (rule object_depth [OF items]) simp
        then show ?thesis unfolding eq using more p4 p5 q(1) xs(1) A by (auto simp: parse_ok_def)
      qed
    qed
  qed
qed

text \<open>Opening a container: what the two container branches of \<open>parse_value\<close> share.\<close>

lemma container_ok:
  assumes p: "rl p1 \<le> rl p" "js_depth p1 = js_depth p" "0 < rl p1" "js_depth p < HBI_JSON_MAX_DEPTH"
    and loop: "\<And>q. rl q < rl p1 \<Longrightarrow> js_depth q = Suc (js_depth p) \<Longrightarrow> \<exists>r. loop q = Some r \<and> parse_ok (js_depth p) q r"
    and base: "json_depth nil = 1"
  shows "\<exists>r. map_option (map_prod id (\<lambda>q. q\<lparr>js_depth := js_depth q - 1\<rparr>))
      (parse_container ok close nil loop (p1\<lparr>js_depth := js_depth p1 + 1\<rparr>)) = Some r \<and> parse_ok (js_depth p) p r"
proof -
  define p2 where "p2 = snd (jalloc ok (advance 1 (p1\<lparr>js_depth := js_depth p1 + 1\<rparr>)))"
  define p4 where "p4 = snd (jalloc ok (skip_ws p2))"
  have p2: "rl p2 = rl p1 - 1" "js_depth p2 = Suc (js_depth p)" using p(2) by (simp_all add: p2_def)
  have p3: "rl (skip_ws p2) < rl p1" "js_depth (skip_ws p2) = Suc (js_depth p)"
    using p2 p(3) skip_ws_simps(1) [of p2] by (linarith, simp)
  have p4: "rl p4 < rl p1" "js_depth p4 = Suc (js_depth p)" using p3 by (simp_all add: p4_def)
  obtain r where r: "loop p4 = Some r" "parse_ok (js_depth p) p4 r" using loop [OF p4] by blast
  have "parse_ok (js_depth p) p (map_prod id (\<lambda>q. q\<lparr>js_depth := js_depth q - 1\<rparr>) r)"
    using r(2) p4 p(1) by (cases r) (auto simp: parse_ok_def split: sum.splits)
  moreover have "parse_container ok close nil loop (p1\<lparr>js_depth := js_depth p1 + 1\<rparr>) =
     Some (if \<not> fst (jalloc ok (advance 1 (p1\<lparr>js_depth := js_depth p1 + 1\<rparr>))) then (Inl HBI_ERR_OOM, p2)
        else if peek (skip_ws p2) = close then (Inr nil, advance 1 (skip_ws p2))
        else if \<not> fst (jalloc ok (skip_ws p2)) then (Inl HBI_ERR_OOM, p4) else r)"
    using r(1) by (simp add: parse_container_def p2_def p4_def case_prod_beta Let_def)
  moreover have "rl p2 \<le> rl p" "rl p4 \<le> rl p" "rl (skip_ws p2) - 1 < rl p" using p2 p3 p4 p by linarith+
  ultimately show ?thesis using p2 p3 p4 p base by (auto simp: parse_ok_def)
qed

lemma value_step:
  assumes a: "array_total td ok n" and o: "object_total td ok n"
  shows "value_total td ok (Suc n)"
  unfolding value_total_def
proof (intro allI impI)
  fix p assume A: "2 * rl p + 1 \<le> Suc n"
  show "\<exists>r. parse_value td ok (Suc n) p = Some r \<and> parse_ok (js_depth p) p r"
  proof (cases "HBI_JSON_MAX_DEPTH \<le> js_depth p \<or> at_end (skip_ws p)")
    case True
    then show ?thesis by (auto simp: parse_ok_def Let_def)
  next
    case False
    let ?p1 = "skip_ws p"
    have d: "js_depth p < HBI_JSON_MAX_DEPTH" and pos: "0 < rl ?p1" using False by (auto simp: at_end_def)
    have arr: "\<exists>r. array_loop td ok n 8 [] q = Some r \<and> parse_ok (js_depth p) q r"
      if "rl q < rl ?p1" "js_depth q = Suc (js_depth p)" for q
    proof -
      have "2 * rl q + 2 \<le> n" using that(1) skip_ws_simps(1) [of p] A by linarith
      then show ?thesis using a that(2) unfolding array_total_def by (metis empty_iff list.set(1))
    qed
    have obj: "\<exists>r. object_loop td ok n 8 [] q = Some r \<and> parse_ok (js_depth p) q r"
      if "rl q < rl ?p1" "js_depth q = Suc (js_depth p)" for q
    proof -
      have "2 * rl q + 2 \<le> n" using that(1) skip_ws_simps(1) [of p] A by linarith
      then show ?thesis using o that(2) unfolding object_total_def by (metis empty_iff list.set(1))
    qed
    note cont = container_ok [OF skip_ws_simps(1,2) pos d]
    have lit: "parse_ok (js_depth p) p (parse_literal ok ?p1 l v)" if "l \<noteq> []" "json_depth v = 1" for l and v :: "'a hbi_json_value"
      using parse_ok_mono [OF parse_literal_ok [OF d that, of ?p1 ok] skip_ws_simps(1,2)] .
    have num: "parse_ok (js_depth p) p (parse_number td ok ?p1)" using parse_ok_mono [OF parse_number_ok [OF d, of ?p1 td ok] skip_ws_simps(1,2)] .
    have str: "\<exists>r. (case parse_string_raw ok ?p1 of None \<Rightarrow> None | Some (Inl e, p2) \<Rightarrow> Some (Inl e, p2)
        | Some (Inr s, p2) \<Rightarrow> (let (got, p3) = jalloc ok p2 in
             Some (if \<not> got then Inl HBI_ERR_OOM else Inr (HBI_JSON_STRING s), p3))) = Some r \<and>
        parse_ok (js_depth p) p (r :: 'a hbi_json_value outcome \<times> hbi_json_parser)"
    proof -
      obtain res p2 where S: "parse_string_raw ok ?p1 = Some (res, p2)" "rl p2 \<le> rl ?p1" "js_depth p2 = js_depth p"
        "case res of Inl e \<Rightarrow> e = HBI_ERR_CORRUPT \<or> e = HBI_ERR_OOM | Inr s \<Rightarrow> rl p2 < rl ?p1"
        using parse_string_total [of ok ?p1] by auto
      have le: "rl p2 \<le> rl p" "rl p2 < rl ?p1 \<Longrightarrow> rl p2 < rl p" using S(2) skip_ws_simps(1) [of p] by linarith+
      show ?thesis using S(1,3,4) le d by (cases res) (auto simp: jalloc_def parse_ok_def)
    qed
    have bad: "parse_ok (js_depth p) p (Inl HBI_ERR_CORRUPT :: 'a hbi_json_value outcome, ?p1)" by (simp add: parse_ok_def)
    show ?thesis
      unfolding parse_value.simps Let_def [of "skip_ws p"] Let_def [of "peek (skip_ws p)"]
      using False bad
      by (simp only: if_False de_Morgan_disj simp_thms split: if_split)
        (intro conjI impI; (rule cont [OF obj] cont [OF arr] str)?; simp add: lit num)
  qed
qed

lemma parser_total: "value_total td ok n \<and> array_total td ok n \<and> object_total td ok n"
proof (induction n)
  case 0
  show ?case by (simp add: value_total_def array_total_def object_total_def)
next
  case (Suc n)
  then show ?case using value_step array_step object_step by blast
qed

lemma json_parse_returns:
  "\<exists>r. hbi_json_parse td ok inp = Some r \<and>
     (case r of
        Inl e \<Rightarrow> e \<in> {HBI_ERR_INVALID_ARG, HBI_ERR_UNSUPPORTED, HBI_ERR_CORRUPT, HBI_ERR_OOM}
      | Inr v \<Rightarrow> json_depth v \<le> HBI_JSON_MAX_DEPTH)"
proof (cases inp)
  case None
  then show ?thesis by (simp add: hbi_json_parse_def)
next
  case (Some bs)
  let ?p = "\<lparr>js_rest = bs, js_depth = 0, js_allocs = 0\<rparr>"
  have "value_total td ok (2 * length bs + 2)" using parser_total by blast
  then obtain res q where "parse_value td ok (2 * length bs + 2) ?p = Some (res, q)" "parse_ok 0 ?p (res, q)"
    unfolding value_total_def by (metis add_le_cancel_left hbi_json_parser.select_convs(1,2) one_le_numeral surj_pair)
  then show ?thesis using Some by (cases res) (auto simp: hbi_json_parse_def parse_ok_def)
qed

text \<open>
  C13. For every input and every pattern of allocation failures \<open>hbi_json_parse\<close> returns: the recursion
  ends, no string is written past its buffer, an error is one of the four the code names, and a
  parsed value is nested at most \<open>HBI_JSON_MAX_DEPTH\<close> deep.\<close>

theorem json_parse_total:
  "\<exists>r. hbi_json_parse td ok inp = Some r \<and>
     (case r of
        Inl e \<Rightarrow> e \<in> {HBI_ERR_INVALID_ARG, HBI_ERR_UNSUPPORTED, HBI_ERR_CORRUPT, HBI_ERR_OOM}
      | Inr v \<Rightarrow> json_depth v \<le> HBI_JSON_MAX_DEPTH)"
  by (rule json_parse_returns)

section \<open>Printing and parsing\<close>

text \<open>
  A canonical printer, against which the parser is checked: no white space, a control character
  escaped by its code, a quote and a backslash by a backslash. \<open>num\<close> prints a number.
\<close>

definition hex_char :: "u8 \<Rightarrow> u8" where
  "hex_char d = (if d < 10 then 0x30 + d else 0x61 + (d - 10))"

definition escape :: "u8 \<Rightarrow> u8 list" where
  "escape b =
     (if b = 0x22 \<or> b = 0x5C then [0x5C, b]
      else if b < 0x20 then [0x5C, 0x75, 0x30, 0x30, hex_char (drop_bit 4 b), hex_char (b AND 0x0F)]
      else [b])"

definition print_string :: "u8 list \<Rightarrow> u8 list" where
  "print_string s = 0x22 # concat (map escape s) @ [0x22]"

fun commas :: "u8 list list \<Rightarrow> u8 list" where
  "commas [] = []"
| "commas [x] = x"
| "commas (x # y # ys) = x @ 0x2C # commas (y # ys)"

fun json_print :: "('d \<Rightarrow> u8 list) \<Rightarrow> 'd hbi_json_value \<Rightarrow> u8 list" where
  "json_print num HBI_JSON_NULL = [0x6E, 0x75, 0x6C, 0x6C]"
| "json_print num (HBI_JSON_BOOL b) = (if b then [0x74, 0x72, 0x75, 0x65] else [0x66, 0x61, 0x6C, 0x73, 0x65])"
| "json_print num (HBI_JSON_NUMBER d) = num d"
| "json_print num (HBI_JSON_STRING s) = print_string s"
| "json_print num (HBI_JSON_ARRAY xs) = 0x5B # commas (map (json_print num) xs) @ [0x5D]"
| "json_print num (HBI_JSON_OBJECT ms) =
     0x7B # commas (map (\<lambda>m. print_string (fst m) @ 0x3A # json_print num (snd m)) ms) @ [0x7D]"

text \<open>What \<open>num\<close> and \<open>strtod\<close> have to satisfy on a number: its text is one that the scanner takes whole.\<close>

definition number_printed :: "(u8 list \<Rightarrow> 'd) \<Rightarrow> ('d \<Rightarrow> u8 list) \<Rightarrow> 'd \<Rightarrow> bool" where
  "number_printed to_double num d \<longleftrightarrow>
     num d \<noteq> [] \<and> (hd (num d) = 0x2D \<or> is_digit (hd (num d))) \<and> list_all is_number_char (num d) \<and>
     length (num d) < 64 \<and> strtod_len (num d) = length (num d) \<and> to_double (num d) = d"

lemma control_cases: "b < (0x20 :: u8) \<Longrightarrow> b \<in> word_of_nat ` set [0..<32]"
proof -
  assume "b < 0x20"
  then have "unat b \<in> set [0..<32]" by (simp add: word_less_nat_alt)
  then show ?thesis by (rule image_eqI [rotated]) simp
qed

lemma control_escape:
  assumes "b < 0x20"
  shows "parse_unicode (0x30 # 0x30 # hex_char (drop_bit 4 b) # hex_char (b AND 0x0F) # r) = Some (ucast b, r)"
    and "utf8_emit (ucast b) = [b]"
proof -
  have all: "list_all (\<lambda>b. hex_loop [0x30, 0x30, hex_char (drop_bit 4 b), hex_char (b AND 0x0F)] 0 = Some (ucast b) \<and>
      utf8_emit (ucast b) = [b] \<and> (ucast b :: u32) < 0x20) (map word_of_nat [0..<32])"
    by code_simp
  then have "hex_loop [0x30, 0x30, hex_char (drop_bit 4 b), hex_char (b AND 0x0F)] 0 = Some (ucast b) \<and>
      utf8_emit (ucast b) = [b] \<and> (ucast b :: u32) < 0x20"
    using control_cases [OF assms] unfolding list_all_iff by auto
  then show "parse_unicode (0x30 # 0x30 # hex_char (drop_bit 4 b) # hex_char (b AND 0x0F) # r) = Some (ucast b, r)"
    and "utf8_emit (ucast b) = [b]"
    by (auto simp: parse_unicode_def parse_hex4_def word_less_nat_alt word_le_nat_alt)
qed

lemma string_loop_print:
  assumes "length acc + length s + 1 \<le> cap"
  shows "string_loop cap acc (concat (map escape s) @ 0x22 # r) = Some (Inr (acc @ s), r)"
  using assms
proof (induction s arbitrary: acc)
  case Nil
  then show ?case by (subst string_loop.simps) (simp add: emit_def)
next
  case (Cons b s)
  have e: "emit cap acc [b] = Some (acc @ [b])" using Cons.prems by (simp add: emit_def)
  have "string_loop cap acc (escape b @ x) = string_loop cap (acc @ [b]) x" for x
    using control_escape(1) [of b x] control_escape(2) [of b] e by (subst string_loop.simps) (auto simp: escape_def simple_escape_def)
  then show ?case using Cons.IH [of "acc @ [b]"] Cons.prems by simp
qed

lemma parse_string_print:
  assumes ok: "\<And>i. ok i" and r: "js_rest p = print_string s @ r"
  shows "parse_string_raw ok p = Some (Inr s, p\<lparr>js_rest := r, js_allocs := js_allocs p + 1\<rparr>)"
proof -
  have "length s \<le> length (concat (map escape s))"
    by (induction s) (auto simp: escape_def)
  then show ?thesis using r ok
    by (simp add: parse_string_raw_def peek_def at_end_def print_string_def jalloc_def advance_def Let_def string_loop_print)
qed

lemma skip_ws_id: "js_rest p = c # r \<Longrightarrow> \<not> is_ws c \<Longrightarrow> skip_ws p = p"
  by (simp add: skip_ws_def)

lemma peek_Cons: "js_rest p = c # r \<Longrightarrow> peek p = c"
  by (simp add: peek_def at_end_def)

text \<open>The first byte of a printed value: it is no white space and does not close a container.\<close>

definition value_head :: "u8 \<Rightarrow> bool" where
  "value_head c \<longleftrightarrow> c \<in> {0x6E, 0x74, 0x66, 0x22, 0x5B, 0x7B, 0x2D} \<or> is_digit c"

lemma value_head_ws: "value_head c \<Longrightarrow> \<not> is_ws c \<and> c \<noteq> 0x5D \<and> c \<noteq> 0x7D"
  by (auto simp: value_head_def is_ws_def is_digit_def word_le_nat_alt)

lemma json_print_head:
  assumes "\<forall>d \<in> set_hbi_json_value v. number_printed td num d"
  shows "\<exists>c r. json_print num v = c # r \<and> value_head c"
  using assms by (cases v) (auto simp: value_head_def print_string_def number_printed_def neq_Nil_conv)

definition printed_ok :: "(u8 list \<Rightarrow> 'd) \<Rightarrow> ('d \<Rightarrow> u8 list) \<Rightarrow> (nat \<Rightarrow> bool) \<Rightarrow> 'd hbi_json_value \<Rightarrow> bool" where
  "printed_ok td num ok v \<longleftrightarrow> (\<forall>n p r. 2 * rl p + 1 \<le> n \<and> js_rest p = json_print num v @ r \<and>
     (r = [] \<or> \<not> is_number_char (hd r)) \<and> js_depth p + json_depth v \<le> HBI_JSON_MAX_DEPTH \<longrightarrow>
     (\<exists>k. parse_value td ok n p = Some (Inr v, p\<lparr>js_rest := r, js_allocs := k\<rparr>)))"

lemma printed_okD:
  assumes "printed_ok td num ok v" "2 * rl p + 1 \<le> n" "js_rest p = json_print num v @ c # r" "\<not> is_number_char c"
    "js_depth p + json_depth v \<le> HBI_JSON_MAX_DEPTH"
  shows "\<exists>k. parse_value td ok n p = Some (Inr v, p\<lparr>js_rest := c # r, js_allocs := k\<rparr>)"
  using assms unfolding printed_ok_def by fastforce

lemma sep_chars: "\<not> is_number_char 0x2C" "\<not> is_number_char 0x5D" "\<not> is_number_char 0x7D"
    "\<not> is_ws 0x2C" "\<not> is_ws 0x5D" "\<not> is_ws 0x7D" "\<not> is_ws 0x3A" "\<not> is_ws 0x22"
  by (simp_all add: is_number_char_def is_ws_def word_le_nat_alt)

lemma allocs_rest [simp]: "\<exists>k'. p\<lparr>js_allocs := k, js_rest := r\<rparr> = p\<lparr>js_rest := r, js_allocs := k'\<rparr>"
  by (rule exI [of _ k]) simp

lemma array_loop_print:
  assumes ok: "\<And>i. ok i" and xs: "\<forall>x \<in> set xs. printed_ok td num ok x \<and> js_depth p + json_depth x \<le> HBI_JSON_MAX_DEPTH \<and>
      (\<exists>c r. json_print num x = c # r \<and> value_head c)"
    and "xs \<noteq> []" "2 * rl p + 2 \<le> n" "js_rest p = commas (map (json_print num) xs) @ 0x5D # r"
  shows "\<exists>k. array_loop td ok n cap items p =
    Some (Inr (HBI_JSON_ARRAY (items @ xs)), p\<lparr>js_rest := r, js_allocs := k\<rparr>)"
  using xs assms(3-)
proof (induction xs arbitrary: n cap items p)
  case Nil
  then show ?case by simp
next
  case (Cons x xs)
  obtain m where n: "n = Suc m" using Cons.prems(3) by (cases n) auto
  let ?tl = "(if xs = [] then 0x5D # r else 0x2C # commas (map (json_print num) xs) @ 0x5D # r)"
  have rest: "js_rest p = json_print num x @ ?tl" using Cons.prems(4) by (cases xs) auto
  have "\<exists>k. parse_value td ok m p = Some (Inr x, p\<lparr>js_rest := ?tl, js_allocs := k\<rparr>)"
    using Cons.prems(1,3) n rest printed_okD [of td num ok x p m] sep_chars by (auto split: if_splits)
  then obtain k where k: "parse_value td ok m p = Some (Inr x, p\<lparr>js_rest := ?tl, js_allocs := k\<rparr>)" by blast
  let ?k = "if length items = cap then k + 1 else k"
  let ?p2 = "p\<lparr>js_rest := ?tl, js_allocs := ?k\<rparr>"
  have ws: "skip_ws ?p2 = ?p2" using sep_chars by (cases "xs = []") (auto intro: skip_ws_id)
  have step: "array_loop td ok n cap items p =
      (if peek ?p2 = 0x2C then array_loop td ok m (if length items = cap then cap * 2 else cap) (items @ [x]) (skip_ws (advance 1 ?p2))
       else if peek ?p2 = 0x5D then Some (Inr (HBI_JSON_ARRAY (items @ [x])), advance 1 ?p2) else Some (Inl HBI_ERR_CORRUPT, ?p2))"
    using n k ok ws by (auto simp: jalloc_def Let_def)
  show ?case
  proof (cases xs)
    case Nil
    then show ?thesis using step by (auto simp: peek_def at_end_def advance_def)
  next
    case (Cons y ys)
    let ?q = "advance 1 ?p2"
    obtain c s where "json_print num y = c # s" "value_head c" using Cons.prems(1) Cons by auto
    then have "\<exists>s. js_rest ?q = c # s" using Cons by (cases ys) (auto simp: advance_def)
    then have q: "skip_ws ?q = ?q" using skip_ws_id value_head_ws \<open>value_head c\<close> by blast
    have "\<exists>k. array_loop td ok m (if length items = cap then cap * 2 else cap) (items @ [x]) ?q =
        Some (Inr (HBI_JSON_ARRAY ((items @ [x]) @ xs)), ?q\<lparr>js_rest := r, js_allocs := k\<rparr>)"
      by (rule Cons.IH) (use Cons.prems n rest Cons in \<open>auto simp: advance_def\<close>)
    then show ?thesis using step q Cons by (auto simp: peek_def at_end_def advance_def)
  qed
qed

lemma object_loop_print:
  assumes ok: "\<And>i. ok i" and ms: "\<forall>m \<in> set ms. printed_ok td num ok (snd m) \<and> js_depth p + json_depth (snd m) \<le> HBI_JSON_MAX_DEPTH \<and>
      (\<exists>c r. json_print num (snd m) = c # r \<and> value_head c)"
    and "ms \<noteq> []" "2 * rl p + 2 \<le> n"
    "js_rest p = commas (map (\<lambda>m. print_string (fst m) @ 0x3A # json_print num (snd m)) ms) @ 0x7D # r"
  shows "\<exists>k. object_loop td ok n cap acc p =
    Some (Inr (HBI_JSON_OBJECT (acc @ ms)), p\<lparr>js_rest := r, js_allocs := k\<rparr>)"
  using ms assms(3-)
proof (induction ms arbitrary: n cap acc p)
  case Nil
  then show ?case by simp
next
  case (Cons x ms)
  obtain m where n: "n = Suc m" using Cons.prems(3) by (cases n) auto
  obtain key v where x: "x = (key, v)" by (cases x)
  let ?pr = "\<lambda>m. print_string (fst m) @ 0x3A # json_print num (snd m)"
  let ?tl = "(if ms = [] then 0x7D # r else 0x2C # commas (map ?pr ms) @ 0x7D # r)"
  have rest: "js_rest p = print_string key @ 0x3A # json_print num v @ ?tl" using Cons.prems(4) x by (cases ms) auto
  let ?p1 = "p\<lparr>js_rest := 0x3A # json_print num v @ ?tl, js_allocs := js_allocs p + 1\<rparr>"
  let ?q = "advance 1 ?p1"
  have ws0: "skip_ws p = p" using rest sep_chars by (auto simp: print_string_def intro: skip_ws_id)
  have key: "parse_string_raw ok (skip_ws p) = Some (Inr key, ?p1)" unfolding ws0 by (rule parse_string_print [OF ok rest])
  have ws1: "skip_ws ?p1 = ?p1" using sep_chars by (auto intro: skip_ws_id)
  obtain c s where c: "json_print num v = c # s" "value_head c" using Cons.prems(1) x by auto
  then have wsq: "skip_ws ?q = ?q" using value_head_ws by (auto simp: advance_def intro: skip_ws_id)
  have "2 * rl ?q + 1 \<le> m" "js_rest ?q = json_print num v @ ?tl" "js_depth ?q + json_depth v \<le> HBI_JSON_MAX_DEPTH"
    using Cons.prems(1,3) n rest x by (auto simp: advance_def print_string_def)
  then have "\<exists>k. parse_value td ok m ?q = Some (Inr v, ?q\<lparr>js_rest := ?tl, js_allocs := k\<rparr>)"
    using printed_okD [of td num ok v ?q m] Cons.prems(1) x sep_chars by (cases "ms = []") simp_all
  then obtain k where k: "parse_value td ok m ?q = Some (Inr v, p\<lparr>js_rest := ?tl, js_allocs := k\<rparr>)"
    by (auto simp: advance_def)
  let ?k = "if length acc = cap then k + 1 else k"
  let ?p2 = "p\<lparr>js_rest := ?tl, js_allocs := ?k\<rparr>"
  have ws: "skip_ws ?p2 = ?p2" using sep_chars by (cases "ms = []") (auto intro: skip_ws_id)
  have step: "object_loop td ok n cap acc p =
      (if peek ?p2 = 0x2C then object_loop td ok m (if length acc = cap then cap * 2 else cap) (acc @ [x]) (advance 1 ?p2)
       else if peek ?p2 = 0x7D then Some (Inr (HBI_JSON_OBJECT (acc @ [x])), advance 1 ?p2) else Some (Inl HBI_ERR_CORRUPT, ?p2))"
  proof -
    have colon: "peek ?p1 = 0x3A" by (simp add: peek_def at_end_def)
    show ?thesis
      unfolding n object_loop.simps key ws1 x option.case prod.case sum.case Let_def wsq k
      using ok ws colon by (auto simp: jalloc_def)
  qed
  show ?case
  proof (cases ms)
    case Nil
    then show ?thesis using step by (auto simp: peek_def at_end_def advance_def)
  next
    case (Cons y ys)
    let ?t = "advance 1 ?p2"
    have "\<exists>k. object_loop td ok m (if length acc = cap then cap * 2 else cap) (acc @ [x]) ?t =
        Some (Inr (HBI_JSON_OBJECT ((acc @ [x]) @ ms)), ?t\<lparr>js_rest := r, js_allocs := k\<rparr>)"
      by (rule Cons.IH) (use Cons.prems n rest Cons in \<open>auto simp: advance_def\<close>)
    then show ?thesis using step Cons by (auto simp: peek_def at_end_def advance_def)
  qed
qed

text \<open>Opening a container that is not empty, as \<open>parse_value\<close> does for both kinds.\<close>

lemma container_print:
  assumes ok: "\<And>i. ok i" and p: "js_rest p = b # c # s" and c: "\<not> is_ws c" "c \<noteq> close"
    and loop: "loop \<lparr>js_rest = c # s, js_depth = js_depth p + 1, js_allocs = js_allocs p + 2\<rparr> =
      Some (Inr v, \<lparr>js_rest = r, js_depth = js_depth p + 1, js_allocs = k\<rparr>)"
  shows "map_option (map_prod id (\<lambda>q. q\<lparr>js_depth := js_depth q - 1\<rparr>))
      (parse_container ok close nil loop (p\<lparr>js_depth := js_depth p + 1\<rparr>)) =
     Some (Inr v, p\<lparr>js_rest := r, js_allocs := k\<rparr>)"
  using assms by (cases p) (simp add: parse_container_def at_end_def peek_def jalloc_def advance_def skip_ws_def Let_def)

lemma printed_ok_array:
  assumes ok: "\<And>i. ok i" and xs: "\<forall>x \<in> set xs. printed_ok td num ok x \<and> (\<exists>c r. json_print num x = c # r \<and> value_head c)"
  shows "printed_ok td num ok (HBI_JSON_ARRAY xs)"
  unfolding printed_ok_def
proof (intro allI impI)
  fix n p r
  assume A: "2 * rl p + 1 \<le> n \<and> js_rest p = json_print num (HBI_JSON_ARRAY xs) @ r \<and>
     (r = [] \<or> \<not> is_number_char (hd r)) \<and> js_depth p + json_depth (HBI_JSON_ARRAY xs) \<le> HBI_JSON_MAX_DEPTH"
  obtain m where n: "n = Suc m" using A by (cases n) auto
  have rest: "js_rest p = 0x5B # commas (map (json_print num) xs) @ 0x5D # r" using A by simp
  have ws: "skip_ws p = p" using rest by (auto simp: is_ws_def intro: skip_ws_id)
  show "\<exists>k. parse_value td ok n p = Some (Inr (HBI_JSON_ARRAY xs), p\<lparr>js_rest := r, js_allocs := k\<rparr>)"
  proof (cases xs)
    case Nil
    then show ?thesis using A rest ok n ws sep_chars
      by (cases p) (auto simp: parse_container_def at_end_def peek_def jalloc_def advance_def skip_ws_def Let_def)
  next
    case (Cons y ys)
    obtain c s where c: "json_print num y = c # s" "value_head c" using xs Cons by auto
    obtain t where t: "commas (map (json_print num) xs) @ 0x5D # r = c # t" using Cons c(1) by (cases ys) auto
    let ?q = "\<lparr>js_rest = c # t, js_depth = js_depth p + 1, js_allocs = js_allocs p + 2\<rparr>"
    have "\<forall>x \<in> set xs. js_depth ?q + json_depth x \<le> HBI_JSON_MAX_DEPTH"
      using A foldr_max_room [of "js_depth p" json_depth xs HBI_JSON_MAX_DEPTH] by simp
    moreover have "2 * rl ?q + 2 \<le> m" using A n rest t by simp
    ultimately have "\<exists>k. array_loop td ok m 8 [] ?q = Some (Inr (HBI_JSON_ARRAY ([] @ xs)), ?q\<lparr>js_rest := r, js_allocs := k\<rparr>)"
      using xs t [symmetric] Cons by (intro array_loop_print [OF ok]) simp_all
    then obtain k where "array_loop td ok m 8 [] ?q =
        Some (Inr (HBI_JSON_ARRAY xs), \<lparr>js_rest = r, js_depth = js_depth p + 1, js_allocs = k\<rparr>)" by auto
    note cont = container_print [where close = "0x5D" and nil = "HBI_JSON_ARRAY []" and loop = "array_loop td ok m 8 []" and p = p and c = c and s = t
        and b = "0x5B", OF ok _ _ _ this]
    have opened: "at_end p = False" "(HBI_JSON_MAX_DEPTH \<le> js_depth p) = False" "((0x5B :: u8) = 0x7B) = False"
      using A rest by (auto simp: at_end_def)
    have "parse_value td ok n p = Some (Inr (HBI_JSON_ARRAY xs), p\<lparr>js_rest := r, js_allocs := k\<rparr>)"
      unfolding n parse_value.simps ws Let_def [of p] Let_def [of "peek p"] peek_Cons [OF rest] opened
      using cont rest t value_head_ws [OF c(2)] by (simp only: Let_def [of "0x5B :: u8"] opened if_False if_True simp_thms)
    then show ?thesis by blast
  qed
qed

lemma printed_ok_object:
  assumes ok: "\<And>i. ok i" and ms: "\<forall>m \<in> set ms. printed_ok td num ok (snd m) \<and> (\<exists>c r. json_print num (snd m) = c # r \<and> value_head c)"
  shows "printed_ok td num ok (HBI_JSON_OBJECT ms)"
  unfolding printed_ok_def
proof (intro allI impI)
  fix n p r
  assume A: "2 * rl p + 1 \<le> n \<and> js_rest p = json_print num (HBI_JSON_OBJECT ms) @ r \<and>
     (r = [] \<or> \<not> is_number_char (hd r)) \<and> js_depth p + json_depth (HBI_JSON_OBJECT ms) \<le> HBI_JSON_MAX_DEPTH"
  obtain m where n: "n = Suc m" using A by (cases n) auto
  let ?pr = "\<lambda>m. print_string (fst m) @ 0x3A # json_print num (snd m)"
  have rest: "js_rest p = 0x7B # commas (map ?pr ms) @ 0x7D # r" using A by simp
  have ws: "skip_ws p = p" using rest by (auto simp: is_ws_def intro: skip_ws_id)
  show "\<exists>k. parse_value td ok n p = Some (Inr (HBI_JSON_OBJECT ms), p\<lparr>js_rest := r, js_allocs := k\<rparr>)"
  proof (cases ms)
    case Nil
    then show ?thesis using A rest ok n ws sep_chars
      by (cases p) (auto simp: parse_container_def at_end_def peek_def jalloc_def advance_def skip_ws_def Let_def)
  next
    case (Cons y ys)
    obtain t where t: "commas (map ?pr ms) @ 0x7D # r = 0x22 # t" using Cons by (cases ys) (auto simp: print_string_def)
    let ?q = "\<lparr>js_rest = 0x22 # t, js_depth = js_depth p + 1, js_allocs = js_allocs p + 2\<rparr>"
    have "\<forall>m \<in> set ms. js_depth ?q + json_depth (snd m) \<le> HBI_JSON_MAX_DEPTH"
      using A foldr_max_room [of "js_depth p" "json_depth \<circ> snd" ms HBI_JSON_MAX_DEPTH] by simp
    moreover have "2 * rl ?q + 2 \<le> m" using A n rest t by simp
    ultimately have "\<exists>k. object_loop td ok m 8 [] ?q = Some (Inr (HBI_JSON_OBJECT ([] @ ms)), ?q\<lparr>js_rest := r, js_allocs := k\<rparr>)"
      using ms t [symmetric] Cons by (intro object_loop_print [OF ok]) simp_all
    then obtain k where "object_loop td ok m 8 [] ?q =
        Some (Inr (HBI_JSON_OBJECT ms), \<lparr>js_rest = r, js_depth = js_depth p + 1, js_allocs = k\<rparr>)" by auto
    note cont = container_print [where close = "0x7D" and nil = "HBI_JSON_OBJECT []" and loop = "object_loop td ok m 8 []" and p = p and c = "0x22" and s = t
        and b = "0x7B", OF ok _ _ _ this]
    have opened: "at_end p = False" "(HBI_JSON_MAX_DEPTH \<le> js_depth p) = False"
      using A rest by (auto simp: at_end_def)
    have "parse_value td ok n p = Some (Inr (HBI_JSON_OBJECT ms), p\<lparr>js_rest := r, js_allocs := k\<rparr>)"
      unfolding n parse_value.simps ws Let_def [of p] Let_def [of "peek p"] peek_Cons [OF rest] opened
      using cont rest t sep_chars by (simp only: if_False if_True simp_thms) simp
    then show ?thesis by blast
  qed
qed

lemma parse_number_print:
  assumes ok: "\<And>i. ok i" and d: "number_printed td num d" and r: "js_rest p = num d @ r" "r = [] \<or> \<not> is_number_char (hd r)"
  shows "parse_number td ok p = (Inr (HBI_JSON_NUMBER d), p\<lparr>js_rest := r, js_allocs := js_allocs p + 1\<rparr>)"
proof -
  have "\<forall>x \<in> set (num d). is_number_char x" using d by (simp add: number_printed_def list_all_iff)
  then have "takeWhile is_number_char (js_rest p) = num d"
    using r by (cases r) (simp_all add: takeWhile_append2)
  then show ?thesis using ok d r(1)
    by (simp add: parse_number_def number_printed_def advance_def jalloc_def Let_def)
qed

lemma printed_ok_scalar:
  assumes head: "json_print num v = c # s" "value_head c"
    and parse: "\<And>m p r. js_rest p = json_print num v @ r \<Longrightarrow> r = [] \<or> \<not> is_number_char (hd r) \<Longrightarrow>
      js_depth p < HBI_JSON_MAX_DEPTH \<Longrightarrow> skip_ws p = p \<Longrightarrow> peek p = c \<Longrightarrow> \<not> at_end p \<Longrightarrow>
      \<exists>k. parse_value td ok (Suc m) p = Some (Inr v, p\<lparr>js_rest := r, js_allocs := k\<rparr>)"
  shows "printed_ok td num ok v"
  unfolding printed_ok_def
proof (intro allI impI)
  fix n p r
  assume A: "2 * rl p + 1 \<le> n \<and> js_rest p = json_print num v @ r \<and>
     (r = [] \<or> \<not> is_number_char (hd r)) \<and> js_depth p + json_depth v \<le> HBI_JSON_MAX_DEPTH"
  obtain m where n: "n = Suc m" using A by (cases n) auto
  have rest: "js_rest p = c # s @ r" using A head(1) by simp
  moreover have "js_depth p < HBI_JSON_MAX_DEPTH" using A by (cases v) auto
  ultimately show "\<exists>k. parse_value td ok n p = Some (Inr v, p\<lparr>js_rest := r, js_allocs := k\<rparr>)"
    unfolding n using A skip_ws_id [OF rest] value_head_ws [OF head(2)] peek_Cons [OF rest]
    by (intro parse) (auto simp: at_end_def)
qed

lemma printed_ok_number:
  assumes ok: "\<And>i. ok i" and d: "number_printed td num d"
  shows "printed_ok td num ok (HBI_JSON_NUMBER d)"
proof -
  obtain c s where c: "num d = c # s" "c = 0x2D \<or> is_digit c" using d by (auto simp: number_printed_def neq_Nil_conv)
  then have ne: "c \<noteq> 0x7B" "c \<noteq> 0x5B" "c \<noteq> 0x22" "c \<noteq> 0x74" "c \<noteq> 0x66" "c \<noteq> 0x6E"
    by (auto simp: is_digit_def word_le_nat_alt)
  show ?thesis
  proof (rule printed_ok_scalar [of num _ c s])
    show "value_head c" using c(2) by (auto simp: value_head_def)
  qed (use c ne parse_number_print [OF ok d] in \<open>auto simp: is_digit_def Let_def\<close>)
qed

lemma printed_ok_string:
  assumes ok: "\<And>i. ok i"
  shows "printed_ok td num ok (HBI_JSON_STRING s)"
proof (rule printed_ok_scalar [of num _ "0x22" "concat (map escape s) @ [0x22]"])
  fix m p r
  assume "js_rest p = json_print num (HBI_JSON_STRING s) @ r" "js_depth p < HBI_JSON_MAX_DEPTH" "skip_ws p = p" "peek p = 0x22" "\<not> at_end p"
  then show "\<exists>k. parse_value td ok (Suc m) p = Some (Inr (HBI_JSON_STRING s), p\<lparr>js_rest := r, js_allocs := k\<rparr>)"
    using parse_string_print [of ok p s r] ok by (auto simp: jalloc_def Let_def)
qed (simp_all add: print_string_def value_head_def)

lemma parse_literal_print:
  assumes "js_rest p = lit @ r" and "\<And>i. ok i"
  shows "parse_literal ok p lit v = (Inr v, p\<lparr>js_rest := r, js_allocs := js_allocs p + 1\<rparr>)"
  using assms by (simp add: parse_literal_def jalloc_def advance_def Let_def)

lemma printed_ok_literal:
  assumes ok: "\<And>i. ok i"
  shows "printed_ok td num ok HBI_JSON_NULL" "printed_ok td num ok (HBI_JSON_BOOL b)"
proof -
  show "printed_ok td num ok HBI_JSON_NULL"
    by (rule printed_ok_scalar) (auto simp: value_head_def Let_def parse_literal_print [OF _ ok])
  show "printed_ok td num ok (HBI_JSON_BOOL b)"
    by (rule printed_ok_scalar [of num _ "if b then 0x74 else 0x66" "if b then [0x72, 0x75, 0x65] else [0x61, 0x6C, 0x73, 0x65]"])
      (auto simp: value_head_def Let_def parse_literal_print [OF _ ok])
qed

lemma printed_ok_value:
  assumes ok: "\<And>i. ok i"
  shows "\<forall>d \<in> set_hbi_json_value v. number_printed td num d \<Longrightarrow> printed_ok td num ok v"
proof (induction v)
  case (HBI_JSON_NUMBER d)
  then show ?case using printed_ok_number [OF ok] by simp
next
  case (HBI_JSON_ARRAY xs)
  have "\<forall>d \<in> set_hbi_json_value x. number_printed td num d" if "x \<in> set xs" for x using HBI_JSON_ARRAY.prems that by auto
  then show ?case using HBI_JSON_ARRAY.IH json_print_head [of _ td num] by (simp add: printed_ok_array [OF ok])
next
  case (HBI_JSON_OBJECT ms)
  have num: "\<forall>d \<in> set_hbi_json_value (snd m). number_printed td num d" if "m \<in> set ms" for m
    using HBI_JSON_OBJECT.prems that by (cases m) fastforce
  have "printed_ok td num ok (snd m)" if "m \<in> set ms" for m
    using HBI_JSON_OBJECT.IH [OF that, of "snd m"] num [OF that] by (cases m) simp
  then show ?case using num json_print_head [of _ td num] by (simp add: printed_ok_object [OF ok])
qed (use ok in \<open>simp_all add: printed_ok_literal printed_ok_string\<close>)

lemma parse_printed:
  assumes "\<forall>d \<in> set_hbi_json_value v. number_printed td num d" and "json_depth v \<le> HBI_JSON_MAX_DEPTH"
    and "length (json_print num v) \<le> HBI_JSON_MAX_BYTES" and "\<And>i. ok i"
  shows "hbi_json_parse td ok (Some (json_print num v)) = Some (Inr v)"
proof -
  let ?bs = "json_print num v"
  let ?p = "\<lparr>js_rest = ?bs, js_depth = 0, js_allocs = 0\<rparr>"
  have "\<exists>k. parse_value td ok (2 * length ?bs + 2) ?p = Some (Inr v, ?p\<lparr>js_rest := [], js_allocs := k\<rparr>)"
    using printed_ok_value [OF assms(4,1), unfolded printed_ok_def, rule_format, of ?p "2 * length ?bs + 2" "[]"] assms(2) by (simp del: parse_value.simps)
  moreover have "?bs \<noteq> []" using json_print_head [OF assms(1)] by auto
  ultimately show ?thesis
    using assms(3) by (auto simp: hbi_json_parse_def skip_ws_def at_end_def simp del: parse_value.simps)
qed

text \<open>
  C12. Parsing reads back what was printed: for every value nested within the limit, whose numbers
  print to texts that \<open>strtod\<close> converts back, whose printed form is within the size limit, and when
  every allocation succeeds, \<open>hbi_json_parse\<close> of the canonical text gives the value, with every
  string byte for byte, elements and members in order, duplicate keys included.\<close>

theorem json_print_parse:
  assumes "\<forall>d \<in> set_hbi_json_value v. number_printed td num d" and "json_depth v \<le> HBI_JSON_MAX_DEPTH"
    and "length (json_print num v) \<le> HBI_JSON_MAX_BYTES" and "\<And>i. ok i"
  shows "hbi_json_parse td ok (Some (json_print num v)) = Some (Inr v)"
  using parse_printed [OF assms] .

text \<open>At the object \<open>{"a": [-12, true], "n\n": null}\<close>, a number being represented by its own text.\<close>

theorem json_print_parse_witness:
  "hbi_json_parse id (\<lambda>_. True) (Some (json_print id (HBI_JSON_OBJECT
     [([0x61], HBI_JSON_ARRAY [HBI_JSON_NUMBER [0x2D, 0x31, 0x32], HBI_JSON_BOOL True]), ([0x6E, 0x0A], HBI_JSON_NULL)]))) =
   Some (Inr (HBI_JSON_OBJECT
     [([0x61], HBI_JSON_ARRAY [HBI_JSON_NUMBER [0x2D, 0x31, 0x32], HBI_JSON_BOOL True]), ([0x6E, 0x0A], HBI_JSON_NULL)]))"
proof (rule json_print_parse)
  show "json_depth (HBI_JSON_OBJECT
     [([0x61], HBI_JSON_ARRAY [HBI_JSON_NUMBER [0x2D, 0x31, 0x32 :: u8], HBI_JSON_BOOL True]), ([0x6E, 0x0A], HBI_JSON_NULL)])
    \<le> HBI_JSON_MAX_DEPTH" by (simp add: HBI_JSON_MAX_DEPTH_def)
  have n: "number_printed id id [0x2D, 0x31, 0x32]" by code_simp
  show "\<forall>d \<in> set_hbi_json_value (HBI_JSON_OBJECT
     [([0x61], HBI_JSON_ARRAY [HBI_JSON_NUMBER [0x2D, 0x31, 0x32], HBI_JSON_BOOL True]), ([0x6E, 0x0A], HBI_JSON_NULL)]).
    number_printed id id d" using n by simp
  show "length (json_print id (HBI_JSON_OBJECT
     [([0x61], HBI_JSON_ARRAY [HBI_JSON_NUMBER [0x2D, 0x31, 0x32], HBI_JSON_BOOL True]), ([0x6E, 0x0A], HBI_JSON_NULL)]))
    \<le> HBI_JSON_MAX_BYTES" by (simp add: HBI_JSON_MAX_BYTES_def print_string_def escape_def)
qed simp

end
