(* ===== verification/Cstring.thy ===== *)
theory Cstring
  imports Common
begin

text \<open>
  The parts of the C string library that several components use: texts as bytes, and the conversion
  of a text to a number in base ten (\<open>strtoll\<close>, and \<open>strtol\<close> with a 64-bit \<open>long\<close>), with leading white
  space, a sign and saturation. A number that was printed is read back.
\<close>

section \<open>Texts as bytes\<close>

definition ascii :: "string \<Rightarrow> u8 list" where
  "ascii s = map of_char s"

definition text_of :: "u8 list \<Rightarrow> string" where
  "text_of bs = map (\<lambda>b. char_of (unat b)) bs"

lemma text_of_ascii [simp]: "text_of (ascii s) = s"
proof -
  have "char_of (unat (of_char c :: u8)) = c" for c
  proof -
    have "unat (of_char c :: u8) = (of_char c :: nat)"
      using unat_of_nat [of "of_char c", where 'a = 8] of_nat_of_char [of c, where 'a = u8] by simp
    then show ?thesis by simp
  qed
  then show ?thesis by (simp add: text_of_def ascii_def comp_def)
qed

lemma ascii_inj [simp]: "ascii s = ascii t \<longleftrightarrow> s = t"
  using text_of_ascii by metis

lemma ascii_Nil [simp]: "ascii s = [] \<longleftrightarrow> s = []"
  by (simp add: ascii_def)

section \<open>Numbers\<close>

text \<open>
  The number at the start of a text in base ten: sign, magnitude and the text behind it; \<open>None\<close> when
  there is no digit and nothing is consumed.
\<close>

definition is_space :: "char \<Rightarrow> bool" where
  "is_space c \<longleftrightarrow> c = CHR '' '' \<or> c \<in> {CHR 0x09, CHR 0x0A, CHR 0x0B, CHR 0x0C, CHR 0x0D}"

definition digit_of :: "char \<Rightarrow> nat option" where
  "digit_of c = (let k = of_char c :: nat in if 48 \<le> k \<and> k \<le> 57 then Some (k - 48) else None)"

fun magnitude :: "string \<Rightarrow> nat \<Rightarrow> nat" where
  "magnitude [] acc = acc"
| "magnitude (c # cs) acc = (case digit_of c of None \<Rightarrow> acc | Some d \<Rightarrow> magnitude cs (acc * 10 + d))"

definition scan_number :: "string \<Rightarrow> (bool \<times> nat \<times> string) option" where
  "scan_number txt =
     (let s = dropWhile is_space txt;
          neg = (s \<noteq> [] \<and> hd s = CHR ''-'');
          s1 = (if s \<noteq> [] \<and> (hd s = CHR ''-'' \<or> hd s = CHR ''+'') then tl s else s);
          ds = takeWhile (\<lambda>c. digit_of c \<noteq> None) s1 in
      if ds = [] then None else Some (neg, magnitude ds 0, drop (length ds) s1))"

definition strtoll :: "string \<Rightarrow> (int \<times> string) option" where
  "strtoll txt =
     map_option (\<lambda>(neg, n, r). (let v = (if neg then - int n else int n) in
       if v < - (2 ^ 63) then - (2 ^ 63) else if INT64_MAX < v then INT64_MAX else v, r)) (scan_number txt)"

definition strtoull :: "string \<Rightarrow> (u64 \<times> string) option" where
  "strtoull txt =
     map_option (\<lambda>(neg, n, r). (if 2 ^ 64 \<le> n then - 1 else if neg then - word_of_nat n else word_of_nat n, r)) (scan_number txt)"

section \<open>Reading a printed number\<close>

lemma digit_of_char: "d < 10 \<Longrightarrow> digit_of (char_of (d + 48)) = Some d"
  by (simp add: digit_of_def)

lemma digit_plain:
  assumes "digit_of c \<noteq> None"
  shows "\<not> is_space c" and "c \<noteq> CHR ''-''" and "c \<noteq> CHR ''+''"
  using assms by (auto simp: digit_of_def is_space_def Let_def)

lemma show_nat_digits: "c \<in> set (show_nat n) \<Longrightarrow> digit_of c \<noteq> None"
proof (induction n rule: show_nat.induct)
  case (1 n)
  then show ?case
    by (subst (asm) (2) show_nat.simps) (auto simp: digit_of_char split: if_splits)
qed

lemma show_nat_Cons: "show_nat n \<noteq> []"
  by (subst show_nat.simps) simp

lemma magnitude_snoc:
  assumes "\<forall>c \<in> set cs. digit_of c \<noteq> None" and "digit_of c = Some d"
  shows "magnitude (cs @ [c]) acc = magnitude cs acc * 10 + d"
  using assms by (induction cs arbitrary: acc) auto

lemma magnitude_show: "magnitude (show_nat n) 0 = n"
proof (induction n rule: show_nat.induct)
  case (1 n)
  show ?case
  proof (cases "n < 10")
    case True
    then show ?thesis by (subst show_nat.simps) (simp add: digit_of_char)
  next
    case False
    have "magnitude (show_nat (n div 10) @ [char_of (n mod 10 + 48)]) 0 = n div 10 * 10 + n mod 10"
      using 1 False show_nat_digits by (subst magnitude_snoc) (auto simp: digit_of_char)
    then show ?thesis using False by (subst show_nat.simps) simp
  qed
qed

lemma scan_number_show:
  assumes "r = [] \<or> digit_of (hd r) = None"
  shows "scan_number (show_nat n @ r) = Some (False, n, r)"
proof -
  obtain c cs where s: "show_nat n = c # cs" using show_nat_Cons by (meson list.exhaust)
  have c: "digit_of c \<noteq> None" using show_nat_digits [of c n] s by simp
  have "takeWhile (\<lambda>c. digit_of c \<noteq> None) (show_nat n @ r) = show_nat n"
    using assms show_nat_digits by (cases r) (simp_all add: takeWhile_append2 takeWhile_eq_all_conv)
  then show ?thesis
    using digit_plain [OF c] s magnitude_show [of n] by (simp add: scan_number_def)
qed

lemma strtoll_show:
  assumes "r = [] \<or> digit_of (hd r) = None" and "int n \<le> INT64_MAX"
  shows "strtoll (show_nat n @ r) = Some (int n, r)"
  using scan_number_show [OF assms(1), of n] assms(2) by (simp add: strtoll_def Let_def)

end
