(* ===== verification/Safetensors.thy ===== *)
theory Safetensors
  imports Model Json Cstring
begin

text \<open>
  The safetensors format handler (\<open>src/src/model/model_format_safetensors.c\<close>), on top of the JSON
  parser and the manifest.

  \<^item> \<open>fs\<close> is the file system: the bytes of the file at a path, or \<open>None\<close> when it cannot be opened. A
    file is not changed between the steps of a call, and reads of an open file succeed up to its end.
  \<^item> The allocations are flags: \<open>ok_buf\<close> for the header buffer, \<open>ok_json\<close> for those of the parser,
    \<open>ok_add i\<close> and \<open>ok_set i j\<close> for the growth of the manifest and of the metadata at member \<open>i\<close>
    (and \<open>j\<close> of the metadata object).
  \<^item> \<open>to_double\<close> and \<open>value_of\<close> are the conversions of numbers, as in theory \<open>Json\<close>; a result \<open>None\<close> is
    a conversion to \<open>int64_t\<close> that C leaves undefined, or a store behind a table.
\<close>

unbundle bit_operations_syntax

section \<open>Header\<close>

definition SAFETENSORS_MAX_HEADER :: u64 where "SAFETENSORS_MAX_HEADER = 100 * 1024 * 1024"

definition read_le_u64 :: "u8 list \<Rightarrow> u64" where
  "read_le_u64 p =
     ucast (p ! 0) OR push_bit 8 (ucast (p ! 1)) OR push_bit 16 (ucast (p ! 2)) OR
     push_bit 24 (ucast (p ! 3)) OR push_bit 32 (ucast (p ! 4)) OR push_bit 40 (ucast (p ! 5)) OR
     push_bit 48 (ucast (p ! 6)) OR push_bit 56 (ucast (p ! 7))"

text \<open>The text from the last point on, as \<open>strrchr\<close> finds it.\<close>

definition extension :: "string \<Rightarrow> string option" where
  "extension path =
     (if CHR ''.'' \<in> set path then Some (CHR ''.'' # rev (takeWhile (\<lambda>c. c \<noteq> CHR ''.'') (rev path))) else None)"

definition safetensors_detect :: "(string \<rightharpoonup> u8 list) \<Rightarrow> string \<Rightarrow> bool" where
  "safetensors_detect fs path =
     (if extension path \<noteq> Some ''.safetensors'' then False
      else case fs path of
        None \<Rightarrow> False
      | Some f \<Rightarrow>
          if length f < 8 then False
          else let header_len = read_le_u64 f in 0 < header_len \<and> header_len < SAFETENSORS_MAX_HEADER)"

definition map_dtype :: "u8 list ptr \<Rightarrow> hbi_dtype" where
  "map_dtype s =
     (case s of
        None \<Rightarrow> HBI_DTYPE_INVALID
      | Some t \<Rightarrow>
          if t = ascii ''F32'' then HBI_DTYPE_FP32
          else if t = ascii ''F16'' then HBI_DTYPE_FP16
          else if t = ascii ''BF16'' then HBI_DTYPE_BF16
          else if t = ascii ''I8'' \<or> t = ascii ''U8'' \<or> t = ascii ''BOOL'' then HBI_DTYPE_INT8
          else HBI_DTYPE_INVALID)"

text \<open>\<open>ftell\<close> fails, with the value \<open>-1\<close>, on a file whose size is no \<open>long\<close>.\<close>

definition read_header :: "(string \<rightharpoonup> u8 list) \<Rightarrow> bool \<Rightarrow> string \<Rightarrow> (u8 list \<times> u64 \<times> u64) outcome" where
  "read_header fs ok_buf path =
     (case fs path of
        None \<Rightarrow> Inl HBI_ERR_IO
      | Some f \<Rightarrow>
          let file_size = (if int (length f) < 2 ^ 63 then int (length f) else - 1) in
          if file_size < 8 then Inl HBI_ERR_CORRUPT
          else
            let header_len = read_le_u64 f in
            if header_len = 0 \<or> SAFETENSORS_MAX_HEADER \<le> header_len \<or> word_of_int file_size < 8 + header_len
            then Inl HBI_ERR_CORRUPT
            else if \<not> ok_buf then Inl HBI_ERR_OOM
            else
              let json = take (unat header_len) (drop 8 f) in
              if length json \<noteq> unat header_len then Inl HBI_ERR_IO
              else Inr (json, header_len, word_of_int file_size))"

section \<open>Tensor entries\<close>

fun read_dims :: "('d \<Rightarrow> rat option) \<Rightarrow> 'd hbi_json_value list \<Rightarrow> int list outcome option" where
  "read_dims value_of [] = Some (Inr [])"
| "read_dims value_of (v # vs) =
     (case hbi_json_as_int value_of (Some v) of
        None \<Rightarrow> None
      | Some (Inl e) \<Rightarrow> Some (Inl HBI_ERR_CORRUPT)
      | Some (Inr d) \<Rightarrow>
          if d \<le> 0 then Some (Inl HBI_ERR_CORRUPT)
          else map_option (\<lambda>r. rbind r (\<lambda>ds. Inr (d # ds))) (read_dims value_of vs))"

text \<open>The offsets \<open>[begin, end)\<close> of a tensor, relative to the data region.\<close>

definition read_offsets :: "('d \<Rightarrow> rat option) \<Rightarrow> 'd hbi_json_value ptr \<Rightarrow> (int \<times> int) outcome option" where
  "read_offsets value_of offs =
     (if hbi_json_array_count offs \<noteq> 2 then Some (Inl HBI_ERR_CORRUPT)
      else case hbi_json_as_int value_of (hbi_json_array_at offs 0) of
        None \<Rightarrow> None
      | Some (Inl e) \<Rightarrow> Some (Inl HBI_ERR_CORRUPT)
      | Some (Inr b) \<Rightarrow>
          (case hbi_json_as_int value_of (hbi_json_array_at offs 1) of
             None \<Rightarrow> None
           | Some (Inl e) \<Rightarrow> Some (Inl HBI_ERR_CORRUPT)
           | Some (Inr e) \<Rightarrow> Some (if b < 0 \<or> e < b then Inl HBI_ERR_CORRUPT else Inr (b, e))))"

definition parse_tensor_entry ::
  "('d \<Rightarrow> rat option) \<Rightarrow> u8 list \<Rightarrow> 'd hbi_json_value \<Rightarrow> u64 \<Rightarrow> u64 \<Rightarrow> hbi_tensor_entry outcome option" where
  "parse_tensor_entry value_of name obj data_base file_size =
     (let dt = hbi_json_object_get (Some obj) (Some (ascii ''dtype''));
          shape = hbi_json_object_get (Some obj) (Some (ascii ''shape''));
          offs = hbi_json_object_get (Some obj) (Some (ascii ''data_offsets'')) in
      if \<not> hbi_json_is_string dt \<or> \<not> hbi_json_is_array shape \<or> \<not> hbi_json_is_array offs then Some (Inl HBI_ERR_CORRUPT)
      else
        let dtype = map_dtype (hbi_json_as_string dt) in
        if dtype = HBI_DTYPE_INVALID then Some (Inl HBI_ERR_UNSUPPORTED)
        else
          let r = hbi_json_array_count shape in
          if HBI_TENSOR_MAX_RANK < r then Some (Inl HBI_ERR_CORRUPT)
          else
            (case read_dims value_of (map (\<lambda>i. the (hbi_json_array_at shape i)) [0..<r]) of
               None \<Rightarrow> None
             | Some (Inl e) \<Rightarrow> Some (Inl e)
             | Some (Inr ds) \<Rightarrow>
                 (case (if r = 0 then hbi_shape_init_scalar else hbi_shape_init (Some ds) r) of
                    Inl e \<Rightarrow> Some (Inl e)
                  | Inr sh \<Rightarrow>
                      (case read_offsets value_of offs of
                         None \<Rightarrow> None
                       | Some (Inl e) \<Rightarrow> Some (Inl e)
                       | Some (Inr (b, e)) \<Rightarrow>
                           let abs_begin = data_base + word_of_int b; byte_size = word_of_int (e - b) in
                           if file_size < abs_begin + byte_size then Some (Inl HBI_ERR_CORRUPT)
                           else if HBI_TENSOR_NAME_MAX \<le> length name then Some (Inl HBI_ERR_CORRUPT)
                           else Some (Inr \<lparr>te_name = name, te_shape = sh, te_dtype = dtype,
                             te_file_offset = abs_begin, te_byte_size = byte_size,
                             te_required_alignment = hbi_dtype_align dtype, te_shard_index = 0,
                             te_residency = HBI_RESIDENCY_DEFAULT\<rparr>)))))"

section \<open>The header object\<close>

text \<open>The strings of the metadata object; the status of \<open>hbi_model_metadata_set\<close> is ignored.\<close>

fun metadata_loop ::
  "(nat \<Rightarrow> bool) \<Rightarrow> (u8 list \<times> 'd hbi_json_value) list \<Rightarrow> nat \<Rightarrow> hbi_model_metadata \<Rightarrow> hbi_model_metadata option" where
  "metadata_loop ok_set [] j md = Some md"
| "metadata_loop ok_set ((k, v) # ms) j md =
     (case hbi_json_as_string (Some v) of
        None \<Rightarrow> metadata_loop ok_set ms (j + 1) md
      | Some t \<Rightarrow>
          (case hbi_model_metadata_set (ok_set j) (Some md) (Some (c_str k)) (Some t) of
             Some (st, Some md') \<Rightarrow> metadata_loop ok_set ms (j + 1) md'
           | _ \<Rightarrow> None))"

fun members_loop ::
  "('d \<Rightarrow> rat option) \<Rightarrow> (nat \<Rightarrow> bool) \<Rightarrow> (nat \<Rightarrow> nat \<Rightarrow> bool) \<Rightarrow> u64 \<Rightarrow> u64 \<Rightarrow> (u8 list \<times> 'd hbi_json_value) list \<Rightarrow> nat \<Rightarrow>
     hbi_model_manifest \<Rightarrow> hbi_model_metadata \<Rightarrow> (hbi_status \<times> hbi_model_manifest \<times> hbi_model_metadata) option" where
  "members_loop value_of ok_add ok_set data_base file_size [] i man md = Some (HBI_OK, man, md)"
| "members_loop value_of ok_add ok_set data_base file_size ((k, v) # ms) i man md =
     (if c_str k = ascii ''__metadata__'' then
        (case v of
           HBI_JSON_OBJECT kvs \<Rightarrow>
             (case metadata_loop (ok_set i) kvs 0 md of
                None \<Rightarrow> None
              | Some md' \<Rightarrow> members_loop value_of ok_add ok_set data_base file_size ms (i + 1) man md')
         | _ \<Rightarrow> members_loop value_of ok_add ok_set data_base file_size ms (i + 1) man md)
      else if \<not> hbi_json_is_object (Some v) then members_loop value_of ok_add ok_set data_base file_size ms (i + 1) man md
      else
        (case parse_tensor_entry value_of (c_str k) v data_base file_size of
           None \<Rightarrow> None
         | Some (Inl e) \<Rightarrow> Some (e, man, md)
         | Some (Inr entry) \<Rightarrow>
             (case hbi_model_manifest_add (ok_add i) (Some man) (Some entry) of
                Some (st, Some man') \<Rightarrow>
                  if st \<noteq> HBI_OK then Some (st, man', md)
                  else members_loop value_of ok_add ok_set data_base file_size ms (i + 1) man' md
              | _ \<Rightarrow> None)))"

definition safetensors_parse_metadata ::
  "(u8 list \<Rightarrow> 'd) \<Rightarrow> ('d \<Rightarrow> rat option) \<Rightarrow> (string \<rightharpoonup> u8 list) \<Rightarrow> bool \<Rightarrow> (nat \<Rightarrow> bool) \<Rightarrow> (nat \<Rightarrow> bool) \<Rightarrow> (nat \<Rightarrow> nat \<Rightarrow> bool) \<Rightarrow>
     string \<Rightarrow> hbi_model_manifest \<Rightarrow> hbi_model_metadata \<Rightarrow> (hbi_status \<times> hbi_model_manifest \<times> hbi_model_metadata) option" where
  "safetensors_parse_metadata to_double value_of fs ok_buf ok_json ok_add ok_set path man md =
     (case read_header fs ok_buf path of
        Inl e \<Rightarrow> Some (e, man, md)
      | Inr (json, header_len, file_size) \<Rightarrow>
          let data_base = 8 + header_len in
          (case hbi_json_parse to_double ok_json (Some json) of
             None \<Rightarrow> None
           | Some (Inl e) \<Rightarrow> Some (e, man, md)
           | Some (Inr (HBI_JSON_OBJECT ms)) \<Rightarrow>
               members_loop value_of ok_add ok_set data_base file_size ms 0 man md
           | Some (Inr _) \<Rightarrow> Some (HBI_ERR_CORRUPT, man, md)))"

section \<open>Tensor data\<close>

definition safetensors_read_tensor_data ::
  "(string \<rightharpoonup> u8 list) \<Rightarrow> string \<Rightarrow> hbi_tensor_entry \<Rightarrow> nat \<Rightarrow> u8 list outcome" where
  "safetensors_read_tensor_data fs path entry buf_size =
     (if buf_size < unat (te_byte_size entry) then Inl HBI_ERR_INVALID_ARG
      else case fs path of
        None \<Rightarrow> Inl HBI_ERR_IO
      | Some f \<Rightarrow>
          if 2 ^ 63 \<le> unat (te_file_offset entry) then Inl HBI_ERR_IO
          else
            let bytes = take (unat (te_byte_size entry)) (drop (unat (te_file_offset entry)) f) in
            if length bytes \<noteq> unat (te_byte_size entry) then Inl HBI_ERR_IO else Inr bytes)"

definition g_safetensors_handler ::
  "(u8 list \<Rightarrow> 'd) \<Rightarrow> ('d \<Rightarrow> rat option) \<Rightarrow> (string \<rightharpoonup> u8 list) \<Rightarrow> bool \<Rightarrow> (nat \<Rightarrow> bool) \<Rightarrow> (nat \<Rightarrow> bool) \<Rightarrow> (nat \<Rightarrow> nat \<Rightarrow> bool) \<Rightarrow>
     hbi_format_handler" where
  "g_safetensors_handler to_double value_of fs ok_buf ok_json ok_add ok_set =
     \<lparr>fh_name = Some ''safetensors'', fh_format = HBI_MODEL_FORMAT_SAFETENSORS,
      fh_detect = Some (safetensors_detect fs),
      fh_parse_metadata = Some (safetensors_parse_metadata to_double value_of fs ok_buf ok_json ok_add ok_set),
      fh_read_tensor_data = Some (safetensors_read_tensor_data fs)\<rparr>"

definition hbi_format_safetensors_register ::
  "handler_registry \<Rightarrow> hbi_format_handler \<Rightarrow> hbi_status \<times> handler_registry" where
  "hbi_format_safetensors_register reg h = hbi_format_handler_register reg (Some h)"

section \<open>The GGUF skeleton\<close>

text \<open>The handler of \<open>model_format_gguf.c\<close>, which recognises files but parses nothing yet.\<close>

definition GGUF_MAGIC :: "u8 list" where "GGUF_MAGIC = [0x47, 0x47, 0x55, 0x46]"

definition gguf_detect :: "(string \<rightharpoonup> u8 list) \<Rightarrow> string \<Rightarrow> bool" where
  "gguf_detect fs path = (case fs path of None \<Rightarrow> False | Some f \<Rightarrow> if length f < 4 then False else take 4 f = GGUF_MAGIC)"

definition gguf_parse_metadata ::
  "string \<Rightarrow> hbi_model_manifest \<Rightarrow> hbi_model_metadata \<Rightarrow> (hbi_status \<times> hbi_model_manifest \<times> hbi_model_metadata) option" where
  "gguf_parse_metadata path man md = Some (HBI_ERR_UNSUPPORTED, man, md)"

definition gguf_read_tensor_data :: "string \<Rightarrow> hbi_tensor_entry \<Rightarrow> nat \<Rightarrow> u8 list outcome" where
  "gguf_read_tensor_data path entry buf_size = Inl HBI_ERR_UNSUPPORTED"

definition g_gguf_handler :: "(string \<rightharpoonup> u8 list) \<Rightarrow> hbi_format_handler" where
  "g_gguf_handler fs = \<lparr>fh_name = Some ''gguf'', fh_format = HBI_MODEL_FORMAT_GGUF, fh_detect = Some (gguf_detect fs),
     fh_parse_metadata = Some gguf_parse_metadata, fh_read_tensor_data = Some gguf_read_tensor_data\<rparr>"

section \<open>Entries lie inside their file\<close>

text \<open>The bytes of an entry are a part of the file behind its header.\<close>

definition in_file :: "(string \<rightharpoonup> u8 list) \<Rightarrow> string \<Rightarrow> hbi_tensor_entry \<Rightarrow> bool" where
  "in_file fs path e \<longleftrightarrow> (\<exists>f. fs path = Some f \<and> int (length f) < 2 ^ 63 \<and>
     8 \<le> unat (te_file_offset e) \<and> unat (te_file_offset e) + unat (te_byte_size e) \<le> length f)"

lemma as_int_range: "hbi_json_as_int vo v = Some (Inr t) \<Longrightarrow> in_i64 t"
  by (auto simp: hbi_json_as_int_def Let_def split: option.splits hbi_json_value.splits if_splits)

lemma read_offsets_range:
  assumes "read_offsets vo offs = Some (Inr (b, e))"
  shows "0 \<le> b" "b \<le> e" "e < 2 ^ 63"
proof -
  from assms have "0 \<le> b \<and> b \<le> e \<and> hbi_json_as_int vo (hbi_json_array_at offs 1) = Some (Inr e)"
    by (auto simp: read_offsets_def split: option.splits sum.splits if_splits)
  then show "0 \<le> b" "b \<le> e" "e < 2 ^ 63" using as_int_range by (auto simp: in_i64_def)
qed

lemma unat_of_int_small: "0 \<le> x \<Longrightarrow> x < 2 ^ 64 \<Longrightarrow> unat (word_of_int x :: u64) = nat x"
  by (simp add: unat_eq_nat_uint unsigned_of_int take_bit_int_eq_self)

text \<open>The end of a tensor is computed without wrapping, since the header is short.\<close>

lemma offsets_no_wrap:
  assumes "0 \<le> b" "b \<le> e" "e < 2 ^ 63" "unat data_base < 2 ^ 62"
  shows "unat (data_base + word_of_int b :: u64) = unat data_base + nat b"
    "unat (data_base + word_of_int b + word_of_int (e - b) :: u64) = unat data_base + nat e"
    "unat (word_of_int (e - b) :: u64) = nat (e - b)"
proof -
  show d: "unat (word_of_int (e - b) :: u64) = nat (e - b)" using assms by (intro unat_of_int_small) auto
  have b: "unat (word_of_int b :: u64) = nat b" using assms by (intro unat_of_int_small) auto
  show s: "unat (data_base + word_of_int b :: u64) = unat data_base + nat b"
    using assms b by (subst unat_add_lem [THEN iffD1]) auto
  show "unat (data_base + word_of_int b + word_of_int (e - b) :: u64) = unat data_base + nat e"
    using assms s d by (subst unat_add_lem [THEN iffD1]) auto
qed

lemma tensor_entry_in_file:
  assumes "parse_tensor_entry vo name obj data_base file_size = Some (Inr e)"
    and "fs path = Some f" "int (length f) < 2 ^ 63" "file_size = word_of_int (int (length f))"
    and "8 \<le> unat data_base" "unat data_base < 2 ^ 62"
  shows "in_file fs path e"
proof -
  from assms(1) obtain b e' where o: "read_offsets vo (hbi_json_object_get (Some obj) (Some (ascii ''data_offsets''))) = Some (Inr (b, e'))"
    "te_file_offset e = data_base + word_of_int b" "te_byte_size e = word_of_int (e' - b)"
    "\<not> file_size < data_base + word_of_int b + word_of_int (e' - b)"
    unfolding parse_tensor_entry_def Let_def by (auto split: if_splits option.splits sum.splits)
  have r: "0 \<le> b" "b \<le> e'" "e' < 2 ^ 63" using read_offsets_range [OF o(1)] by auto
  note w = offsets_no_wrap [OF r assms(6)]
  have "unat file_size = length f" using assms(3,4) unat_of_int_small [of "int (length f)"] by simp
  then have "unat data_base + nat e' \<le> length f" using o(4) w(2) by (simp add: word_less_nat_alt)
  then show ?thesis unfolding in_file_def using assms(2,3,5) o(2,3) w(1,3) r by auto
qed

lemma read_dims_err: "read_dims vo vs \<noteq> Some (Inl HBI_OK)"
  by (induction vo vs rule: read_dims.induct) (auto simp: res_simps split: option.splits sum.splits)

lemma shape_init_err: "hbi_shape_init ds r \<noteq> Inl HBI_OK" "hbi_shape_init_scalar \<noteq> Inl HBI_OK"
  using dims_scan_err by (auto simp: hbi_shape_init_def hbi_shape_init_scalar_def res_simps split: option.splits)

lemma tensor_entry_err: "parse_tensor_entry vo k v data_base file_size \<noteq> Some (Inl HBI_OK)"
  using read_dims_err shape_init_err
  by (auto simp: parse_tensor_entry_def read_offsets_def Let_def split: option.splits sum.splits if_splits)

lemma json_parse_err: "hbi_json_parse td ok inp \<noteq> Some (Inl HBI_OK)"
  using json_parse_returns [of td ok inp] by auto

lemma members_loop_keeps:
  assumes "members_loop vo ok_add ok_set data_base file_size ms i man md = Some (HBI_OK, man', md')" and "manifest_inv man"
    and "\<And>k v e. parse_tensor_entry vo k v data_base file_size = Some (Inr e) \<Longrightarrow> P e"
  shows "manifest_inv man' \<and> (list_all P (mf_entries man) \<longrightarrow> list_all P (mf_entries man'))"
  using assms(1,2)
proof (induction ms arbitrary: i man md)
  case Nil
  then show ?case by simp
next
  case (Cons kv ms)
  obtain k v where kv: "kv = (k, v)" by (cases kv)
  show ?case
  proof (cases "c_str k = ascii ''__metadata__'' \<or> \<not> hbi_json_is_object (Some v)")
    case True
    then obtain md1 where "members_loop vo ok_add ok_set data_base file_size ms (i + 1) man md1 = Some (HBI_OK, man', md')"
      using Cons.prems(1) kv by (auto split: if_splits hbi_json_value.splits option.splits)
    then show ?thesis by (rule Cons.IH [OF _ Cons.prems(2)])
  next
    case False
    then obtain e man1 where S: "parse_tensor_entry vo (c_str k) v data_base file_size = Some (Inr e)"
      "hbi_model_manifest_add (ok_add i) (Some man) (Some e) = Some (HBI_OK, Some man1)"
      "members_loop vo ok_add ok_set data_base file_size ms (i + 1) man1 md = Some (HBI_OK, man', md')"
      using Cons.prems(1) kv tensor_entry_err [of vo] by (auto split: option.splits sum.splits if_splits)
    have "manifest_inv man1" using manifest_add_inv [OF Cons.prems(2) S(2)] by simp
    moreover have "mf_entries man1 = mf_entries man @ [e]" by (rule manifest_add_cases [OF S(2)]) auto
    ultimately show ?thesis using Cons.IH [OF S(3)] assms(3) [OF S(1)] by simp
  qed
qed

lemma read_header_cases:
  assumes "read_header fs ok path = Inr (json, header_len, file_size)"
  obtains f where "fs path = Some f" "int (length f) < 2 ^ 63" "file_size = word_of_int (int (length f))"
    "8 \<le> unat (8 + header_len)" "unat (8 + header_len) < 2 ^ 62" "json = take (unat header_len) (drop 8 f)"
proof -
  obtain f where f: "fs path = Some f" "int (length f) < 2 ^ 63" "header_len < SAFETENSORS_MAX_HEADER"
    "file_size = word_of_int (int (length f))" "json = take (unat header_len) (drop 8 f)"
    using assms by (auto simp: read_header_def Let_def not_le split: option.splits if_splits)
  have "unat header_len < 104857600" using f(3) by (simp add: SAFETENSORS_MAX_HEADER_def word_less_nat_alt)
  then have "unat (8 + header_len) = 8 + unat header_len" by (subst unat_add_lem [THEN iffD1]) auto
  then show thesis using f \<open>unat header_len < 104857600\<close> by (intro that [of f]) auto
qed

lemma parse_metadata_keeps:
  assumes "safetensors_parse_metadata td vo fs b j a s path man md = Some (HBI_OK, man', md')" and "manifest_inv man"
  shows "manifest_inv man' \<and> (list_all (in_file fs path) (mf_entries man) \<longrightarrow> list_all (in_file fs path) (mf_entries man'))"
proof -
  from assms(1) obtain json header_len file_size ms where h: "read_header fs b path = Inr (json, header_len, file_size)"
    "members_loop vo a s (8 + header_len) file_size ms 0 man md = Some (HBI_OK, man', md')"
    unfolding safetensors_parse_metadata_def Let_def
    using json_parse_err [of td] by (auto simp: read_header_def Let_def split: option.splits sum.splits hbi_json_value.splits if_splits)
  from h(1) show ?thesis
    by (rule read_header_cases) (rule members_loop_keeps [OF h(2) assms(2)], rule tensor_entry_in_file, auto)
qed

interpretation sft: format_parser "safetensors_parse_metadata td vo fs b j a s" "in_file fs" for td vo fs b j a s
proof
  fix m path md m' md'
  assume m: "manifest_inv m" "safetensors_parse_metadata td vo fs b j a s path m md = Some (HBI_OK, m', md')"
  show "manifest_inv m'" using parse_metadata_keeps [OF m(2,1)] by simp
next
  fix m path md m' md'
  assume m: "manifest_inv m" "list_all (in_file fs path) (mf_entries m)"
    "safetensors_parse_metadata td vo fs b j a s path m md = Some (HBI_OK, m', md')"
  show "list_all (in_file fs path) (mf_entries m')" using parse_metadata_keeps [OF m(3,1)] m(2) by simp
qed

section \<open>Writing and loading\<close>

text \<open>
  A writer of safetensors files, against which the parser is checked. A tensor has a name, the text
  of its type, its dimensions and its data; \<open>of_i\<close> makes a number of an integer.
\<close>

type_synonym st_tensor = "u8 list \<times> u8 list \<times> int list \<times> u8 list"

definition le_u64 :: "nat \<Rightarrow> u8 list" where
  "le_u64 n = map (\<lambda>i. word_of_nat (drop_bit (8 * i) n)) [0..<8]"

fun st_members :: "(int \<Rightarrow> 'd) \<Rightarrow> st_tensor list \<Rightarrow> nat \<Rightarrow> (u8 list \<times> 'd hbi_json_value) list" where
  "st_members of_i [] off = []"
| "st_members of_i ((n, dt, ds, bytes) # ts) off =
     (n, HBI_JSON_OBJECT
        [(ascii ''dtype'', HBI_JSON_STRING dt),
         (ascii ''shape'', HBI_JSON_ARRAY (map (\<lambda>d. HBI_JSON_NUMBER (of_i d)) ds)),
         (ascii ''data_offsets'', HBI_JSON_ARRAY [HBI_JSON_NUMBER (of_i (int off)), HBI_JSON_NUMBER (of_i (int (off + length bytes)))])])
     # st_members of_i ts (off + length bytes)"

definition st_data :: "st_tensor list \<Rightarrow> u8 list" where
  "st_data ts = concat (map (\<lambda>(n, dt, ds, bytes). bytes) ts)"

definition st_header :: "('d \<Rightarrow> u8 list) \<Rightarrow> (int \<Rightarrow> 'd) \<Rightarrow> st_tensor list \<Rightarrow> u8 list" where
  "st_header num of_i ts = json_print num (HBI_JSON_OBJECT (st_members of_i ts 0))"

definition st_file :: "('d \<Rightarrow> u8 list) \<Rightarrow> (int \<Rightarrow> 'd) \<Rightarrow> st_tensor list \<Rightarrow> u8 list" where
  "st_file num of_i ts = le_u64 (length (st_header num of_i ts)) @ st_header num of_i ts @ st_data ts"

text \<open>The manifest entries that such a file stands for, \<open>base\<close> being the start of its data region.\<close>

fun st_entries :: "nat \<Rightarrow> st_tensor list \<Rightarrow> hbi_tensor_entry list" where
  "st_entries base [] = []"
| "st_entries base ((n, dt, ds, bytes) # ts) =
     \<lparr>te_name = n, te_shape = \<lparr>rank = length ds, dims = ds @ replicate (HBI_TENSOR_MAX_RANK - length ds) 0\<rparr>,
      te_dtype = map_dtype (Some dt), te_file_offset = word_of_nat base, te_byte_size = word_of_nat (length bytes),
      te_required_alignment = hbi_dtype_align (map_dtype (Some dt)), te_shard_index = 0, te_residency = HBI_RESIDENCY_DEFAULT\<rparr>
     # st_entries (base + length bytes) ts"

text \<open>The integers in the header, and the tensors that can be written.\<close>

fun st_numbers :: "st_tensor list \<Rightarrow> nat \<Rightarrow> int list" where
  "st_numbers [] off = []"
| "st_numbers ((n, dt, ds, bytes) # ts) off = ds @ [int off, int (off + length bytes)] @ st_numbers ts (off + length bytes)"

fun tensor_writable :: "st_tensor \<Rightarrow> bool" where
  "tensor_writable (n, dt, ds, bytes) \<longleftrightarrow>
     n \<noteq> [] \<and> 0 \<notin> set n \<and> length n < HBI_TENSOR_NAME_MAX \<and> n \<noteq> ascii ''__metadata__'' \<and>
     0 \<notin> set dt \<and> map_dtype (Some dt) \<noteq> HBI_DTYPE_INVALID \<and>
     length ds \<le> HBI_TENSOR_MAX_RANK \<and> (\<forall>d \<in> set ds. 0 < d) \<and> prod_list ds < 2 ^ 63 \<and> bytes \<noteq> []"

definition number_exact :: "('d \<Rightarrow> rat option) \<Rightarrow> (int \<Rightarrow> 'd) \<Rightarrow> int \<Rightarrow> bool" where
  "number_exact value_of of_i t \<longleftrightarrow> value_of (of_i t) = Some (of_int t)"

lemma read_le_u64_le: "read_le_u64 (le_u64 n @ r) = word_of_nat n"
proof -
  have *: "le_u64 n = [word_of_nat n, word_of_nat (drop_bit 8 n), word_of_nat (drop_bit 16 n), word_of_nat (drop_bit 24 n),
      word_of_nat (drop_bit 32 n), word_of_nat (drop_bit 40 n), word_of_nat (drop_bit 48 n), word_of_nat (drop_bit 56 n)]"
    by (simp add: le_u64_def upt_rec)
  show ?thesis
  proof (rule bit_word_eqI)
    fix k assume "k < LENGTH(64)"
    then have "k < 64" by simp
    then consider "k < 8" | "8 \<le> k" "k < 16" | "16 \<le> k" "k < 24" | "24 \<le> k" "k < 32" | "32 \<le> k" "k < 40" | "40 \<le> k" "k < 48"
      | "48 \<le> k" "k < 56" | "56 \<le> k" "k < 64" by linarith
    then show "bit (read_le_u64 (le_u64 n @ r)) k \<longleftrightarrow> bit (word_of_nat n :: u64) k"
      by cases (auto simp: read_le_u64_def * bit_simps nth_append)
  qed
qed

lemma as_int_number:
  assumes "number_exact vo of_i t" and "in_i64 t"
  shows "hbi_json_as_int vo (Some (HBI_JSON_NUMBER (of_i t))) = Some (Inr t)"
proof -
  have "(of_int t :: rat) < 2 ^ 63" "- (2 ^ 63) \<le> (of_int t :: rat)"
    using assms(2) by (simp_all add: in_i64_def)
  then show ?thesis using assms by (auto simp: hbi_json_as_int_def number_exact_def Let_def)
qed

lemma read_dims_numbers:
  assumes "\<forall>d \<in> set ds. number_exact vo of_i d \<and> 0 < d \<and> in_i64 d"
  shows "read_dims vo (map (\<lambda>d. HBI_JSON_NUMBER (of_i d)) ds) = Some (Inr ds)"
  using assms by (induction ds) (auto simp: as_int_number)

lemma c_str_id: "0 \<notin> set s \<Longrightarrow> c_str s = s"
  by (auto simp: c_str_def takeWhile_eq_all_conv)

lemma ascii_keys:
  "c_str (ascii ''dtype'') = ascii ''dtype''" "c_str (ascii ''shape'') = ascii ''shape''"
  "c_str (ascii ''data_offsets'') = ascii ''data_offsets''"
  "ascii ''dtype'' \<noteq> ascii ''shape''" "ascii ''dtype'' \<noteq> ascii ''data_offsets''" "ascii ''shape'' \<noteq> ascii ''data_offsets''"
  by (simp_all add: ascii_def c_str_def)

lemma dims_in_i64:
  assumes "\<forall>d \<in> set ds. (0 :: int) < d" and "prod_list ds < 2 ^ 63" and "d \<in> set ds"
  shows "in_i64 d"
proof -
  have "d \<le> prod_list ds"
    using assms(1,3)
  proof (induction ds)
    case (Cons a ds)
    have "1 \<le> prod_list ds" using prod_list_ge_1 [of ds] Cons.prems(1) by force
    moreover have "1 \<le> a" using Cons.prems(1) by force
    ultimately have "a \<le> a * prod_list ds" "prod_list ds \<le> a * prod_list ds"
      using mult_ge_left [of a "prod_list ds"] mult_ge_left [of "prod_list ds" a] by (simp_all add: mult.commute)
    moreover have "d = a \<or> d \<le> prod_list ds" using Cons by auto
    ultimately show ?case using order_trans [of d "prod_list ds" "a * prod_list ds"] by auto
  qed simp
  then show ?thesis using assms by (auto simp: in_i64_def)
qed

lemma tensor_entry_written:
  assumes w: "tensor_writable (n, dt, ds, bytes)"
    and ex: "\<forall>t \<in> set (ds @ [int off, int (off + length bytes)]). number_exact vo of_i t"
    and fit: "unat data_base + off + length bytes \<le> fsz" "fsz < 2 ^ 63"
  shows "parse_tensor_entry vo n (snd (hd (st_members of_i [(n, dt, ds, bytes)] off))) data_base (word_of_nat fsz) =
    Some (Inr (hd (st_entries (unat data_base + off) [(n, dt, ds, bytes)])))"
proof -
  have dims: "read_dims vo (map (\<lambda>d. HBI_JSON_NUMBER (of_i d)) ds) = Some (Inr ds)"
    using w ex dims_in_i64 [of ds] by (intro read_dims_numbers) auto
  have at: "map (\<lambda>i. the (hbi_json_array_at (Some (HBI_JSON_ARRAY xs)) i)) [0..<length xs] = xs" for xs :: "'a hbi_json_value list"
    by (rule nth_equalityI) (simp_all add: hbi_json_array_at_def)
  have sh: "(if length ds = 0 then hbi_shape_init_scalar else hbi_shape_init (Some ds) (length ds)) =
      Inr \<lparr>rank = length ds, dims = ds @ replicate (HBI_TENSOR_MAX_RANK - length ds) 0\<rparr>"
    using w dims_scan_Inr [of 1 ds "prod_list ds"] by (auto simp: hbi_shape_init_def hbi_shape_init_scalar_def)
  let ?offs = "HBI_JSON_ARRAY [HBI_JSON_NUMBER (of_i (int off)), HBI_JSON_NUMBER (of_i (int (off + length bytes)))]"
  have "in_i64 (int off)" "in_i64 (int (off + length bytes))" using fit by (auto simp: in_i64_def)
  then have offs: "read_offsets vo (Some ?offs) = Some (Inr (int off, int (off + length bytes)))"
    using ex as_int_number [of vo of_i] by (simp add: read_offsets_def hbi_json_array_count_def hbi_json_array_at_def)
  have base: "data_base + word_of_int (int off) = word_of_nat (unat data_base + off)" by simp
  have "unat (word_of_nat (unat data_base + off) + word_of_nat (length bytes) :: u64) = unat data_base + off + length bytes"
    using fit by (simp add: unat_word_ariths unsigned_of_nat take_bit_nat_eq_self)
  moreover have "unat (word_of_nat fsz :: u64) = fsz" using fit by (simp add: unsigned_of_nat take_bit_nat_eq_self)
  ultimately have "\<not> word_of_nat fsz < (word_of_nat (unat data_base + off) + word_of_nat (length bytes) :: u64)"
    using fit by (simp add: word_less_nat_alt)
  let ?obj = "snd (hd (st_members of_i [(n, dt, ds, bytes)] off))"
  have get: "hbi_json_object_get (Some ?obj) (Some (ascii ''dtype'')) = Some (HBI_JSON_STRING dt)"
    "hbi_json_object_get (Some ?obj) (Some (ascii ''shape'')) = Some (HBI_JSON_ARRAY (map (\<lambda>d. HBI_JSON_NUMBER (of_i d)) ds))"
    "hbi_json_object_get (Some ?obj) (Some (ascii ''data_offsets'')) = Some ?offs"
    by (simp_all add: hbi_json_object_get_def ascii_keys)
  have str: "hbi_json_as_string (Some (HBI_JSON_STRING dt)) = Some dt" using w by (simp add: hbi_json_as_string_def c_str_id)
  have kinds: "hbi_json_is_string (Some (HBI_JSON_STRING dt))" "hbi_json_is_array (Some (HBI_JSON_ARRAY xs))"
    "hbi_json_array_count (Some (HBI_JSON_ARRAY xs)) = length xs" for xs :: "'a hbi_json_value list"
    by (simp_all add: hbi_json_is_string_def hbi_json_is_array_def hbi_json_array_count_def)
  have diff: "int (off + length bytes) - int off = int (length bytes)" by simp
  have rest: "map_dtype (Some dt) \<noteq> HBI_DTYPE_INVALID" "\<not> HBI_TENSOR_MAX_RANK < length ds" "\<not> HBI_TENSOR_NAME_MAX \<le> length n" using w by auto
  note at' = at [of "map (\<lambda>d. HBI_JSON_NUMBER (of_i d)) ds", unfolded length_map]
  show ?thesis
    unfolding parse_tensor_entry_def get str Let_def kinds length_map at' dims option.case sum.case sh offs prod.case diff base of_int_of_nat_eq
    using rest kinds \<open>\<not> word_of_nat fsz < _\<close> by simp
qed

text \<open>The whole header: the manifest receives the entries, in order, and the metadata is left alone.\<close>

lemma entries_names: "map te_name (st_entries base ts) = map fst ts"
  by (induction base ts rule: st_entries.induct) auto

lemma entries_ok:
  assumes "\<forall>t \<in> set ts. tensor_writable t" and "length (st_data ts) < 2 ^ 63"
  shows "list_all entry_ok (st_entries base ts)"
  using assms
proof (induction base ts rule: st_entries.induct)
  case (2 base n dt ds bytes ts)
  have "length bytes < 2 ^ 63" "length (st_data ts) < 2 ^ 63" using "2.prems"(2) by (auto simp: st_data_def)
  then have "unat (word_of_nat (length bytes) :: u64) = length bytes" by (simp add: unsigned_of_nat take_bit_nat_eq_self)
  moreover have "map_dtype (Some dt) \<noteq> HBI_DTYPE_COUNT" by (simp add: map_dtype_def)
  ultimately show ?case using "2.IH" "2.prems" \<open>length (st_data ts) < 2 ^ 63\<close> \<open>length bytes < 2 ^ 63\<close>
    by (auto simp: entry_ok_def dtype_valid_iff word_less_nat_alt unat_eq_0 [symmetric] simp del: unat_eq_0)
qed simp

lemma members_loop_written:
  assumes "\<forall>t \<in> set ts. tensor_writable t" and "\<forall>x \<in> set (st_numbers ts off). number_exact vo of_i x"
    and "unat data_base + off + length (st_data ts) \<le> fsz" "fsz < 2 ^ 63"
    and "manifest_inv man" "distinct (map te_name (mf_entries man) @ map fst ts)" "length (mf_entries man) + length ts \<le> 2 ^ 31"
    and "\<And>i. ok_add i"
  shows "\<exists>man'. members_loop vo ok_add ok_set data_base (word_of_nat fsz) (st_members of_i ts off) i man md = Some (HBI_OK, man', md) \<and>
    mf_entries man' = mf_entries man @ st_entries (unat data_base + off) ts"
  using assms
proof (induction ts arbitrary: off i man)
  case Nil
  then show ?case by simp
next
  case (Cons t ts)
  obtain n dt ds bytes where t: "t = (n, dt, ds, bytes)" by (cases t)
  let ?e = "hd (st_entries (unat data_base + off) [t])" and ?v = "snd (hd (st_members of_i [t] off))"
  have w: "tensor_writable (n, dt, ds, bytes)" using Cons.prems(1) t by simp
  have parse: "parse_tensor_entry vo n ?v data_base (word_of_nat fsz) = Some (Inr ?e)"
    unfolding t using Cons.prems(2-4) t w by (intro tensor_entry_written) (auto simp: st_data_def)
  have e_ok: "entry_ok ?e" using entries_ok [of "[t]" "unat data_base + off"] Cons.prems(1,3,4) t by (simp add: st_data_def)
  have new: "te_name ?e \<notin> te_name ` set (mf_entries man)" "length (mf_entries man) < 2 ^ 31" using Cons.prems(6,7) t by auto
  obtain man1 where add: "hbi_model_manifest_add (ok_add i) (Some man) (Some ?e) = Some (HBI_OK, Some man1)" "mf_entries man1 = mf_entries man @ [?e]"
    using manifest_add_fresh [OF Cons.prems(5) e_ok new] Cons.prems(8) [of i] by auto
  have "manifest_inv man1" using manifest_add_inv [OF Cons.prems(5) add(1)] by simp
  then have "\<exists>man'. members_loop vo ok_add ok_set data_base (word_of_nat fsz) (st_members of_i ts (off + length bytes)) (i + 1) man1 md =
      Some (HBI_OK, man', md) \<and> mf_entries man' = mf_entries man1 @ st_entries (unat data_base + (off + length bytes)) ts"
    using Cons.prems t add(2) by (intro Cons.IH) (auto simp: st_data_def)
  moreover have "c_str n = n" "n \<noteq> ascii ''__metadata__''" using w by (auto simp: c_str_id)
  ultimately show ?case using parse add t by (auto simp: hbi_json_is_object_def add.assoc)
qed

lemma members_numbers: "set_hbi_json_value (HBI_JSON_OBJECT (st_members of_i ts off)) \<subseteq> of_i ` set (st_numbers ts off)"
proof (induction of_i ts off rule: st_members.induct)
  case (2 of_i n dt ds bytes ts off)
  then show ?case by auto
qed simp

lemma members_depth: "json_depth (HBI_JSON_OBJECT (st_members of_i ts off)) \<le> 4"
proof -
  have "\<forall>m \<in> set (st_members of_i ts off). json_depth (snd m) \<le> 3"
  proof (induction of_i ts off rule: st_members.induct)
    case (2 of_i n dt ds bytes ts off)
    have "foldr max (map json_depth (map (\<lambda>d. HBI_JSON_NUMBER (of_i d)) ds)) 0 \<le> 1" unfolding foldr_max_le by auto
    then show ?case using 2 by (auto simp: comp_def)
  qed simp
  then have "foldr max (map (json_depth \<circ> snd) (st_members of_i ts off)) 0 \<le> 3" unfolding foldr_max_le by simp
  then show ?thesis by simp
qed

lemma read_written:
  assumes "fs path = Some f" and "length f < 2 ^ 63" and "drop base f = st_data ts @ r" and "base \<le> length f"
  shows "list_all2 (\<lambda>e (n, dt, ds, bytes). safetensors_read_tensor_data fs path e (length bytes) = Inr bytes) (st_entries base ts) ts"
  using assms(3,4)
proof (induction base ts rule: st_entries.induct)
  case (2 base n dt ds bytes ts)
  have d: "drop base f = bytes @ st_data ts @ r" using "2.prems"(1) by (simp add: st_data_def)
  have len: "base + length bytes \<le> length f" using arg_cong [OF d, of length] "2.prems"(2) by simp
  have d': "drop (base + length bytes) f = st_data ts @ r" using arg_cong [OF d, of "drop (length bytes)"] by (simp add: add.commute)
  have u: "unat (word_of_nat base :: u64) = base" "unat (word_of_nat (length bytes) :: u64) = length bytes"
    using len assms(2) by (simp_all add: unsigned_of_nat take_bit_nat_eq_self)
  have "base < 2 ^ 63" using len assms(2) by linarith
  then show ?case using "2.IH" [OF d' len] u d assms(1) by (simp add: safetensors_read_tensor_data_def not_le)
qed simp

lemma written_file_loads:
  assumes ts: "\<forall>t \<in> set ts. tensor_writable t" "distinct (map fst ts)" "length ts \<le> 2 ^ 31"
    and num: "\<forall>x \<in> set (st_numbers ts 0). number_exact vo of_i x \<and> number_printed td num (of_i x)"
    and len: "length (st_header num of_i ts) < 100 * 1024 * 1024" "length (st_file num of_i ts) < 2 ^ 63"
    and fs: "fs path = Some (st_file num of_i ts)" and ok: "\<And>i. ok_json i" "\<And>i. ok_add i"
    and man: "manifest_inv man" "mf_entries man = []"
  shows "\<exists>man'. safetensors_parse_metadata td vo fs True ok_json ok_add ok_set path man md = Some (HBI_OK, man', md) \<and>
    mf_entries man' = st_entries (8 + length (st_header num of_i ts)) ts \<and>
    list_all2 (\<lambda>e (n, dt, ds, bytes). safetensors_read_tensor_data fs path e (length bytes) = Inr bytes) (mf_entries man') ts"
proof -
  let ?h = "st_header num of_i ts" and ?f = "st_file num of_i ts"
  let ?L = "length ?h"
  have l8: "length (le_u64 ?L) = 8" by (simp add: le_u64_def)
  have uL: "unat (word_of_nat ?L :: u64) = ?L" "unat (8 + word_of_nat ?L :: u64) = 8 + ?L" "unat (word_of_nat (length ?f) :: u64) = length ?f"
    using len by (simp_all add: unat_word_ariths unsigned_of_nat take_bit_nat_eq_self)
  have lf: "length ?f = 8 + ?L + length (st_data ts)" by (simp add: st_file_def l8)
  have pos: "?L \<noteq> 0" by (simp add: st_header_def)
  have "read_le_u64 ?f = word_of_nat ?L" unfolding st_file_def by (rule read_le_u64_le)
  moreover have "\<not> SAFETENSORS_MAX_HEADER \<le> word_of_nat ?L" using len(1) uL(1) by (simp add: SAFETENSORS_MAX_HEADER_def word_le_nat_alt)
  moreover have "\<not> word_of_nat (length ?f) < (8 + word_of_nat ?L :: u64)" using uL(2,3) lf by (simp add: word_less_nat_alt)
  moreover have "(word_of_nat ?L :: u64) \<noteq> 0" using uL(1) pos by (metis unsigned_0)
  moreover have "take ?L (drop 8 ?f) = ?h" by (simp add: st_file_def l8)
  ultimately have hdr: "read_header fs True path = Inr (?h, word_of_nat ?L, word_of_nat (length ?f))"
    using fs len(2) lf uL(1) by (simp add: read_header_def Let_def)
  have nums: "\<forall>d \<in> set_hbi_json_value (HBI_JSON_OBJECT (st_members of_i ts 0)). number_printed td num d"
    using num members_numbers [of of_i ts 0] by auto
  have json: "hbi_json_parse td ok_json (Some ?h) = Some (Inr (HBI_JSON_OBJECT (st_members of_i ts 0)))"
    unfolding st_header_def
    by (rule parse_printed [OF nums]) (use members_depth [of of_i ts 0] len(1) ok(1) in
        \<open>simp_all add: HBI_JSON_MAX_DEPTH_def HBI_JSON_MAX_BYTES_def st_header_def del: json_depth.simps json_print.simps\<close>)
  have "\<exists>man'. members_loop vo ok_add ok_set (8 + word_of_nat ?L) (word_of_nat (length ?f)) (st_members of_i ts 0) 0 man md =
      Some (HBI_OK, man', md) \<and> mf_entries man' = mf_entries man @ st_entries (unat (8 + word_of_nat ?L :: u64) + 0) ts"
    using ts num lf len(2) man ok(2) uL(2) by (intro members_loop_written) simp_all
  moreover have "drop (8 + ?L) ?f = st_data ts @ []" by (simp add: st_file_def l8)
  then have "list_all2 (\<lambda>e (n, dt, ds, bytes). safetensors_read_tensor_data fs path e (length bytes) = Inr bytes) (st_entries (8 + ?L) ts) ts"
    using read_written [where fs = fs and path = path, OF fs len(2), of "8 + ?L" ts "[]"] lf by simp
  ultimately show ?thesis using hdr json man(2) uL(2) by (auto simp: safetensors_parse_metadata_def)
qed

section \<open>Properties\<close>

text \<open>
  C11. Loading reads back what was written: for every list of tensors with distinct usable names,
  known types, positive dimensions and data, whose numbers print to texts that convert back, the
  parser run on a fresh manifest accepts the written file when memory suffices; the manifest holds
  exactly the entries of the tensors, in order, with shapes, types, offsets and sizes, and reading
  each entry returns the data of its tensor.\<close>

theorem safetensors_written_loads:
  assumes "\<forall>t \<in> set ts. tensor_writable t" and "distinct (map fst ts)" and "length ts \<le> 2 ^ 31"
    and "\<forall>x \<in> set (st_numbers ts 0). number_exact vo of_i x \<and> number_printed td num (of_i x)"
    and "length (st_header num of_i ts) < 100 * 1024 * 1024" and "length (st_file num of_i ts) < 2 ^ 63"
    and "fs path = Some (st_file num of_i ts)" and "\<And>i. ok_json i" and "\<And>i. ok_add i"
    and "hbi_model_manifest_create allocator k = Inr man"
  shows "\<exists>man'. safetensors_parse_metadata td vo fs True ok_json ok_add ok_set path man md = Some (HBI_OK, man', md) \<and>
    mf_entries man' = st_entries (8 + length (st_header num of_i ts)) ts \<and>
    list_all2 (\<lambda>e (n, dt, ds, bytes). safetensors_read_tensor_data fs path e (length bytes) = Inr bytes) (mf_entries man') ts"
  using manifest_create_inv [OF assms(10)] by (intro written_file_loads assms) auto

text \<open>One tensor \<open>w\<close> of two bytes; the numbers of its header have one digit.\<close>

definition demo_num :: "int \<Rightarrow> u8 list" where "demo_num t = [0x30 + word_of_int t]"
definition demo_double :: "u8 list \<Rightarrow> int" where "demo_double s = uint (hd s) - 0x30"
definition demo_value :: "int \<Rightarrow> rat option" where "demo_value t = Some (of_int t)"
definition demo_tensors :: "st_tensor list" where "demo_tensors = [([0x77], [0x55, 0x38], [2], [7, 8])]"
definition demo_fs :: "string \<rightharpoonup> u8 list" where "demo_fs = [''m.safetensors'' \<mapsto> st_file demo_num id demo_tensors]"

lemma demo_number: "number_printed demo_double demo_num t" if "t = 0 \<or> t = 2" for t
  using that by (elim disjE) (simp_all, code_simp+)

lemma demo_ok:
  "\<forall>t \<in> set demo_tensors. tensor_writable t" "distinct (map fst demo_tensors)" "length demo_tensors \<le> 2 ^ 31"
  "\<forall>x \<in> set (st_numbers demo_tensors 0). number_exact demo_value id x \<and> number_printed demo_double demo_num (id x)"
  "length (st_header demo_num id demo_tensors) < 100 * 1024 * 1024" "length (st_file demo_num id demo_tensors) < 2 ^ 63"
  "demo_fs ''m.safetensors'' = Some (st_file demo_num id demo_tensors)"
proof -
  show "\<forall>t \<in> set demo_tensors. tensor_writable t"
    by (simp add: demo_tensors_def HBI_TENSOR_NAME_MAX_def HBI_TENSOR_MAX_RANK_def map_dtype_def ascii_def)
  have "length (st_header demo_num id demo_tensors) = 53"
    by (simp add: st_header_def demo_tensors_def print_string_def escape_def ascii_def demo_num_def)
  then show "length (st_header demo_num id demo_tensors) < 100 * 1024 * 1024" "length (st_file demo_num id demo_tensors) < 2 ^ 63"
    by (simp_all add: st_file_def le_u64_def st_data_def demo_tensors_def)
qed (simp_all add: demo_tensors_def demo_fs_def demo_number number_exact_def demo_value_def)

theorem safetensors_written_loads_witness:
  "\<exists>man'. safetensors_parse_metadata demo_double demo_value demo_fs True (\<lambda>_. True) (\<lambda>_. True) (\<lambda>_ _. True) ''m.safetensors''
      \<lparr>mf_entries = [], mf_capacity = 64\<rparr> \<lparr>md_pairs = [], md_capacity = 32\<rparr> = Some (HBI_OK, man', \<lparr>md_pairs = [], md_capacity = 32\<rparr>) \<and>
    mf_entries man' = st_entries (8 + length (st_header demo_num id demo_tensors)) demo_tensors \<and>
    list_all2 (\<lambda>e (n, dt, ds, bytes). safetensors_read_tensor_data demo_fs ''m.safetensors'' e (length bytes) = Inr bytes) (mf_entries man') demo_tensors"
  by (rule safetensors_written_loads [where ts = demo_tensors and num = demo_num and of_i = id and fs = demo_fs
        and path = "''m.safetensors''" and vo = demo_value and td = demo_double, OF demo_ok, where allocator = "Some (\<lambda>_. True)" and k = 0])
    (simp_all add: hbi_model_manifest_create_def HBI_MANIFEST_INITIAL_CAP_def)

text \<open>
  C10. What a session loaded from a safetensors file promises, for every file content: the load is
  complete, tensor names are distinct and each entry is found by its name; the bytes of every
  tensor lie behind the length field and inside the file, so that reading them into a buffer of the
  recorded size gives exactly that part of the file; the statistics count the entries and add up
  their sizes; and after a strict load every tensor has at least the bytes its shape and type need.\<close>

theorem safetensors_load_safe:
  assumes "hbi_model_load reg now (Some opts) allocator = Some (Inr s)" and "lo_model_path opts = Some path"
    and "ls_handler s = Some (g_safetensors_handler td vo fs ok_buf ok_json ok_add ok_set)"
  shows "ls_state s = HBI_LOAD_STATE_COMPLETE \<and>
    distinct (map te_name (mf_entries (ls_manifest s))) \<and>
    ld_tensors_registered (ls_stats s) = length (mf_entries (ls_manifest s)) \<and>
    ld_bytes_indexed (ls_stats s) = sum_bytes (mf_entries (ls_manifest s)) \<and>
    (\<forall>e \<in> set (mf_entries (ls_manifest s)).
       hbi_model_manifest_find (hbi_load_session_manifest (Some s)) (Some (te_name e)) = Some e \<and>
       (\<exists>f. fs path = Some f \<and> 8 \<le> unat (te_file_offset e) \<and> unat (te_file_offset e) + unat (te_byte_size e) \<le> length f \<and>
          safetensors_read_tensor_data fs path e (unat (te_byte_size e)) =
            Inr (take (unat (te_byte_size e)) (drop (unat (te_file_offset e)) f))) \<and>
       (lo_flags opts AND HBI_LOAD_STRICT \<noteq> 0 \<longrightarrow>
          (\<exists>count n. hbi_shape_elem_count (Some (te_shape e)) = Inr count \<and>
             hbi_dtype_packed_nbytes (te_dtype e) count = Inr n \<and> n \<le> unat (te_byte_size e))))"
proof -
  let ?m = "ls_manifest s"
  have L: "manifest_inv ?m \<and> list_all (in_file fs path) (mf_entries ?m) \<and> ls_state s = HBI_LOAD_STATE_COMPLETE \<and>
     ld_tensors_registered (ls_stats s) = length (mf_entries ?m) \<and> ld_bytes_indexed (ls_stats s) = sum_bytes (mf_entries ?m) \<and>
     (lo_flags opts AND HBI_LOAD_STRICT \<noteq> 0 \<longrightarrow> hbi_model_manifest_validate (Some ?m) = HBI_OK)"
    by (rule sft.load_good [OF assms]) (simp add: g_safetensors_handler_def)
  have data: "\<exists>f. fs path = Some f \<and> 8 \<le> unat (te_file_offset e) \<and> unat (te_file_offset e) + unat (te_byte_size e) \<le> length f \<and>
      safetensors_read_tensor_data fs path e (unat (te_byte_size e)) =
        Inr (take (unat (te_byte_size e)) (drop (unat (te_file_offset e)) f))" if "e \<in> set (mf_entries ?m)" for e
    using L that by (auto simp: list_all_iff in_file_def safetensors_read_tensor_data_def Let_def dest!: bspec)
  have strict: "validate_entry e = HBI_OK" if "e \<in> set (mf_entries ?m)" "lo_flags opts AND HBI_LOAD_STRICT \<noteq> 0" for e
    using L that by (simp add: hbi_model_manifest_validate_def validate_loop_OK list_all_iff)
  have found: "hbi_model_manifest_find (hbi_load_session_manifest (Some s)) (Some (te_name e)) = Some e"
    if "e \<in> set (mf_entries ?m)" for e
    using manifest_find_entry L that by (simp add: hbi_load_session_manifest_def)
  show ?thesis using L data strict [THEN validate_entry_OK] found by (auto simp: manifest_inv_def)
qed

abbreviation demo_handler :: hbi_format_handler where
  "demo_handler \<equiv> g_safetensors_handler demo_double demo_value demo_fs True (\<lambda>_. True) (\<lambda>_. True) (\<lambda>_ _. True)"

abbreviation demo_options :: hbi_load_options where
  "demo_options \<equiv> \<lparr>lo_model_path = Some ''m.safetensors'', lo_format_hint = HBI_MODEL_FORMAT_SAFETENSORS, lo_flags = HBI_LOAD_STRICT\<rparr>"

lemma demo_load:
  "\<exists>s. hbi_model_load [demo_handler] (\<lambda>_. 0) (Some demo_options) (Some (\<lambda>_. True)) = Some (Inr s) \<and> ls_handler s = Some demo_handler"
proof -
  have man: "manifest_inv \<lparr>mf_entries = [], mf_capacity = HBI_MANIFEST_INITIAL_CAP\<rparr>"
    by (simp add: manifest_inv_def table_room_def HBI_MANIFEST_INITIAL_CAP_def)
  obtain man' where P: "safetensors_parse_metadata demo_double demo_value demo_fs True (\<lambda>_. True) (\<lambda>_. True) (\<lambda>_ _. True) ''m.safetensors''
      \<lparr>mf_entries = [], mf_capacity = HBI_MANIFEST_INITIAL_CAP\<rparr> \<lparr>md_pairs = [], md_capacity = HBI_METADATA_INITIAL_CAP\<rparr> =
      Some (HBI_OK, man', \<lparr>md_pairs = [], md_capacity = HBI_METADATA_INITIAL_CAP\<rparr>)"
    "mf_entries man' = st_entries (8 + length (st_header demo_num id demo_tensors)) demo_tensors"
    using written_file_loads [where ts = demo_tensors and num = demo_num and of_i = id and fs = demo_fs
        and path = "''m.safetensors''" and vo = demo_value and td = demo_double and ok_json = "\<lambda>_. True" and ok_add = "\<lambda>_. True",
        OF demo_ok _ _ man] by auto
  have ovf: "mul_ovf_i64 1 2 = Some 2" "mul_ovf_i64 2 8 = Some 16" by (simp_all add: in_i64_def)
  have "hbi_model_manifest_validate (Some man') = HBI_OK"
    using P(2) by (simp add: hbi_model_manifest_validate_def demo_tensors_def Let_def validate_entry_def ovf
        hbi_dtype_packed_nbytes_def map_dtype_def ascii_def dtype_valid_iff hbi_shape_validate_def hbi_shape_elem_count_def HBI_TENSOR_MAX_RANK_def)
  then show ?thesis using P(1)
    by (simp add: hbi_model_load_def load_session_create_def hbi_model_manifest_create_def hbi_model_metadata_create_def
        hbi_format_handler_find_def run_pipeline_def g_safetensors_handler_def Let_def)
qed

theorem safetensors_load_safe_witness:
  "\<exists>s. hbi_model_load [demo_handler] (\<lambda>_. 0) (Some demo_options) (Some (\<lambda>_. True)) = Some (Inr s) \<and>
     ls_state s = HBI_LOAD_STATE_COMPLETE \<and> distinct (map te_name (mf_entries (ls_manifest s)))"
proof -
  obtain s where s: "hbi_model_load [demo_handler] (\<lambda>_. 0) (Some demo_options) (Some (\<lambda>_. True)) = Some (Inr s)" "ls_handler s = Some demo_handler"
    using demo_load by blast
  show ?thesis using safetensors_load_safe [OF s(1) _ s(2)] s(1) by simp
qed

end
