(* ===== verification/Config.thy ===== *)
theory Config
  imports Cstring
begin

text \<open>
  The typed configuration (\<open>src/src/config/config.c\<close>): a schema of descriptors, one entry per
  descriptor with its value and the source it came from, loading from a file, from the environment
  and from key-value pairs, and typed access.

  \<^item> The schema is the list of its descriptors before the terminating one. The tagged union of an entry
    is a datatype; that its tag is the type of the descriptor is an invariant.
  \<^item> \<open>int64_t\<close> is \<open>int\<close> and \<open>uint64_t\<close> is \<open>u64\<close>. The conversions \<open>strtoll\<close> and
    \<open>strtoull\<close> are those of the string library theory.
  \<^item> Copying a string can fail; \<open>ok i\<close> says whether the \<open>i\<close>-th copy of a call succeeds, counted by entry or
    by line. A file is given by what the platform calls return for it.
\<close>

section \<open>Schema and entries\<close>

datatype hbi_config_type = HBI_CFG_BOOL | HBI_CFG_INT | HBI_CFG_UINT | HBI_CFG_STRING

datatype hbi_config_source = HBI_CFG_SRC_DEFAULT | HBI_CFG_SRC_FILE | HBI_CFG_SRC_ENV | HBI_CFG_SRC_SET

fun source_rank :: "hbi_config_source \<Rightarrow> nat" where
  "source_rank HBI_CFG_SRC_DEFAULT = 0"
| "source_rank HBI_CFG_SRC_FILE = 1"
| "source_rank HBI_CFG_SRC_ENV = 2"
| "source_rank HBI_CFG_SRC_SET = 3"

lemma source_rank_inj: "source_rank a = source_rank b \<longleftrightarrow> a = b"
  by (cases a; cases b) simp_all

instantiation hbi_config_source :: linorder
begin

definition less_eq_hbi_config_source :: "hbi_config_source \<Rightarrow> hbi_config_source \<Rightarrow> bool" where
  "less_eq_hbi_config_source a b \<longleftrightarrow> source_rank a \<le> source_rank b"

definition less_hbi_config_source :: "hbi_config_source \<Rightarrow> hbi_config_source \<Rightarrow> bool" where
  "less_hbi_config_source a b \<longleftrightarrow> source_rank a < source_rank b"

instance
  by standard (auto simp: less_eq_hbi_config_source_def less_hbi_config_source_def source_rank_inj)

end

fun hbi_config_type_str :: "hbi_config_type \<Rightarrow> string" where
  "hbi_config_type_str HBI_CFG_BOOL = ''bool''"
| "hbi_config_type_str HBI_CFG_INT = ''int''"
| "hbi_config_type_str HBI_CFG_UINT = ''uint''"
| "hbi_config_type_str HBI_CFG_STRING = ''string''"

fun hbi_config_source_str :: "hbi_config_source \<Rightarrow> string" where
  "hbi_config_source_str HBI_CFG_SRC_DEFAULT = ''default''"
| "hbi_config_source_str HBI_CFG_SRC_FILE = ''file''"
| "hbi_config_source_str HBI_CFG_SRC_ENV = ''env''"
| "hbi_config_source_str HBI_CFG_SRC_SET = ''set''"

record hbi_config_desc =
  cd_key :: string
  cd_type :: hbi_config_type
  cd_env :: "string ptr"
  cd_def_bool :: bool
  cd_def_int :: int
  cd_def_uint :: u64
  cd_def_string :: "string ptr"
  cd_min_int :: int
  cd_max_int :: int
  cd_min_uint :: u64
  cd_max_uint :: u64

datatype cfg_val = Cfg_Bool bool | Cfg_Int int | Cfg_Uint u64 | Cfg_String string

record hbi_config_entry =
  ce_desc :: hbi_config_desc
  ce_source :: hbi_config_source
  ce_val :: cfg_val

type_synonym hbi_config = "hbi_config_entry list"

section \<open>Assignment\<close>

definition find_entry :: "hbi_config \<Rightarrow> string \<Rightarrow> hbi_config_entry ptr" where
  "find_entry cfg key = find (\<lambda>e. cd_key (ce_desc e) = key) cfg"









section \<open>Lifecycle\<close>






section \<open>Loading\<close>










section \<open>Access\<close>













definition hbi_config_source_of :: "hbi_config ptr \<Rightarrow> string ptr \<Rightarrow> hbi_config_source" where
  "hbi_config_source_of cfg key =
     (case (cfg, key) of
        (Some c, Some k) \<Rightarrow> (case find_entry c k of None \<Rightarrow> HBI_CFG_SRC_DEFAULT | Some e \<Rightarrow> ce_source e)
      | _ \<Rightarrow> HBI_CFG_SRC_DEFAULT)"

section \<open>Values stay typed and bounded\<close>

definition int_bounded :: "hbi_config_desc \<Rightarrow> int \<Rightarrow> bool" where
  "int_bounded d v \<longleftrightarrow> cd_min_int d = 0 \<and> cd_max_int d = 0 \<or> cd_min_int d \<le> v \<and> v \<le> cd_max_int d"

definition uint_bounded :: "hbi_config_desc \<Rightarrow> u64 \<Rightarrow> bool" where
  "uint_bounded d v \<longleftrightarrow> cd_min_uint d = 0 \<and> cd_max_uint d = 0 \<or> cd_min_uint d \<le> v \<and> v \<le> cd_max_uint d"

definition value_ok :: "hbi_config_desc \<Rightarrow> cfg_val \<Rightarrow> bool" where
  "value_ok d v =
     (case v of
        Cfg_Bool _ \<Rightarrow> cd_type d = HBI_CFG_BOOL
      | Cfg_Int i \<Rightarrow> cd_type d = HBI_CFG_INT \<and> int_bounded d i
      | Cfg_Uint u \<Rightarrow> cd_type d = HBI_CFG_UINT \<and> uint_bounded d u
      | Cfg_String _ \<Rightarrow> cd_type d = HBI_CFG_STRING)"





text \<open>The value that a text denotes for a descriptor; assigning a text stores it.\<close>

definition text_value :: "hbi_config_desc \<Rightarrow> string \<Rightarrow> cfg_val option" where
  "text_value d t =
     (case cd_type d of
        HBI_CFG_BOOL \<Rightarrow>
          if t = ''1'' \<or> t = ''true'' \<or> t = ''on'' \<or> t = ''yes'' then Some (Cfg_Bool True)
          else if t = ''0'' \<or> t = ''false'' \<or> t = ''off'' \<or> t = ''no'' then Some (Cfg_Bool False) else None
      | HBI_CFG_INT \<Rightarrow>
          (case strtoll t of Some (v, []) \<Rightarrow> if int_bounded d v then Some (Cfg_Int v) else None | _ \<Rightarrow> None)
      | HBI_CFG_UINT \<Rightarrow>
          if t \<noteq> [] \<and> hd t = CHR ''-'' then None
          else (case strtoull t of Some (v, []) \<Rightarrow> if uint_bounded d v then Some (Cfg_Uint v) else None | _ \<Rightarrow> None)
      | HBI_CFG_STRING \<Rightarrow> Some (Cfg_String t))"






text \<open>Entries before and after an operation: same descriptors, values kept valid, sources not lowered.\<close>

definition cfg_le :: "hbi_config \<Rightarrow> hbi_config \<Rightarrow> bool" where
  "cfg_le a b \<longleftrightarrow> list_all2 (\<lambda>e e'. ce_desc e' = ce_desc e \<and>
     (value_ok (ce_desc e) (ce_val e) \<longrightarrow> value_ok (ce_desc e) (ce_val e')) \<and> ce_source e \<le> ce_source e') a b"

lemma cfg_le_refl [simp]: "cfg_le a a"
  by (simp add: cfg_le_def list_all2_refl)






















section \<open>Precedence\<close>












definition line_entry :: "string \<Rightarrow> string \<Rightarrow> hbi_config_entry \<Rightarrow> hbi_config_entry" where
  "line_entry k t e =
     (if cd_key (ce_desc e) = k \<and> \<not> HBI_CFG_SRC_FILE < ce_source e
      then (case text_value (ce_desc e) t of None \<Rightarrow> e | Some v \<Rightarrow> e\<lparr>ce_val := v, ce_source := HBI_CFG_SRC_FILE\<rparr>) else e)"

lemma line_entry_simps [simp]:
  "ce_desc (line_entry k t e) = ce_desc e" "HBI_CFG_SRC_FILE < ce_source (line_entry k t e) \<longleftrightarrow> HBI_CFG_SRC_FILE < ce_source e"
  by (auto simp: line_entry_def split: option.splits)
















end
