(* ===== verification/Threadpool.thy ===== *)
theory Threadpool
  imports Common Fifo "HOL-Library.Multiset"
begin

text \<open>
  The worker pool (src/threadpool): a bounded ring of tasks guarded by one mutex, worker threads
  that take tasks from it, and client threads that submit tasks, wait for quiescence and destroy
  the pool.

  \<^item> A thread is represented by its program counter. Everything a thread does between locking
    and unlocking (or waiting on a condition variable, which unlocks) is one step; the steps of
    different threads interleave arbitrarily.
  \<^item> The three condition variables are represented by the program counters that sleep on them.
    \<open>hbi_cond_signal\<close> wakes one sleeper of the scheduler's choice when there is one, a broadcast
    wakes all, and a thread may wake spuriously at any time, as POSIX allows.
  \<^item> A task is a pair of addresses; running it is one step that records it in \<open>executed\<close>. What the
    task does with its argument is the caller's. The ghost fields \<open>submitted\<close> and \<open>taken\<close> record
    the accepted tasks and the dequeued ones in their order.
  \<^item> \<open>size_t\<close> fields are \<open>nat\<close>: the ring was allocated, so twice its capacity is below the range,
    and \<open>pending\<close> is at most the capacity plus the number of threads. \<open>completed\<close> is a 64-bit word.
\<close>

section \<open>The pool\<close>

record task =
  task_fn :: nat
  task_arg :: nat

record hbi_threadpool =
  tp_queue :: "task list"
  tp_capacity :: nat
  tp_head :: nat
  tp_count :: nat
  tp_pending :: nat
  tp_num_workers :: nat
  tp_shutting_down :: bool
  tp_completed :: u64

datatype worker_pc =
    W_Top \<comment> \<open>about to lock, or woken and about to test the wait condition again\<close>
  | W_Wait \<comment> \<open>asleep on \<open>not_empty\<close>\<close>
  | W_Run task
  | W_Mark task \<comment> \<open>the task has returned\<close>
  | W_Exit

datatype client_pc =
    C_Done hbi_status \<comment> \<open>outside the pool, with the status of its last call\<close>
  | C_Submit task bool \<comment> \<open>about to lock in \<open>enqueue\<close>, or woken there\<close>
  | C_Full task \<comment> \<open>asleep on \<open>not_full\<close>\<close>
  | C_Wait \<comment> \<open>about to test \<open>pending\<close> in \<open>hbi_threadpool_wait\<close>\<close>
  | C_Idle \<comment> \<open>asleep on \<open>idle\<close>\<close>
  | C_Destroy
  | C_Join nat

record pool_system =
  pool :: hbi_threadpool
  workers :: "worker_pc list"
  clients :: "client_pc list"
  submitted :: "task list"
  taken :: "task list"
  executed :: "task list"
  freed :: bool

subsection \<open>Creation\<close>

text \<open>
  The flags are the outcomes of the allocations, of the four initialisations of synchronisation
  objects and of the thread creations. When a thread cannot be created the source shuts the
  started ones down and joins them; nothing was submitted, so they exit.
\<close>

record create_env =
  struct_ok :: bool
  queue_ok :: bool
  workers_ok :: bool
  mutex_ok :: bool
  not_empty_ok :: bool
  not_full_ok :: bool
  idle_ok :: bool
  thread_ok :: "nat \<Rightarrow> bool"

definition hbi_threadpool_create :: "create_env \<Rightarrow> bool \<Rightarrow> int \<Rightarrow> nat \<Rightarrow> hbi_threadpool outcome" where
  "hbi_threadpool_create env out num_workers queue_capacity =
     (if \<not> out then Inl HBI_ERR_INVALID_ARG
      else
        let n = nat (if num_workers < 1 then 1 else num_workers);
            cap = (if queue_capacity < 1 then 1 else queue_capacity) in
        if \<not> struct_ok env then Inl HBI_ERR_OOM
        else if \<not> queue_ok env \<or> \<not> workers_ok env then Inl HBI_ERR_OOM
        else if \<not> mutex_ok env \<or> \<not> not_empty_ok env \<or> \<not> not_full_ok env \<or> \<not> idle_ok env
          then Inl HBI_ERR_OOM
        else if list_ex (\<lambda>i. \<not> thread_ok env i) [0..<n] then Inl HBI_ERR_AGAIN
        else Inr \<lparr>tp_queue = replicate cap \<lparr>task_fn = 0, task_arg = 0\<rparr>, tp_capacity = cap,
               tp_head = 0, tp_count = 0, tp_pending = 0, tp_num_workers = n,
               tp_shutting_down = False, tp_completed = 0\<rparr>)"

text \<open>The system right after creation, with \<open>m\<close> client threads.\<close>

definition pool_start :: "hbi_threadpool \<Rightarrow> nat \<Rightarrow> pool_system" where
  "pool_start p m = \<lparr>pool = p, workers = replicate (tp_num_workers p) W_Top,
     clients = replicate m (C_Done HBI_OK), submitted = [], taken = [], executed = [], freed = False\<rparr>"

subsection \<open>Condition variables\<close>

text \<open>\<open>signal\<close> wakes the sleeper at index \<open>k\<close>, which must be one unless nobody sleeps.\<close>

definition signal :: "('p \<Rightarrow> bool) \<Rightarrow> ('p \<Rightarrow> 'p) \<Rightarrow> nat \<Rightarrow> 'p list \<Rightarrow> 'p list option" where
  "signal asleep wake k ps =
     (if \<not> list_ex asleep ps then Some ps
      else if k < length ps \<and> asleep (ps ! k) then Some (ps[k := wake (ps ! k)])
      else None)"

definition broadcast :: "('p \<Rightarrow> bool) \<Rightarrow> ('p \<Rightarrow> 'p) \<Rightarrow> 'p list \<Rightarrow> 'p list" where
  "broadcast asleep wake ps = map (\<lambda>p. if asleep p then wake p else p) ps"

fun on_not_empty :: "worker_pc \<Rightarrow> bool" where
  "on_not_empty W_Wait = True"
| "on_not_empty _ = False"

fun on_not_full :: "client_pc \<Rightarrow> bool" where
  "on_not_full (C_Full t) = True"
| "on_not_full _ = False"

fun on_idle :: "client_pc \<Rightarrow> bool" where
  "on_idle C_Idle = True"
| "on_idle _ = False"

fun wake_worker :: "worker_pc \<Rightarrow> worker_pc" where
  "wake_worker W_Wait = W_Top"
| "wake_worker w = w"

fun wake_client :: "client_pc \<Rightarrow> client_pc" where
  "wake_client (C_Full t) = C_Submit t True"
| "wake_client C_Idle = C_Wait"
| "wake_client c = c"

subsection \<open>Critical sections\<close>

text \<open>The worker's section: it sleeps, returns, or dequeues one task.\<close>

datatype worker_outcome = Sleep | Return | Take task hbi_threadpool

definition worker_section :: "hbi_threadpool \<Rightarrow> worker_outcome" where
  "worker_section p =
     (if tp_count p = 0 \<and> \<not> tp_shutting_down p then Sleep
      else if tp_count p = 0 \<and> tp_shutting_down p then Return
      else Take (tp_queue p ! tp_head p)
             (p\<lparr>tp_head := (tp_head p + 1) mod tp_capacity p, tp_count := tp_count p - 1\<rparr>))"

text \<open>
  The section of \<open>enqueue\<close>. The tests after waking on \<open>not_full\<close> are those of the entry, in the
  same order. \<open>Inl None\<close> is going to sleep, \<open>Inl (Some st)\<close> returning \<open>st\<close> without enqueueing.
\<close>

definition enqueue :: "hbi_threadpool \<Rightarrow> task \<Rightarrow> bool \<Rightarrow> hbi_status option + hbi_threadpool" where
  "enqueue p t block =
     (if tp_shutting_down p then Inl (Some HBI_ERR_STATE)
      else if tp_count p = tp_capacity p then
        (if \<not> block then Inl (Some HBI_ERR_AGAIN) else Inl None)
      else
        let tail = (tp_head p + tp_count p) mod tp_capacity p in
        Inr (p\<lparr>tp_queue := (tp_queue p)[tail := t], tp_count := tp_count p + 1,
               tp_pending := tp_pending p + 1\<rparr>))"

text \<open>The guards of the two entry points; \<open>Inr\<close> is the call of \<open>enqueue\<close>.\<close>

definition submit_call :: "bool \<Rightarrow> bool \<Rightarrow> nat option \<Rightarrow> nat \<Rightarrow> client_pc" where
  "submit_call block has_pool fn arg =
     (case fn of
        None \<Rightarrow> C_Done HBI_ERR_INVALID_ARG
      | Some f \<Rightarrow>
          if \<not> has_pool then C_Done HBI_ERR_INVALID_ARG
          else C_Submit \<lparr>task_fn = f, task_arg = arg\<rparr> block)"

definition hbi_threadpool_submit :: "bool \<Rightarrow> nat option \<Rightarrow> nat \<Rightarrow> client_pc" where
  "hbi_threadpool_submit = submit_call True"

definition hbi_threadpool_try_submit :: "bool \<Rightarrow> nat option \<Rightarrow> nat \<Rightarrow> client_pc" where
  "hbi_threadpool_try_submit = submit_call False"

definition hbi_threadpool_wait :: "bool \<Rightarrow> client_pc" where
  "hbi_threadpool_wait has_pool = (if \<not> has_pool then C_Done HBI_OK else C_Wait)"

definition hbi_threadpool_destroy :: "bool \<Rightarrow> client_pc" where
  "hbi_threadpool_destroy has_pool = (if \<not> has_pool then C_Done HBI_OK else C_Destroy)"

definition hbi_threadpool_worker_count :: "hbi_threadpool ptr \<Rightarrow> nat" where
  "hbi_threadpool_worker_count p = (case p of None \<Rightarrow> 0 | Some p \<Rightarrow> tp_num_workers p)"

definition hbi_threadpool_completed_count :: "hbi_threadpool ptr \<Rightarrow> u64" where
  "hbi_threadpool_completed_count p = (case p of None \<Rightarrow> 0 | Some p \<Rightarrow> tp_completed p)"

section \<open>Steps\<close>

datatype action =
    A_Lock nat nat \<comment> \<open>worker, client woken by the signal\<close>
  | A_Run nat
  | A_Mark nat
  | A_Spurious_Worker nat
  | A_Spurious_Client nat
  | A_Call nat client_pc
  | A_Enqueue nat nat \<comment> \<open>client, worker woken by the signal\<close>
  | A_Wait nat
  | A_Destroy nat
  | A_Join nat

definition set_worker :: "nat \<Rightarrow> worker_pc \<Rightarrow> pool_system \<Rightarrow> pool_system" where
  "set_worker i w s = s\<lparr>workers := (workers s)[i := w]\<rparr>"

definition set_client :: "nat \<Rightarrow> client_pc \<Rightarrow> pool_system \<Rightarrow> pool_system" where
  "set_client c pc s = s\<lparr>clients := (clients s)[c := pc]\<rparr>"

definition worker_lock :: "nat \<Rightarrow> nat \<Rightarrow> pool_system \<Rightarrow> pool_system option" where
  "worker_lock i k s =
     (case worker_section (pool s) of
        Sleep \<Rightarrow> Some (set_worker i W_Wait s)
      | Return \<Rightarrow> Some (set_worker i W_Exit s)
      | Take t p \<Rightarrow>
          (case signal on_not_full wake_client k (clients s) of
             None \<Rightarrow> None
           | Some cs \<Rightarrow> Some (set_worker i (W_Run t)
               (s\<lparr>pool := p, clients := cs, taken := taken s @ [t]\<rparr>))))"

definition worker_run :: "nat \<Rightarrow> task \<Rightarrow> pool_system \<Rightarrow> pool_system" where
  "worker_run i t s = set_worker i (W_Mark t)
     (s\<lparr>pool := (pool s)\<lparr>tp_completed := tp_completed (pool s) + 1\<rparr>, executed := executed s @ [t]\<rparr>)"

definition worker_mark :: "nat \<Rightarrow> pool_system \<Rightarrow> pool_system" where
  "worker_mark i s =
     (let p = (pool s)\<lparr>tp_pending := tp_pending (pool s) - 1\<rparr> in
      set_worker i W_Top
        (s\<lparr>pool := p,
           clients := (if tp_pending p = 0 then broadcast on_idle wake_client (clients s) else clients s)\<rparr>))"

definition client_enqueue :: "nat \<Rightarrow> nat \<Rightarrow> task \<Rightarrow> bool \<Rightarrow> pool_system \<Rightarrow> pool_system option" where
  "client_enqueue c k t block s =
     (case enqueue (pool s) t block of
        Inl None \<Rightarrow> Some (set_client c (C_Full t) s)
      | Inl (Some st) \<Rightarrow> Some (set_client c (C_Done st) s)
      | Inr p \<Rightarrow>
          (case signal on_not_empty wake_worker k (workers s) of
             None \<Rightarrow> None
           | Some ws \<Rightarrow> Some (set_client c (C_Done HBI_OK)
               (s\<lparr>pool := p, workers := ws, submitted := submitted s @ [t]\<rparr>))))"

definition client_wait :: "nat \<Rightarrow> pool_system \<Rightarrow> pool_system" where
  "client_wait c s = set_client c (if tp_pending (pool s) > 0 then C_Idle else C_Done HBI_OK) s"

definition client_destroy :: "nat \<Rightarrow> pool_system \<Rightarrow> pool_system" where
  "client_destroy c s = set_client c (C_Join 0)
     (s\<lparr>pool := (pool s)\<lparr>tp_shutting_down := True\<rparr>,
        workers := broadcast on_not_empty wake_worker (workers s)\<rparr>)"

text \<open>A join blocks until its worker has returned; after the last one the pool is freed.\<close>

definition client_join :: "nat \<Rightarrow> nat \<Rightarrow> pool_system \<Rightarrow> pool_system option" where
  "client_join c j s =
     (if j < tp_num_workers (pool s) then
        (if workers s ! j = W_Exit then Some (set_client c (C_Join (j + 1)) s) else None)
      else Some (set_client c (C_Done HBI_OK) (s\<lparr>freed := True\<rparr>)))"

fun is_call :: "client_pc \<Rightarrow> bool" where
  "is_call (C_Submit t b) = True"
| "is_call C_Wait = True"
| "is_call C_Destroy = True"
| "is_call (C_Done st) = True"
| "is_call _ = False"

text \<open>
  One step of the system; \<open>None\<close> when the thread is not at that point, is blocked, or the pool has
  been freed.
\<close>

fun pool_step :: "action \<Rightarrow> pool_system \<Rightarrow> pool_system option" where
  "pool_step (A_Lock i k) s =
     (if freed s \<or> i \<ge> length (workers s) then None
      else case workers s ! i of W_Top \<Rightarrow> worker_lock i k s | _ \<Rightarrow> None)"
| "pool_step (A_Run i) s =
     (if freed s \<or> i \<ge> length (workers s) then None
      else case workers s ! i of W_Run t \<Rightarrow> Some (worker_run i t s) | _ \<Rightarrow> None)"
| "pool_step (A_Mark i) s =
     (if freed s \<or> i \<ge> length (workers s) then None
      else case workers s ! i of W_Mark t \<Rightarrow> Some (worker_mark i s) | _ \<Rightarrow> None)"
| "pool_step (A_Spurious_Worker i) s =
     (if freed s \<or> i \<ge> length (workers s) then None
      else Some (set_worker i (wake_worker (workers s ! i)) s))"
| "pool_step (A_Spurious_Client c) s =
     (if freed s \<or> c \<ge> length (clients s) then None
      else Some (set_client c (wake_client (clients s ! c)) s))"
| "pool_step (A_Call c pc) s =
     (if freed s \<or> c \<ge> length (clients s) then None
      else case clients s ! c of
          C_Done st \<Rightarrow> (if is_call pc then Some (set_client c pc s) else None)
        | _ \<Rightarrow> None)"
| "pool_step (A_Enqueue c k) s =
     (if freed s \<or> c \<ge> length (clients s) then None
      else case clients s ! c of C_Submit t b \<Rightarrow> client_enqueue c k t b s | _ \<Rightarrow> None)"
| "pool_step (A_Wait c) s =
     (if freed s \<or> c \<ge> length (clients s) then None
      else case clients s ! c of C_Wait \<Rightarrow> Some (client_wait c s) | _ \<Rightarrow> None)"
| "pool_step (A_Destroy c) s =
     (if freed s \<or> c \<ge> length (clients s) then None
      else case clients s ! c of C_Destroy \<Rightarrow> Some (client_destroy c s) | _ \<Rightarrow> None)"
| "pool_step (A_Join c) s =
     (if freed s \<or> c \<ge> length (clients s) then None
      else case clients s ! c of C_Join j \<Rightarrow> client_join c j s | _ \<Rightarrow> None)"

fun pool_run :: "action list \<Rightarrow> pool_system \<Rightarrow> pool_system option" where
  "pool_run [] s = Some s"
| "pool_run (a # as) s = (case pool_step a s of None \<Rightarrow> None | Some s' \<Rightarrow> pool_run as s')"

inductive pool_reach :: "pool_system \<Rightarrow> bool" where
  start: "hbi_threadpool_create env True n cap = Inr p \<Longrightarrow> pool_reach (pool_start p m)"
| step: "pool_reach s \<Longrightarrow> pool_step a s = Some s' \<Longrightarrow> pool_reach s'"

section \<open>Invariants\<close>

fun run_task :: "worker_pc \<Rightarrow> task multiset" where
  "run_task (W_Run t) = {#t#}"
| "run_task _ = {#}"

fun busy :: "worker_pc \<Rightarrow> nat" where
  "busy (W_Run t) = 1"
| "busy (W_Mark t) = 1"
| "busy _ = 0"

text \<open>Blocking submitters that are awake inside \<open>enqueue\<close>.\<close>

fun retrying :: "client_pc \<Rightarrow> nat" where
  "retrying (C_Submit t b) = (if b then 1 else 0)"
| "retrying _ = 0"

definition running :: "pool_system \<Rightarrow> task multiset" where
  "running s = sum_list (map run_task (workers s))"

definition queued :: "pool_system \<Rightarrow> task list" where
  "queued s = slots (tp_queue (pool s)) (tp_head (pool s)) (tp_count (pool s))"

definition ring_inv :: "hbi_threadpool \<Rightarrow> bool" where
  "ring_inv p \<longleftrightarrow> 0 < tp_capacity p \<and> length (tp_queue p) = tp_capacity p \<and>
     tp_head p < tp_capacity p \<and> tp_count p \<le> tp_capacity p"

definition account_inv :: "pool_system \<Rightarrow> bool" where
  "account_inv s \<longleftrightarrow> ring_inv (pool s) \<and> submitted s = taken s @ queued s \<and>
     mset (taken s) = mset (executed s) + running s \<and>
     tp_pending (pool s) = tp_count (pool s) + sum_list (map busy (workers s)) \<and>
     tp_completed (pool s) = of_nat (length (executed s))"

text \<open>No wakeup is lost: who sleeps is right to sleep, or somebody awake will serve them.\<close>

definition sleep_inv :: "pool_system \<Rightarrow> bool" where
  "sleep_inv s \<longleftrightarrow>
     (W_Wait \<in> set (workers s) \<longrightarrow> \<not> tp_shutting_down (pool s)) \<and>
     (0 < tp_count (pool s) \<longrightarrow> (\<exists>w \<in> set (workers s). w \<noteq> W_Wait)) \<and>
     (C_Idle \<in> set (clients s) \<longrightarrow> 0 < tp_pending (pool s)) \<and>
     (\<not> tp_shutting_down (pool s) \<longrightarrow> list_ex on_not_full (clients s) \<longrightarrow>
        tp_capacity (pool s) \<le> tp_count (pool s) + sum_list (map retrying (clients s)))"

definition exit_inv :: "pool_system \<Rightarrow> bool" where
  "exit_inv s \<longleftrightarrow> workers s \<noteq> [] \<and> tp_num_workers (pool s) = length (workers s) \<and>
     (W_Exit \<in> set (workers s) \<longrightarrow> tp_shutting_down (pool s) \<and> tp_count (pool s) = 0) \<and>
     (\<forall>j. C_Join j \<in> set (clients s) \<longrightarrow> tp_shutting_down (pool s) \<and> j \<le> length (workers s) \<and>
        (\<forall>i < j. workers s ! i = W_Exit)) \<and>
     (freed s \<longrightarrow> set (workers s) = {W_Exit})"

lemmas pool_update_defs = set_worker_def set_client_def worker_lock_def worker_run_def worker_mark_def
  client_enqueue_def client_wait_def client_destroy_def client_join_def worker_section_def enqueue_def Let_def

lemma sum_list_upd:
  fixes f :: "'a \<Rightarrow> 'b :: comm_monoid_add"
  shows "i < length xs \<Longrightarrow> sum_list (map f (xs[i := y])) + f (xs ! i) = sum_list (map f xs) + f y"
proof (induction xs arbitrary: i)
  case (Cons x xs)
  then show ?case by (cases i) (auto simp: ac_simps)
qed simp

lemma sum_list_upd_same:
  "i < length xs \<Longrightarrow> f y = f (xs ! i) \<Longrightarrow> sum_list (map f (xs[i := y])) = sum_list (map f xs)"
  by (metis list_update_id map_update)

lemma set_update_cases: "x \<in> set (xs[i := y]) \<Longrightarrow> x = y \<or> x \<in> set xs"
  using set_update_subset_insert [of xs i y] by auto

lemma mem_update: "i < length xs \<Longrightarrow> xs ! i \<noteq> x \<Longrightarrow> x \<in> set (xs[i := y]) \<longleftrightarrow> x = y \<or> x \<in> set xs"
  by (metis in_set_conv_nth length_list_update nth_list_update set_update_cases set_update_memI)

lemma broadcast_sum:
  "(\<And>p. asleep p \<Longrightarrow> f (wake p) = f p) \<Longrightarrow>
    sum_list (map f (broadcast asleep wake ps)) = sum_list (map f ps)"
  by (simp add: broadcast_def comp_def if_distrib [of f] cong: if_cong)

lemma signal_cases:
  assumes "signal asleep wake k ps = Some qs"
  shows "\<not> list_ex asleep ps \<and> qs = ps \<or> k < length ps \<and> asleep (ps ! k) \<and> qs = ps[k := wake (ps ! k)]"
  using assms unfolding signal_def by (simp split: if_split_asm)

lemma signal_sum:
  assumes "signal asleep wake k ps = Some qs" and "\<And>p. asleep p \<Longrightarrow> f (wake p) = f p"
  shows "sum_list (map f qs) = sum_list (map f ps)"
  using signal_cases [OF assms(1)] sum_list_upd_same [of k ps f "wake (ps ! k)"] assms(2) [of "ps ! k"] by auto

lemma on_not_emptyD: "on_not_empty w \<Longrightarrow> w = W_Wait"
  by (cases w) auto

lemma on_not_fullD: "on_not_full c \<Longrightarrow> \<exists>t. c = C_Full t"
  by (cases c) auto

lemma on_idleD: "on_idle c \<Longrightarrow> c = C_Idle"
  by (cases c) auto

lemma wake_kind [simp]:
  "busy (wake_worker w) = busy w" "run_task (wake_worker w) = run_task w"
  by (cases w; simp)+

lemma wake_idle [simp]: "on_not_full (if on_idle c then wake_client c else c) = on_not_full c"
  by (cases c) auto

section \<open>Every step keeps the accounts\<close>

lemma account_worker_lock:
  assumes "account_inv s" and "i < length (workers s)" and "workers s ! i = W_Top"
    and "worker_lock i k s = Some s'"
  shows "account_inv s'"
proof (cases "worker_section (pool s)")
  case (Take t p)
  then obtain cs where s': "s' = set_worker i (W_Run t) (s\<lparr>pool := p, clients := cs, taken := taken s @ [t]\<rparr>)"
    using assms(4) by (auto simp: worker_lock_def split: option.splits)
  have p: "t = tp_queue (pool s) ! tp_head (pool s)" "0 < tp_count (pool s)"
    "p = (pool s)\<lparr>tp_head := (tp_head (pool s) + 1) mod tp_capacity (pool s), tp_count := tp_count (pool s) - 1\<rparr>"
    using Take by (auto simp: worker_section_def split: if_splits)
  have r: "ring_inv (pool s)" using assms(1) by (simp add: account_inv_def)
  have q: "queued s = t # queued s'"
    using p r slots_Suc [of "tp_queue (pool s)" "tp_head (pool s)" "tp_count (pool s) - 1"]
    by (simp add: queued_def s' set_worker_def ring_inv_def)
  show ?thesis
    using assms(1-3) p(2,3) q sum_list_upd [of i "workers s" busy "W_Run t"]
      sum_list_upd [of i "workers s" run_task "W_Run t"]
    by (auto simp: account_inv_def s' set_worker_def ring_inv_def running_def)
qed (use assms in \<open>auto simp: worker_lock_def account_inv_def set_worker_def running_def queued_def sum_list_upd_same\<close>)

lemma account_client_enqueue:
  assumes "account_inv s" and "client_enqueue c k t b s = Some s'"
  shows "account_inv s'"
proof (cases "enqueue (pool s) t b")
  case (Inr p)
  then obtain ws where ws: "signal on_not_empty wake_worker k (workers s) = Some ws"
    and s': "s' = set_client c (C_Done HBI_OK) (s\<lparr>pool := p, workers := ws, submitted := submitted s @ [t]\<rparr>)"
    using assms(2) by (auto simp: client_enqueue_def split: option.splits)
  have r: "ring_inv (pool s)" using assms(1) by (simp add: account_inv_def)
  have p: "tp_count (pool s) < tp_capacity (pool s)"
    "p = (pool s)\<lparr>tp_queue := (tp_queue (pool s))[(tp_head (pool s) + tp_count (pool s)) mod tp_capacity (pool s) := t],
       tp_count := tp_count (pool s) + 1, tp_pending := tp_pending (pool s) + 1\<rparr>"
    using Inr r by (auto simp: enqueue_def Let_def ring_inv_def split: if_splits)
  have q: "queued s' = queued s @ [t]"
    using p r slots_push [of "tp_count (pool s)" "tp_queue (pool s)" "tp_head (pool s)" t]
    by (simp add: queued_def s' set_client_def ring_inv_def)
  have "sum_list (map busy ws) = sum_list (map busy (workers s))"
    "sum_list (map run_task ws) = sum_list (map run_task (workers s))"
    by (rule signal_sum [OF ws]; simp)+
  then show ?thesis using assms(1) p q
    by (auto simp: account_inv_def s' set_client_def ring_inv_def running_def)
qed (use assms in \<open>auto simp: client_enqueue_def account_inv_def set_client_def running_def queued_def
      split: option.splits\<close>)

lemma account_step:
  assumes "account_inv s" and "pool_step a s = Some s'"
  shows "account_inv s'"
proof (cases a)
  case (A_Lock i k)
  then show ?thesis using assms account_worker_lock [of s i k s']
    by (auto split: if_splits worker_pc.splits)
next
  case (A_Run i)
  then obtain t where "i < length (workers s)" "workers s ! i = W_Run t" "s' = worker_run i t s"
    using assms(2) by (auto split: if_splits worker_pc.splits)
  then show ?thesis using assms(1) sum_list_upd [of i "workers s" run_task "W_Mark t"]
    by (auto simp: account_inv_def worker_run_def set_worker_def running_def queued_def ring_inv_def sum_list_upd_same)
next
  case (A_Mark i)
  then obtain t where "i < length (workers s)" "workers s ! i = W_Mark t" "s' = worker_mark i s"
    using assms(2) by (auto split: if_splits worker_pc.splits)
  then show ?thesis using assms(1) sum_list_upd [of i "workers s" busy "W_Top"]
    by (auto simp: account_inv_def worker_mark_def set_worker_def running_def queued_def ring_inv_def
      sum_list_upd_same Let_def)
next
  case (A_Enqueue c k)
  then show ?thesis using assms account_client_enqueue [OF assms(1), of c k _ _ s']
    by (auto split: if_splits client_pc.splits)
qed (use assms in \<open>auto simp: account_inv_def client_wait_def client_destroy_def client_join_def set_client_def
      set_worker_def running_def queued_def ring_inv_def sum_list_upd_same broadcast_sum
      split: if_splits client_pc.splits\<close>)

section \<open>No wakeup is lost\<close>

lemma sum_list_upd_nat:
  fixes f :: "'a \<Rightarrow> nat"
  shows "i < length xs \<Longrightarrow> sum_list (map f (xs[i := y])) = sum_list (map f xs) + f y - f (xs ! i)"
  using sum_list_upd [of i xs f y] by simp

lemma list_ex_update: "i < length xs \<Longrightarrow> \<not> P (xs ! i) \<Longrightarrow> list_ex P (xs[i := y]) \<longleftrightarrow> P y \<or> list_ex P xs"
  by (metis (mono_tags, lifting) list_ex_iff mem_update set_update_cases set_update_memI)

lemma signal_set: "signal asleep wake k ps = Some qs \<Longrightarrow> x \<in> set qs \<Longrightarrow>
    x \<in> set ps \<or> (\<exists>p \<in> set ps. asleep p \<and> x = wake p)"
  by (auto dest!: signal_cases set_update_cases intro: nth_mem)

lemma broadcast_set: "x \<in> set (broadcast asleep wake ps) \<Longrightarrow>
    x \<in> set ps \<and> \<not> asleep x \<or> (\<exists>p \<in> set ps. asleep p \<and> x = wake p)"
  by (auto simp: broadcast_def split: if_splits)

lemma sleep_worker_lock:
  assumes "sleep_inv s" and "i < length (workers s)" and "workers s ! i = W_Top"
    and "worker_lock i k s = Some s'"
  shows "sleep_inv s'"
proof (cases "worker_section (pool s)")
  case (Take t p)
  then obtain cs where cs: "signal on_not_full wake_client k (clients s) = Some cs"
    and s': "s' = set_worker i (W_Run t) (s\<lparr>pool := p, clients := cs, taken := taken s @ [t]\<rparr>)"
    using assms(4) by (auto simp: worker_lock_def split: option.splits)
  have p: "0 < tp_count (pool s)"
    "p = (pool s)\<lparr>tp_head := (tp_head (pool s) + 1) mod tp_capacity (pool s), tp_count := tp_count (pool s) - 1\<rparr>"
    using Take by (auto simp: worker_section_def split: if_splits)
  have idle: "C_Idle \<in> set cs \<Longrightarrow> C_Idle \<in> set (clients s)"
    using signal_set [OF cs, of C_Idle] by (auto dest!: on_not_fullD)
  have full: "list_ex on_not_full cs \<Longrightarrow> list_ex on_not_full (clients s) \<and>
    sum_list (map retrying cs) = sum_list (map retrying (clients s)) + 1"
    using signal_cases [OF cs] by (auto simp: sum_list_upd_nat list_ex_iff dest!: on_not_fullD intro!: bexI [OF _ nth_mem])
  show ?thesis
    using assms(1-3) p idle full
    by (auto simp: sleep_inv_def s' set_worker_def mem_update intro!: bexI [OF _ set_update_memI])
next
  case Sleep
  then have "tp_count (pool s) = 0" "\<not> tp_shutting_down (pool s)" "s' = set_worker i W_Wait s"
    using assms(4) by (auto simp: worker_lock_def worker_section_def split: if_splits)
  then show ?thesis using assms(1) by (auto simp: sleep_inv_def set_worker_def)
next
  case Return
  then have "tp_count (pool s) = 0" "s' = set_worker i W_Exit s"
    using assms(4) by (auto simp: worker_lock_def worker_section_def split: if_splits)
  then show ?thesis using assms(1-3) by (auto simp: sleep_inv_def set_worker_def mem_update)
qed

lemma sleep_client_enqueue:
  assumes "sleep_inv s" and "exit_inv s" and "c < length (clients s)" and "clients s ! c = C_Submit t b"
    and "client_enqueue c k t b s = Some s'"
  shows "sleep_inv s'"
proof (cases "enqueue (pool s) t b")
  case (Inl r)
  then have e: "tp_shutting_down (pool s) \<or> tp_count (pool s) = tp_capacity (pool s) \<and> (b \<longrightarrow> r = None)"
    and s': "s' = set_client c (case r of None \<Rightarrow> C_Full t | Some st \<Rightarrow> C_Done st) s"
    using assms(5) by (auto simp: enqueue_def client_enqueue_def Let_def split: if_splits option.splits)
  show ?thesis
    using assms(1,3,4) e
    by (cases r; cases b) (auto simp add: sleep_inv_def s' set_client_def mem_update list_ex_update sum_list_upd_nat)
next
  case (Inr p)
  then obtain ws where ws: "signal on_not_empty wake_worker k (workers s) = Some ws"
    and s': "s' = set_client c (C_Done HBI_OK) (s\<lparr>pool := p, workers := ws, submitted := submitted s @ [t]\<rparr>)"
    using assms(5) by (auto simp: client_enqueue_def split: option.splits)
  have p: "\<not> tp_shutting_down p" "tp_count p = tp_count (pool s) + 1" "tp_pending p = tp_pending (pool s) + 1"
    "tp_capacity p = tp_capacity (pool s)" "tp_shutting_down (pool s) = tp_shutting_down p"
    using Inr by (auto simp: enqueue_def Let_def split: if_splits)
  have "workers s \<noteq> []" using assms(2) by (simp add: exit_inv_def)
  then have w: "\<exists>w \<in> set ws. w \<noteq> W_Wait"
    using signal_cases [OF ws]
    by (auto simp: list_ex_iff dest!: on_not_emptyD intro!: bexI [OF _ set_update_memI])
       (metis list.set_intros(1) neq_Nil_conv on_not_empty.simps(1))
  show ?thesis
    using assms(1,3,4) p w
    by (auto simp: sleep_inv_def s' set_client_def sum_list_upd_nat mem_update list_ex_update)
qed

lemma wake_client_sleep:
  assumes "sleep_inv s" and "c < length (clients s)"
  shows "sleep_inv (set_client c (wake_client (clients s ! c)) s)"
proof (cases "clients s ! c")
  case (C_Full t)
  then have "list_ex on_not_full (clients s)" using assms(2) by (metis list_ex_length on_not_full.simps(1))
  then show ?thesis using assms C_Full
    by (auto simp: sleep_inv_def set_client_def mem_update sum_list_upd_nat)
next
  case C_Idle
  then have "C_Idle \<in> set (clients s)" using assms(2) nth_mem by metis
  then show ?thesis using assms C_Idle
    by (auto simp: sleep_inv_def set_client_def list_ex_update sum_list_upd_nat)
qed (use assms list_update_id [of "clients s" c] in \<open>simp_all add: set_client_def\<close>)

lemma sleep_step:
  assumes "sleep_inv s" and "account_inv s" and "exit_inv s" and "pool_step a s = Some s'"
  shows "sleep_inv s'"
proof (cases a)
  case (A_Lock i k)
  then show ?thesis using assms sleep_worker_lock [of s i k s']
    by (auto split: if_splits worker_pc.splits)
next
  case (A_Run i)
  then obtain t where "i < length (workers s)" "workers s ! i = W_Run t" "s' = worker_run i t s"
    using assms(4) by (auto split: if_splits worker_pc.splits)
  then show ?thesis using assms(1)
    by (auto simp: sleep_inv_def worker_run_def set_worker_def mem_update intro!: bexI [OF _ set_update_memI])
next
  case (A_Mark i)
  then obtain t where "i < length (workers s)" "workers s ! i = W_Mark t" "s' = worker_mark i s"
    using assms(4) by (auto split: if_splits worker_pc.splits)
  moreover have "C_Idle \<notin> set (broadcast on_idle wake_client (clients s))"
    by (auto dest!: broadcast_set on_idleD)
  moreover have "list_ex on_not_full (broadcast on_idle wake_client (clients s)) = list_ex on_not_full (clients s)"
    by (simp add: list_ex_length broadcast_def wake_idle cong: conj_cong)
  moreover have "sum_list (map retrying (broadcast on_idle wake_client (clients s))) =
    sum_list (map retrying (clients s))" by (rule broadcast_sum) (auto dest: on_idleD)
  ultimately show ?thesis using assms(1)
    by (auto simp: sleep_inv_def worker_mark_def set_worker_def Let_def mem_update intro!: bexI [OF _ set_update_memI])
next
  case (A_Spurious_Worker i)
  then have i: "i < length (workers s)" and s': "s' = set_worker i (wake_worker (workers s ! i)) s"
    using assms(4) by (auto split: if_splits)
  show ?thesis
  proof (cases "workers s ! i = W_Wait")
    case True
    then have "W_Wait \<in> set (workers s)" using i nth_mem by metis
    then show ?thesis using assms(1) i True
      by (auto simp: sleep_inv_def s' set_worker_def intro!: bexI [OF _ set_update_memI])
  next
    case False
    then have "wake_worker (workers s ! i) = workers s ! i" by (cases "workers s ! i") auto
    then show ?thesis using assms(1) by (simp add: s' set_worker_def)
  qed
next
  case (A_Spurious_Client c)
  then show ?thesis using assms wake_client_sleep [of s c] by (auto split: if_splits)
next
  case (A_Call c pc)
  then obtain st where "c < length (clients s)" "clients s ! c = C_Done st" "is_call pc" "s' = set_client c pc s"
    using assms(4) by (auto split: if_splits client_pc.splits)
  then show ?thesis using assms(1)
    by (cases pc) (auto simp: sleep_inv_def set_client_def mem_update list_ex_update sum_list_upd_nat)
next
  case (A_Enqueue c k)
  then show ?thesis using assms sleep_client_enqueue [OF assms(1,3), of c _ _ k s']
    by (auto split: if_splits client_pc.splits)
next
  case (A_Wait c)
  then have "c < length (clients s)" "clients s ! c = C_Wait" "s' = client_wait c s"
    using assms(4) by (auto split: if_splits client_pc.splits)
  then show ?thesis using assms(1)
    by (auto simp: sleep_inv_def client_wait_def set_client_def mem_update list_ex_update sum_list_upd_nat)
next
  case (A_Destroy c)
  then have "c < length (clients s)" "clients s ! c = C_Destroy" "s' = client_destroy c s"
    using assms(4) by (auto split: if_splits client_pc.splits)
  moreover have "W_Wait \<notin> set (broadcast on_not_empty wake_worker (workers s))"
    by (auto dest!: broadcast_set on_not_emptyD)
  moreover have "\<exists>w. w \<in> set (broadcast on_not_empty wake_worker (workers s))"
    using assms(3) by (simp add: exit_inv_def broadcast_def ex_in_conv del: set_map)
  ultimately have "\<exists>w \<in> set (workers s'). w \<noteq> W_Wait" "W_Wait \<notin> set (workers s')" "tp_shutting_down (pool s')"
    "C_Idle \<in> set (clients s') \<longleftrightarrow> C_Idle \<in> set (clients s)" "tp_pending (pool s') = tp_pending (pool s)"
    by (simp_all add: client_destroy_def set_client_def mem_update) metis
  then show ?thesis using assms(1) by (simp add: sleep_inv_def)
next
  case (A_Join c)
  then obtain j where "c < length (clients s)" "clients s ! c = C_Join j" "client_join c j s = Some s'"
    using assms(4) by (auto split: if_splits client_pc.splits)
  then show ?thesis using assms(1)
    by (auto simp: sleep_inv_def client_join_def set_client_def mem_update list_ex_update sum_list_upd_nat
      split: if_splits)
qed

section \<open>Workers leave only an empty pool\<close>

lemma keep_exited:
  assumes "\<forall>i < j. ws ! i = W_Exit" and "ws ! k \<noteq> W_Exit"
  shows "\<forall>i < j. ws[k := w] ! i = W_Exit"
  using assms by (metis nth_list_update_neq)

lemma exit_set_worker:
  assumes "exit_inv s" and "i < length (workers s)" and "workers s ! i \<noteq> W_Exit"
    and "w = W_Exit \<Longrightarrow> tp_shutting_down (pool s) \<and> tp_count (pool s) = 0"
  shows "exit_inv (set_worker i w s)"
proof -
  have "W_Exit \<in> set (workers s)" if "set (workers s) = {W_Exit}" using that by simp
  moreover have "set (workers s) \<noteq> {W_Exit}" using assms(2,3) nth_mem by force
  ultimately show ?thesis
    using assms by (auto simp: exit_inv_def set_worker_def mem_update keep_exited)
qed

lemma exit_set_client:
  assumes "exit_inv s" and "\<And>j. pc = C_Join j \<Longrightarrow> pc \<in> set (clients s)"
  shows "exit_inv (set_client c pc s)"
proof -
  have "\<forall>j. C_Join j \<in> set ((clients s)[c := pc]) \<longrightarrow> C_Join j \<in> set (clients s)"
    using assms(2) set_update_cases by metis
  then show ?thesis using assms(1) unfolding exit_inv_def set_client_def by auto
qed

lemma exit_pool:
  assumes "exit_inv s" and "workers s' = workers s" and "freed s' = freed s"
    and "tp_num_workers (pool s') = tp_num_workers (pool s)"
    and "tp_shutting_down (pool s') = tp_shutting_down (pool s)" and "tp_count (pool s') \<le> tp_count (pool s)"
    and "\<And>j. C_Join j \<in> set (clients s') \<Longrightarrow> C_Join j \<in> set (clients s)"
  shows "exit_inv s'"
  using assms unfolding exit_inv_def by auto

lemma exit_wake_worker:
  assumes "exit_inv s"
  shows "exit_inv (s\<lparr>workers := broadcast on_not_empty wake_worker (workers s)\<rparr>)"
    and "signal on_not_empty wake_worker k (workers s) = Some ws \<Longrightarrow> exit_inv (s\<lparr>workers := ws\<rparr>)"
proof -
  have w: "wake_worker w = W_Exit \<longleftrightarrow> w = W_Exit" "W_Exit = wake_worker w \<longleftrightarrow> w = W_Exit" for w
    by (cases w; simp)+
  show "exit_inv (s\<lparr>workers := broadcast on_not_empty wake_worker (workers s)\<rparr>)"
    using assms by (auto simp: exit_inv_def broadcast_def w split: if_splits)
  show "exit_inv (s\<lparr>workers := ws\<rparr>)" if "signal on_not_empty wake_worker k (workers s) = Some ws"
    using signal_cases [OF that] exit_set_worker [OF assms, of k W_Top] assms
    by (auto simp: set_worker_def dest: on_not_emptyD)
qed

lemma exit_step:
  assumes "exit_inv s" and "pool_step a s = Some s'"
  shows "exit_inv s'"
proof (cases a)
  case (A_Lock i k)
  then have i: "i < length (workers s)" "workers s ! i = W_Top" "worker_lock i k s = Some s'"
    using assms(2) by (auto split: if_splits worker_pc.splits)
  show ?thesis
  proof (cases "worker_section (pool s)")
    case (Take t p)
    then obtain cs where cs: "signal on_not_full wake_client k (clients s) = Some cs"
      and s': "s' = set_worker i (W_Run t) (s\<lparr>pool := p, clients := cs, taken := taken s @ [t]\<rparr>)"
      using i(3) by (auto simp: worker_lock_def split: option.splits)
    have j: "C_Join j \<in> set (clients s)" if "C_Join j \<in> set cs" for j
      using signal_set [OF cs that] by (auto dest!: on_not_fullD)
    have p: "p = (pool s)\<lparr>tp_head := (tp_head (pool s) + 1) mod tp_capacity (pool s), tp_count := tp_count (pool s) - 1\<rparr>"
      using Take by (auto simp: worker_section_def split: if_splits)
    have "exit_inv (s\<lparr>pool := p, clients := cs, taken := taken s @ [t]\<rparr>)"
      by (rule exit_pool [OF assms(1)]) (simp_all add: p j)
    then show ?thesis unfolding s' by (rule exit_set_worker) (simp_all add: i)
  next
    case Sleep
    then show ?thesis using i exit_set_worker [OF assms(1), of i W_Wait] by (simp add: worker_lock_def)
  next
    case Return
    then have "tp_shutting_down (pool s) \<and> tp_count (pool s) = 0"
      by (simp add: worker_section_def split: if_splits)
    then show ?thesis using Return i exit_set_worker [OF assms(1), of i W_Exit] by (simp add: worker_lock_def)
  qed
next
  case (A_Run i)
  then obtain t where i: "i < length (workers s)" "workers s ! i = W_Run t" "s' = worker_run i t s"
    using assms(2) by (auto split: if_splits worker_pc.splits)
  show ?thesis unfolding i(3) worker_run_def
    by (rule exit_set_worker, rule exit_pool [OF assms(1)]) (simp_all add: i)
next
  case (A_Mark i)
  then obtain t where i: "i < length (workers s)" "workers s ! i = W_Mark t" "s' = worker_mark i s"
    using assms(2) by (auto split: if_splits worker_pc.splits)
  have "C_Join j \<in> set (clients s)" if "C_Join j \<in> set (broadcast on_idle wake_client (clients s))" for j
    using broadcast_set [OF that] by (auto dest!: on_idleD)
  then show ?thesis unfolding i(3) worker_mark_def Let_def
    by (intro exit_set_worker exit_pool [OF assms(1)]) (simp_all add: i split: if_splits)
next
  case (A_Spurious_Worker i)
  then have i: "i < length (workers s)" "s' = set_worker i (wake_worker (workers s ! i)) s"
    using assms(2) by (simp_all split: if_splits)
  show ?thesis
  proof (cases "workers s ! i = W_Exit")
    case True
    then have "s' = s" using i list_update_id [of "workers s" i] by (simp add: set_worker_def)
    then show ?thesis using assms(1) by simp
  next
    case False
    then have "wake_worker (workers s ! i) \<noteq> W_Exit" by (cases "workers s ! i") auto
    then show ?thesis unfolding i(2) by (intro exit_set_worker [OF assms(1) i(1) False]) simp
  qed
next
  case (A_Enqueue c k)
  then obtain t b where c: "c < length (clients s)" "clients s ! c = C_Submit t b" "client_enqueue c k t b s = Some s'"
    using assms(2) by (auto split: if_splits client_pc.splits)
  show ?thesis
  proof (cases "enqueue (pool s) t b")
    case (Inl r)
    then show ?thesis using c(3) exit_set_client [OF assms(1)]
      by (auto simp: client_enqueue_def split: option.splits)
  next
    case (Inr p)
    then obtain ws where ws: "signal on_not_empty wake_worker k (workers s) = Some ws"
      and s': "s' = set_client c (C_Done HBI_OK) (s\<lparr>pool := p, workers := ws, submitted := submitted s @ [t]\<rparr>)"
      using c(3) by (auto simp: client_enqueue_def split: option.splits)
    have "exit_inv (s\<lparr>workers := ws\<rparr>)" using exit_wake_worker(2) [OF assms(1) ws] .
    then have "exit_inv (s\<lparr>pool := p, workers := ws, submitted := submitted s @ [t]\<rparr>)"
      using Inr unfolding exit_inv_def enqueue_def Let_def by (auto split: if_splits)
    then show ?thesis unfolding s' by (rule exit_set_client) simp
  qed
next
  case (A_Destroy c)
  then have s': "s' = client_destroy c s"
    using assms(2) by (auto split: if_splits client_pc.splits)
  have "exit_inv (s\<lparr>workers := broadcast on_not_empty wake_worker (workers s)\<rparr>)"
    by (rule exit_wake_worker(1) [OF assms(1)])
  then have e: "exit_inv (s\<lparr>pool := (pool s)\<lparr>tp_shutting_down := True\<rparr>,
      workers := broadcast on_not_empty wake_worker (workers s)\<rparr>)"
    unfolding exit_inv_def by simp
  have "\<forall>j. C_Join j \<in> set ((clients s)[c := C_Join 0]) \<longrightarrow> j = 0 \<or> C_Join j \<in> set (clients s)"
    by (auto dest!: set_update_cases)
  then show ?thesis using e unfolding s' client_destroy_def set_client_def exit_inv_def by auto
next
  case (A_Join c)
  then obtain j where c: "c < length (clients s)" "clients s ! c = C_Join j" "client_join c j s = Some s'"
    using assms(2) by (auto split: if_splits client_pc.splits)
  then have "C_Join j \<in> set (clients s)" using nth_mem by metis
  then have j: "tp_shutting_down (pool s)" "j \<le> length (workers s)" "\<forall>i < j. workers s ! i = W_Exit"
    and n: "tp_num_workers (pool s) = length (workers s)" "workers s \<noteq> []"
    using assms(1) by (auto simp: exit_inv_def)
  show ?thesis
  proof (cases "j < length (workers s)")
    case True
    then have s': "s' = set_client c (C_Join (j + 1)) s" and "workers s ! j = W_Exit"
      using c(3) n by (auto simp: client_join_def split: if_splits)
    then have "\<forall>i < j + 1. workers s ! i = W_Exit" using j(3) by (auto simp: less_Suc_eq)
    moreover have "\<forall>k. C_Join k \<in> set ((clients s)[c := C_Join (j + 1)]) \<longrightarrow> k = j + 1 \<or> C_Join k \<in> set (clients s)"
      by (auto dest!: set_update_cases)
    ultimately show ?thesis using assms(1) True j(1) unfolding s' set_client_def exit_inv_def by auto
  next
    case False
    then have s': "s' = set_client c (C_Done HBI_OK) (s\<lparr>freed := True\<rparr>)"
      using c(3) n by (auto simp: client_join_def split: if_splits)
    have "\<forall>w \<in> set (workers s). w = W_Exit" using False j by (auto simp: in_set_conv_nth)
    then have "set (workers s) = {W_Exit}" using n(2) by (cases "workers s") auto
    then have "exit_inv (s\<lparr>freed := True\<rparr>)" using assms(1) unfolding exit_inv_def by simp
    then show ?thesis unfolding s' by (rule exit_set_client) simp
  qed
next
  case (A_Spurious_Client c)
  then have "c < length (clients s)" "s' = set_client c (wake_client (clients s ! c)) s"
    using assms(2) by (auto split: if_splits)
  then show ?thesis using exit_set_client [OF assms(1)] nth_mem [of c "clients s"]
    by (cases "clients s ! c") auto
next
  case (A_Call c pc)
  then show ?thesis using assms(2) exit_set_client [OF assms(1), of pc c]
    by (cases pc) (auto split: if_splits client_pc.splits)
next
  case (A_Wait c)
  then show ?thesis using assms(2) exit_set_client [OF assms(1)]
    by (auto simp: client_wait_def split: if_splits client_pc.splits)
qed

lemma create_Inr:
  assumes "hbi_threadpool_create env True n cap = Inr p"
  shows "ring_inv p" and "tp_count p = 0" and "tp_pending p = 0" and "tp_completed p = 0"
    and "\<not> tp_shutting_down p" and "0 < tp_num_workers p"
  using assms by (auto simp: hbi_threadpool_create_def ring_inv_def Let_def split: if_splits)

lemma pool_reach_inv: "pool_reach s \<Longrightarrow> account_inv s \<and> sleep_inv s \<and> exit_inv s"
proof (induction rule: pool_reach.induct)
  case (start env n cap p m)
  moreover have "sum_list (replicate k {#}) = {#}" for k by (induction k) auto
  ultimately show ?case using create_Inr [OF start]
    by (auto simp: account_inv_def sleep_inv_def exit_inv_def pool_start_def running_def queued_def
      sum_list_replicate list_ex_iff)
next
  case (step s a s')
  then show ?case using account_step sleep_step exit_step by blast
qed

section \<open>The workers drain the pool\<close>

fun is_work :: "action \<Rightarrow> bool" where
  "is_work (A_Lock i k) = True"
| "is_work (A_Run i) = True"
| "is_work (A_Mark i) = True"
| "is_work _ = False"

fun worker_rank :: "worker_pc \<Rightarrow> nat" where
  "worker_rank (W_Run t) = 3"
| "worker_rank (W_Mark t) = 2"
| "worker_rank W_Top = 1"
| "worker_rank _ = 0"

definition work_left :: "pool_system \<Rightarrow> nat" where
  "work_left s = 3 * tp_count (pool s) + sum_list (map worker_rank (workers s))"

lemma rank_update:
  assumes "i < length (workers s)"
  shows "sum_list (map worker_rank (workers (set_worker i w s))) + worker_rank (workers s ! i) =
    sum_list (map worker_rank (workers s)) + worker_rank w"
  using sum_list_upd [OF assms] by (simp add: set_worker_def)

lemma work_decreases:
  assumes "is_work a" and "pool_step a s = Some s'"
  shows "work_left s' < work_left s"
  using assms(1)
proof (cases a rule: is_work.cases)
  case (1 i k)
  then have i: "i < length (workers s)" "workers s ! i = W_Top" "worker_lock i k s = Some s'"
    using assms(2) by (auto split: if_splits worker_pc.splits)
  have "work_left (set_worker i w s) < work_left s" if "worker_rank w = 0" for w
    using rank_update [OF i(1), of w] i(2) that by (simp add: work_left_def set_worker_def)
  moreover have "work_left s' < work_left s" if "worker_section (pool s) = Take t p" for t p
    using rank_update [OF i(1), of "W_Run t"] i that
    by (auto simp: work_left_def set_worker_def worker_lock_def worker_section_def split: if_splits option.splits)
  ultimately show ?thesis using i(3)
    by (cases "worker_section (pool s)") (auto simp: worker_lock_def)
next
  case (2 i)
  then obtain t where "i < length (workers s)" "workers s ! i = W_Run t" "s' = worker_run i t s"
    using assms(2) by (auto split: if_splits worker_pc.splits)
  then show ?thesis using rank_update [of i s "W_Mark t"] by (simp add: work_left_def worker_run_def set_worker_def)
next
  case (3 i)
  then obtain t where "i < length (workers s)" "workers s ! i = W_Mark t" "s' = worker_mark i s"
    using assms(2) by (auto split: if_splits worker_pc.splits)
  then show ?thesis using rank_update [of i s W_Top] by (simp add: work_left_def worker_mark_def set_worker_def Let_def)
qed simp_all

lemma work_run_bound:
  "pool_run as s = Some s' \<Longrightarrow> \<forall>a \<in> set as. is_work a \<Longrightarrow> length as + work_left s' \<le> work_left s"
proof (induction "as" arbitrary: s)
  case (Cons a as)
  then obtain s1 where "pool_step a s = Some s1" "pool_run as s1 = Some s'" by (auto split: option.splits)
  then show ?case using Cons.IH [of s1] Cons.prems(2) work_decreases [of a s s1] by simp
qed simp

lemma signal_enabled: "\<exists>k qs. signal asleep wake k ps = Some qs"
  by (cases "list_ex asleep ps") (auto simp: signal_def list_ex_length)

lemma work_enabled:
  assumes "\<not> freed s" and "w \<in> set (workers s)" and "w \<noteq> W_Wait" and "w \<noteq> W_Exit"
  shows "\<exists>a. is_work a \<and> pool_step a s \<noteq> None"
proof -
  obtain i where i: "i < length (workers s)" "workers s ! i = w" using assms(2) by (auto simp: in_set_conv_nth)
  show ?thesis
  proof (cases w)
    case W_Top
    obtain k cs where k: "signal on_not_full wake_client k (clients s) = Some cs" using signal_enabled by metis
    then have "pool_step (A_Lock i k) s \<noteq> None" using W_Top i assms(1)
      by (simp add: worker_lock_def worker_section_def)
    then show ?thesis by (intro exI [of _ "A_Lock i k"]) simp
  next
    case (W_Run t)
    then show ?thesis using i assms(1) by (intro exI [of _ "A_Run i"]) simp
  next
    case (W_Mark t)
    then show ?thesis using i assms(1) by (intro exI [of _ "A_Mark i"]) simp
  qed (use assms in simp_all)
qed

lemma no_busy: "set ws \<subseteq> {W_Wait, W_Exit} \<Longrightarrow> sum_list (map busy ws) = 0 \<and> sum_list (map run_task ws) = {#}"
  by (induction ws) auto

lemma at_rest:
  assumes "pool_reach s" and "set (workers s) \<subseteq> {W_Wait, W_Exit}"
  shows "tp_pending (pool s) = 0" and "queued s = []" and "mset (executed s) = mset (submitted s)"
    and "tp_shutting_down (pool s) \<Longrightarrow> set (workers s) = {W_Exit}"
proof -
  note inv = pool_reach_inv [OF assms(1)]
  have c: "tp_count (pool s) = 0"
    using inv assms(2) by (auto simp: sleep_inv_def exit_inv_def)
  then show q: "queued s = []" by (simp add: queued_def)
  show "tp_pending (pool s) = 0" "mset (executed s) = mset (submitted s)"
    using inv no_busy [OF assms(2)] c q by (simp_all add: account_inv_def running_def)
  show "set (workers s) = {W_Exit}" if "tp_shutting_down (pool s)"
    using inv that assms(2) by (cases "workers s") (auto simp: sleep_inv_def exit_inv_def)
qed

lemma pool_run_reach: "pool_reach s \<Longrightarrow> pool_run as s = Some s' \<Longrightarrow> pool_reach s'"
  by (induction "as" arbitrary: s) (auto split: option.splits intro: pool_reach.step)

lemma sum_list_replicate_empty: "sum_list (replicate k {#}) = {#}"
  by (induction k) auto

lemma none_pending:
  assumes "pool_reach s" and "tp_pending (pool s) = 0"
  shows "queued s = [] \<and> mset (executed s) = mset (submitted s)"
proof -
  note inv = pool_reach_inv [OF assms(1)]
  then have b: "sum_list (map busy (workers s)) = 0" and c: "tp_count (pool s) = 0"
    using assms(2) by (simp_all add: account_inv_def)
  have "run_task w = {#}" if "w \<in> set (workers s)" for w
    using b that by (cases w) (auto simp: sum_list_eq_0_iff)
  then have "map run_task (workers s) = replicate (length (workers s)) {#}"
    by (simp add: map_replicate_const [symmetric])
  then have "running s = {#}" by (simp add: running_def sum_list_replicate_empty)
  then show ?thesis using inv c by (simp add: account_inv_def queued_def)
qed

lemma retrying_pos: "0 < sum_list (map retrying cs) \<Longrightarrow> list_ex (\<lambda>c. 0 < retrying c) cs"
  by (induction cs) auto

section \<open>Theorems\<close>

definition demo_env :: create_env where
  "demo_env = \<lparr>struct_ok = True, queue_ok = True, workers_ok = True, mutex_ok = True, not_empty_ok = True,
     not_full_ok = True, idle_ok = True, thread_ok = (\<lambda>i. True)\<rparr>"

definition demo_task :: "nat \<Rightarrow> task" where
  "demo_task i = \<lparr>task_fn = 100 + i, task_arg = i\<rparr>"

definition demo_pool :: "nat \<Rightarrow> pool_system" where
  "demo_pool m = (case hbi_threadpool_create demo_env True 0 0 of Inr p \<Rightarrow> pool_start p m | Inl e \<Rightarrow> undefined)"

lemma demo_pool_reach: "pool_reach (demo_pool m)"
proof -
  obtain p where "hbi_threadpool_create demo_env True 0 0 = Inr p"
    by (simp add: hbi_threadpool_create_def demo_env_def)
  then show ?thesis using pool_reach.start [of demo_env 0 0 p m] by (simp add: demo_pool_def)
qed

text \<open>
  C17. Tasks are taken in the order they were accepted and every accepted task is exactly one of
  queued, being run or executed (once); \<open>pending\<close> and \<open>completed\<close> count them. When
  \<open>hbi_threadpool_wait\<close> returns, every accepted task has been executed, and so it is when
  \<open>hbi_threadpool_destroy\<close> frees the pool: no accepted task is dropped.
\<close>

theorem threadpool_exactly_once:
  assumes "pool_reach s"
  shows "submitted s = taken s @ queued s \<and> mset (taken s) = mset (executed s) + running s \<and>
    tp_pending (pool s) = length (queued s) + sum_list (map busy (workers s)) \<and>
    hbi_threadpool_completed_count (Some (pool s)) = of_nat (length (executed s)) \<and>
    (\<forall>c s'. pool_step (A_Wait c) s = Some s' \<and> clients s' ! c = C_Done HBI_OK \<longrightarrow>
       queued s = [] \<and> mset (executed s) = mset (submitted s)) \<and>
    (freed s \<longrightarrow> queued s = [] \<and> mset (executed s) = mset (submitted s))"
proof -
  note inv = pool_reach_inv [OF assms]
  have "tp_pending (pool s) = 0" if "pool_step (A_Wait c) s = Some s'" "clients s' ! c = C_Done HBI_OK" for c s'
    using that by (auto simp: client_wait_def set_client_def split: if_splits client_pc.splits)
  moreover have "tp_pending (pool s) = 0" if "freed s"
    using at_rest(1) [OF assms] inv that by (simp add: exit_inv_def)
  ultimately have done_all: "\<forall>c s'. pool_step (A_Wait c) s = Some s' \<and> clients s' ! c = C_Done HBI_OK \<longrightarrow>
       queued s = [] \<and> mset (executed s) = mset (submitted s)"
    and "freed s \<longrightarrow> queued s = [] \<and> mset (executed s) = mset (submitted s)"
    using none_pending [OF assms] by metis+
  moreover have "length (queued s) = tp_count (pool s)" by (simp add: queued_def)
  ultimately show ?thesis
    using inv unfolding account_inv_def hbi_threadpool_completed_count_def option.case by metis
qed

definition demo_actions :: "action list" where
  "demo_actions = [A_Call 0 (C_Submit (demo_task 1) True), A_Enqueue 0 0, A_Lock 0 0,
     A_Call 0 (C_Submit (demo_task 2) True), A_Enqueue 0 0, A_Call 1 (C_Submit (demo_task 3) True),
     A_Enqueue 1 0, A_Call 0 C_Wait, A_Wait 0, A_Run 0, A_Mark 0, A_Lock 0 1, A_Run 0]"

theorem threadpool_exactly_once_witness:
  "\<exists>s. pool_run demo_actions (demo_pool 2) = Some s \<and> mset (taken s) = mset (executed s) + running s \<and>
     executed s = [demo_task 1, demo_task 2] \<and> clients s = [C_Idle, C_Submit (demo_task 3) True]"
proof -
  obtain s where s: "pool_run demo_actions (demo_pool 2) = Some s"
    and e: "executed s = [demo_task 1, demo_task 2]" "clients s = [C_Idle, C_Submit (demo_task 3) True]"
  proof -
    have "case pool_run demo_actions (demo_pool 2) of None \<Rightarrow> False
      | Some s \<Rightarrow> executed s = [demo_task 1, demo_task 2] \<and> clients s = [C_Idle, C_Submit (demo_task 3) True]"
      by code_simp
    then show thesis using that by (cases "pool_run demo_actions (demo_pool 2)") auto
  qed
  have "pool_reach s" by (rule pool_run_reach [OF demo_pool_reach s])
  from threadpool_exactly_once [OF this] show ?thesis using s e by blast
qed

text \<open>
  C18. The workers always drain the pool: from a reachable state their steps cannot go on for longer
  than the work that is left, unless a client submits more or a sleeper wakes spuriously; and when
  no worker can take a step, every accepted task has been executed, nobody sleeps in
  \<open>hbi_threadpool_wait\<close>, a submitter sleeps in an open pool only while another one is awake to use
  the free slots, and in a pool that is shutting down every worker has returned, so the joins of
  \<open>hbi_threadpool_destroy\<close> end.
\<close>

theorem threadpool_progress:
  assumes "pool_reach s" and "\<not> freed s"
  shows "(\<forall>as s'. pool_run as s = Some s' \<and> list_all is_work as \<longrightarrow> length as \<le> work_left s) \<and>
    ((\<forall>a. is_work a \<longrightarrow> pool_step a s = None) \<longrightarrow>
       queued s = [] \<and> mset (executed s) = mset (submitted s) \<and> C_Idle \<notin> set (clients s) \<and>
       (if tp_shutting_down (pool s) then set (workers s) = {W_Exit}
        else \<not> list_ex on_not_full (clients s) \<or> list_ex (\<lambda>c. 0 < retrying c) (clients s)))"
proof (intro conjI allI impI)
  show "length as \<le> work_left s" if "pool_run as s = Some s' \<and> list_all is_work as" for "as" s'
    using work_run_bound [of "as" s s'] that by (simp add: list_all_iff)
next
  assume stuck: "\<forall>a. is_work a \<longrightarrow> pool_step a s = None"
  have w: "set (workers s) \<subseteq> {W_Wait, W_Exit}"
  proof
    show "w \<in> {W_Wait, W_Exit}" if "w \<in> set (workers s)" for w
      using work_enabled [OF assms(2) that] stuck by (cases "w = W_Wait \<or> w = W_Exit") auto
  qed
  note rest = at_rest [OF assms(1) w] and inv = pool_reach_inv [OF assms(1)]
  show "queued s = []" "mset (executed s) = mset (submitted s)" by (rule rest)+
  show "C_Idle \<notin> set (clients s)" using inv rest(1) by (simp add: sleep_inv_def)
  show "if tp_shutting_down (pool s) then set (workers s) = {W_Exit}
        else \<not> list_ex on_not_full (clients s) \<or> list_ex (\<lambda>c. 0 < retrying c) (clients s)"
  proof (cases "tp_shutting_down (pool s)")
    case True
    then show ?thesis using rest(4) by simp
  next
    case False
    have "0 < tp_capacity (pool s)" "tp_count (pool s) = 0"
      using inv rest(1) by (simp_all add: account_inv_def ring_inv_def)
    then have "0 < sum_list (map retrying (clients s))" if "list_ex on_not_full (clients s)"
      using inv that False unfolding sleep_inv_def by linarith
    then show ?thesis using False retrying_pos [of "clients s"] by (cases "list_ex on_not_full (clients s)") simp_all
  qed
qed

definition demo_drained :: pool_system where
  "demo_drained = the (pool_run [A_Call 0 (C_Submit (demo_task 1) True), A_Enqueue 0 0, A_Lock 0 0,
     A_Run 0, A_Mark 0, A_Lock 0 0] (demo_pool 1))"

lemma demo_drained_reach: "pool_reach demo_drained"
proof -
  have "pool_run [A_Call 0 (C_Submit (demo_task 1) True), A_Enqueue 0 0, A_Lock 0 0,
     A_Run 0, A_Mark 0, A_Lock 0 0] (demo_pool 1) \<noteq> None" by code_simp
  then show ?thesis unfolding demo_drained_def by (metis option.exhaust_sel pool_run_reach demo_pool_reach)
qed

lemma demo_drained_simps: "workers demo_drained = [W_Wait]" "\<not> freed demo_drained"
  "submitted demo_drained = [demo_task 1]" "executed demo_drained = [demo_task 1]"
  by code_simp+

theorem threadpool_progress_witness:
  "pool_reach demo_drained \<and> \<not> freed demo_drained \<and> submitted demo_drained = [demo_task 1] \<and>
   mset (executed demo_drained) = mset (submitted demo_drained) \<and> C_Idle \<notin> set (clients demo_drained)"
proof -
  have "\<forall>a. is_work a \<longrightarrow> pool_step a demo_drained = None"
  proof (intro allI impI)
    show "pool_step a demo_drained = None" if "is_work a" for a
      using that by (cases a) (auto simp: demo_drained_simps not_le)
  qed
  then show ?thesis
    using threadpool_progress [OF demo_drained_reach demo_drained_simps(2)] demo_drained_reach demo_drained_simps
    by blast
qed

text \<open>
  A shutdown broadcasts only to the workers. With more blocked submitters than tasks left in the
  queue, the workers' signals do not reach all of them: the pool is freed while one is still asleep.
\<close>

definition strand_actions :: "action list" where
  "strand_actions = [A_Call 0 (C_Submit (demo_task 1) True), A_Enqueue 0 0, A_Lock 0 0,
     A_Call 0 (C_Submit (demo_task 2) True), A_Enqueue 0 0,
     A_Call 0 (C_Submit (demo_task 3) True), A_Enqueue 0 0,
     A_Call 1 (C_Submit (demo_task 4) True), A_Enqueue 1 0,
     A_Call 2 C_Destroy, A_Destroy 2, A_Run 0, A_Mark 0, A_Lock 0 0, A_Enqueue 0 0, A_Run 0, A_Mark 0,
     A_Lock 0 0, A_Join 2, A_Join 2]"

lemma shutdown_strands_submitter:
  "case pool_run strand_actions (demo_pool 3) of None \<Rightarrow> False
   | Some s \<Rightarrow> freed s \<and> clients s = [C_Done HBI_ERR_STATE, C_Full (demo_task 4), C_Done HBI_OK]"
  by code_simp

end
