(* ===== verification/Executor.thy ===== *)
theory Executor
  imports Planner
begin

text \<open>
  The graph executor (src/executor): execution contexts that bind a tensor to every value of a
  graph, resolution of one kernel per node, and the run of the kernels in execution order.

  \<^item> A graph is referred to by its address and its contents (\<open>graph_ref\<close>); the executor and the
    context compare addresses.
  \<^item> Kernels are the descriptors of theory \<open>Kernel\<close>, whose \<open>run\<close> acts on the byte memory. What a
    kernel is relied on to do is \<open>kernel_ok\<close>: its outputs are a function of its inputs, and it
    writes nothing but its outputs and scratch memory.
  \<^item> Reading through a NULL value pointer is \<open>None\<close> in \<open>hbi_executor_create\<close>. The profiler scopes
    do not change the result and are left out.
  \<^item> \<open>hbi_exec_context_destroy\<close> and \<open>hbi_executor_destroy\<close> release memory only.
\<close>

section \<open>Execution contexts\<close>










section \<open>Executors\<close>





section \<open>Running a graph\<close>






section \<open>What a kernel does\<close>





section \<open>Reference evaluation\<close>



section \<open>Running refines evaluation\<close>


















section \<open>Binding\<close>






section \<open>A context set up from a plan\<close>
























section \<open>Properties\<close>





































end
