(* ===== verification/Adapter.thy ===== *)
theory Adapter
  imports Graph Model Cstring
begin

text \<open>
  The model adapter framework (\<open>src/src/adapter/adapter.h\<close>, \<open>adapter.c\<close>): the description of a model's
  geometry, the registry of adapters, the choice of an adapter for a loaded model, and the
  initialisation pipeline.

  \<^item> An adapter is a record of callbacks, each possibly NULL, as in the source. The callbacks of the
    adapters work on global variables and on the heap; the type \<open>'s\<close> of that state is a parameter, as is
    the type \<open>'c\<close> of the addresses of model contexts and the type \<open>'al\<close> of allocators. The argument
    \<open>self\<close>, which no adapter reads, is left out; an out-parameter that may be NULL is a flag. A callback that meets undefined behaviour
    returns \<open>None\<close>.
  \<^item> The registry is the list of the adapters in use. Calling a NULL callback is \<open>None\<close>.
  \<^item> \<open>now i\<close> is the \<open>i\<close>-th reading of the monotonic clock.
\<close>

unbundle bit_operations_syntax

section \<open>Enumerations\<close>

datatype hbi_layer_type =
    HBI_LAYER_INVALID | HBI_LAYER_EMBEDDING | HBI_LAYER_ATTENTION | HBI_LAYER_FEED_FORWARD | HBI_LAYER_MOE
  | HBI_LAYER_RESIDUAL | HBI_LAYER_NORMALIZATION | HBI_LAYER_OUTPUT_HEAD | HBI_LAYER_COUNT

fun hbi_layer_type_str :: "hbi_layer_type \<Rightarrow> string" where
  "hbi_layer_type_str HBI_LAYER_INVALID = ''invalid''"
| "hbi_layer_type_str HBI_LAYER_EMBEDDING = ''embedding''"
| "hbi_layer_type_str HBI_LAYER_ATTENTION = ''attention''"
| "hbi_layer_type_str HBI_LAYER_FEED_FORWARD = ''feed_forward''"
| "hbi_layer_type_str HBI_LAYER_MOE = ''moe''"
| "hbi_layer_type_str HBI_LAYER_RESIDUAL = ''residual''"
| "hbi_layer_type_str HBI_LAYER_NORMALIZATION = ''normalization''"
| "hbi_layer_type_str HBI_LAYER_OUTPUT_HEAD = ''output_head''"
| "hbi_layer_type_str HBI_LAYER_COUNT = ''invalid''"

fun layer_value :: "hbi_layer_type \<Rightarrow> nat" where
  "layer_value HBI_LAYER_INVALID = 0"
| "layer_value HBI_LAYER_EMBEDDING = 1"
| "layer_value HBI_LAYER_ATTENTION = 2"
| "layer_value HBI_LAYER_FEED_FORWARD = 3"
| "layer_value HBI_LAYER_MOE = 4"
| "layer_value HBI_LAYER_RESIDUAL = 5"
| "layer_value HBI_LAYER_NORMALIZATION = 6"
| "layer_value HBI_LAYER_OUTPUT_HEAD = 7"
| "layer_value HBI_LAYER_COUNT = 8"

datatype hbi_attention_variant =
    HBI_ATTENTION_INVALID | HBI_ATTENTION_MHA | HBI_ATTENTION_GQA | HBI_ATTENTION_MQA | HBI_ATTENTION_MLA | HBI_ATTENTION_COUNT

fun hbi_attention_variant_str :: "hbi_attention_variant \<Rightarrow> string" where
  "hbi_attention_variant_str HBI_ATTENTION_INVALID = ''invalid''"
| "hbi_attention_variant_str HBI_ATTENTION_MHA = ''mha''"
| "hbi_attention_variant_str HBI_ATTENTION_GQA = ''gqa''"
| "hbi_attention_variant_str HBI_ATTENTION_MQA = ''mqa''"
| "hbi_attention_variant_str HBI_ATTENTION_MLA = ''mla''"
| "hbi_attention_variant_str HBI_ATTENTION_COUNT = ''invalid''"

datatype hbi_norm_type = HBI_NORM_INVALID | HBI_NORM_RMSNORM | HBI_NORM_LAYERNORM | HBI_NORM_COUNT

fun hbi_norm_type_str :: "hbi_norm_type \<Rightarrow> string" where
  "hbi_norm_type_str HBI_NORM_INVALID = ''invalid''"
| "hbi_norm_type_str HBI_NORM_RMSNORM = ''rmsnorm''"
| "hbi_norm_type_str HBI_NORM_LAYERNORM = ''layernorm''"
| "hbi_norm_type_str HBI_NORM_COUNT = ''invalid''"

datatype hbi_adapter_activation =
    HBI_ADAPTER_ACT_INVALID | HBI_ADAPTER_ACT_GELU | HBI_ADAPTER_ACT_SILU | HBI_ADAPTER_ACT_RELU
  | HBI_ADAPTER_ACT_SWIGLU | HBI_ADAPTER_ACT_COUNT

fun hbi_adapter_activation_str :: "hbi_adapter_activation \<Rightarrow> string" where
  "hbi_adapter_activation_str HBI_ADAPTER_ACT_INVALID = ''invalid''"
| "hbi_adapter_activation_str HBI_ADAPTER_ACT_GELU = ''gelu''"
| "hbi_adapter_activation_str HBI_ADAPTER_ACT_SILU = ''silu''"
| "hbi_adapter_activation_str HBI_ADAPTER_ACT_RELU = ''relu''"
| "hbi_adapter_activation_str HBI_ADAPTER_ACT_SWIGLU = ''swiglu''"
| "hbi_adapter_activation_str HBI_ADAPTER_ACT_COUNT = ''invalid''"

datatype hbi_adapter_architecture =
    HBI_ADAPTER_ARCH_UNKNOWN | HBI_ADAPTER_ARCH_GENERIC | HBI_ADAPTER_ARCH_TRANSFORMER_DENSE
  | HBI_ADAPTER_ARCH_TRANSFORMER_MOE | HBI_ADAPTER_ARCH_COUNT

fun hbi_adapter_architecture_str :: "hbi_adapter_architecture \<Rightarrow> string" where
  "hbi_adapter_architecture_str HBI_ADAPTER_ARCH_UNKNOWN = ''unknown''"
| "hbi_adapter_architecture_str HBI_ADAPTER_ARCH_GENERIC = ''generic''"
| "hbi_adapter_architecture_str HBI_ADAPTER_ARCH_TRANSFORMER_DENSE = ''transformer_dense''"
| "hbi_adapter_architecture_str HBI_ADAPTER_ARCH_TRANSFORMER_MOE = ''transformer_moe''"
| "hbi_adapter_architecture_str HBI_ADAPTER_ARCH_COUNT = ''unknown''"

section \<open>Model descriptor\<close>

definition HBI_ADAPTER_NAME_MAX :: nat where "HBI_ADAPTER_NAME_MAX = 64"

record hbi_model_descriptor =
  architecture_name :: string
  d_architecture :: hbi_adapter_architecture
  num_layers :: u32
  hidden_size :: u32
  num_attention_heads :: u32
  num_kv_heads :: u32
  intermediate_size :: u32
  vocab_size :: u32
  max_seq_length :: u32
  num_experts :: u32
  num_experts_active :: u32
  moe_layer_stride :: u32
  attention_variant :: hbi_attention_variant
  norm_type :: hbi_norm_type
  d_activation :: hbi_adapter_activation
  layer_type_mask :: u32

definition zero_descriptor :: hbi_model_descriptor where
  "zero_descriptor = \<lparr>architecture_name = [], d_architecture = HBI_ADAPTER_ARCH_UNKNOWN, num_layers = 0,
     hidden_size = 0, num_attention_heads = 0, num_kv_heads = 0, intermediate_size = 0, vocab_size = 0,
     max_seq_length = 0, num_experts = 0, num_experts_active = 0, moe_layer_stride = 0,
     attention_variant = HBI_ATTENTION_INVALID, norm_type = HBI_NORM_INVALID,
     d_activation = HBI_ADAPTER_ACT_INVALID, layer_type_mask = 0\<rparr>"

definition hbi_descriptor_set_layer :: "hbi_model_descriptor ptr \<Rightarrow> hbi_layer_type \<Rightarrow> hbi_model_descriptor ptr" where
  "hbi_descriptor_set_layer desc lt =
     (case desc of
        None \<Rightarrow> None
      | Some d \<Rightarrow>
          if lt \<noteq> HBI_LAYER_INVALID \<and> lt \<noteq> HBI_LAYER_COUNT
          then Some (d\<lparr>layer_type_mask := layer_type_mask d OR push_bit (layer_value lt) 1\<rparr>) else Some d)"

definition hbi_descriptor_has_layer :: "hbi_model_descriptor ptr \<Rightarrow> hbi_layer_type \<Rightarrow> bool" where
  "hbi_descriptor_has_layer desc lt =
     (case desc of
        None \<Rightarrow> False
      | Some d \<Rightarrow>
          if lt = HBI_LAYER_INVALID \<or> lt = HBI_LAYER_COUNT then False
          else layer_type_mask d AND push_bit (layer_value lt) 1 \<noteq> 0)"

definition HBI_CAP_SUPPORTS_BATCHED_INFERENCE :: u32 where "HBI_CAP_SUPPORTS_BATCHED_INFERENCE = push_bit 3 1"
definition HBI_CAP_SUPPORTS_QUANTIZED_WEIGHTS :: u32 where "HBI_CAP_SUPPORTS_QUANTIZED_WEIGHTS = push_bit 4 1"
definition HBI_CAP_SUPPORTS_LONG_CONTEXT :: u32 where "HBI_CAP_SUPPORTS_LONG_CONTEXT = push_bit 6 1"

record hbi_model_statistics =
  init_time_ns :: u64
  graph_build_time_ns :: u64
  tensors_registered :: u32
  adapter_memory_bytes :: u64
  graph_nodes :: u32
  graph_values :: u32

definition zero_statistics :: hbi_model_statistics where
  "zero_statistics = \<lparr>init_time_ns = 0, graph_build_time_ns = 0, tensors_registered = 0,
     adapter_memory_bytes = 0, graph_nodes = 0, graph_values = 0\<rparr>"

section \<open>Adapters\<close>

record ('s, 'c, 'al) hbi_model_adapter =
  ma_name :: "string ptr"
  ma_architecture :: hbi_adapter_architecture
  ma_init :: "(hbi_load_session ptr \<Rightarrow> 'al ptr \<Rightarrow> 's \<Rightarrow> hbi_status \<times> 's) ptr"
  ma_validate_metadata :: "(hbi_model_metadata ptr \<Rightarrow> 's \<Rightarrow> hbi_status \<times> 's) ptr"
  ma_build_descriptor ::
    "(hbi_model_metadata ptr \<Rightarrow> hbi_model_descriptor ptr \<Rightarrow> 's \<Rightarrow> hbi_status \<times> hbi_model_descriptor ptr \<times> 's) ptr"
  ma_build_graph ::
    "(hbi_graph_builder ptr \<Rightarrow> hbi_model_descriptor ptr \<Rightarrow> 's \<Rightarrow> (hbi_status \<times> hbi_graph_builder ptr \<times> 's) option) ptr"
  ma_register_tensors :: "(hbi_model_manifest ptr \<Rightarrow> hbi_model_descriptor ptr \<Rightarrow> 's \<Rightarrow> (hbi_status \<times> 's) option) ptr"
  ma_create_context :: "(hbi_model_descriptor ptr \<Rightarrow> 'al ptr \<Rightarrow> 's \<Rightarrow> (hbi_status \<times> 'c ptr \<times> 's) option) ptr"
  ma_destroy_context :: "('c ptr \<Rightarrow> 's \<Rightarrow> 's option) ptr"
  ma_get_capabilities :: "u32 ptr"
  ma_get_statistics :: "(bool \<Rightarrow> 's \<Rightarrow> hbi_model_statistics outcome) ptr"
  ma_shutdown :: "('s \<Rightarrow> 's) ptr"

definition HBI_ADAPTER_REGISTRY_MAX :: nat where "HBI_ADAPTER_REGISTRY_MAX = 16"

type_synonym ('s, 'c, 'al) adapter_registry = "('s, 'c, 'al) hbi_model_adapter list"

definition required_fields :: "('s, 'c, 'al) hbi_model_adapter \<Rightarrow> bool" where
  "required_fields a \<longleftrightarrow> ma_init a \<noteq> None \<and> ma_validate_metadata a \<noteq> None \<and> ma_build_descriptor a \<noteq> None \<and>
     ma_build_graph a \<noteq> None \<and> ma_register_tensors a \<noteq> None \<and> ma_create_context a \<noteq> None \<and>
     ma_destroy_context a \<noteq> None \<and> ma_get_capabilities a \<noteq> None \<and> ma_get_statistics a \<noteq> None"

definition hbi_adapter_register ::
  "('s, 'c, 'al) adapter_registry \<Rightarrow> ('s, 'c, 'al) hbi_model_adapter ptr \<Rightarrow> hbi_status \<times> ('s, 'c, 'al) adapter_registry" where
  "hbi_adapter_register reg adapter =
     (case adapter of
        None \<Rightarrow> (HBI_ERR_INVALID_ARG, reg)
      | Some a \<Rightarrow>
          if ma_name a = None then (HBI_ERR_INVALID_ARG, reg)
          else if \<not> required_fields a then (HBI_ERR_INVALID_ARG, reg)
          else if HBI_ADAPTER_REGISTRY_MAX \<le> length reg then (HBI_ERR_STATE, reg)
          else if list_ex (\<lambda>x. ma_name x = ma_name a) reg then (HBI_ERR_STATE, reg)
          else (HBI_OK, reg @ [a]))"

definition hbi_adapter_find ::
  "('s, 'c, 'al) adapter_registry \<Rightarrow> string ptr \<Rightarrow> ('s, 'c, 'al) hbi_model_adapter ptr" where
  "hbi_adapter_find reg architecture =
     (case architecture of None \<Rightarrow> None | Some n \<Rightarrow> find (\<lambda>a. ma_name a = Some n) reg)"

definition hbi_adapter_find_by_arch ::
  "('s, 'c, 'al) adapter_registry \<Rightarrow> hbi_adapter_architecture \<Rightarrow> ('s, 'c, 'al) hbi_model_adapter ptr" where
  "hbi_adapter_find_by_arch reg arch = find (\<lambda>a. ma_architecture a = arch) reg"

definition hbi_adapter_count :: "('s, 'c, 'al) adapter_registry \<Rightarrow> nat" where
  "hbi_adapter_count reg = length reg"

definition hbi_adapter_registry_clear :: "('s, 'c, 'al) adapter_registry \<Rightarrow> ('s, 'c, 'al) adapter_registry" where
  "hbi_adapter_registry_clear reg = []"

section \<open>Choosing and initialising\<close>

definition hbi_adapter_resolve ::
  "('s, 'c, 'al) adapter_registry \<Rightarrow> hbi_load_session ptr \<Rightarrow> ('s, 'c, 'al) hbi_model_adapter outcome" where
  "hbi_adapter_resolve reg session =
     (case session of
        None \<Rightarrow> Inl HBI_ERR_INVALID_ARG
      | Some s \<Rightarrow>
          (case hbi_load_session_metadata (Some s) of
             None \<Rightarrow> Inl HBI_ERR_STATE
           | Some md \<Rightarrow>
               (case hbi_model_metadata_get (Some md) (Some (ascii ''architecture'')) of
                  None \<Rightarrow> Inl HBI_ERR_NOT_FOUND
                | Some arch \<Rightarrow>
                    if arch = [] then Inl HBI_ERR_NOT_FOUND
                    else
                      (case hbi_adapter_find reg (Some (text_of arch)) of
                         None \<Rightarrow> Inl HBI_ERR_NOT_FOUND
                       | Some a \<Rightarrow> Inr a))))"

text \<open>
  The pipeline. Every exit stores the statistics collected so far, when the caller asked for them;
  the descriptor keeps what the callbacks wrote.
\<close>

definition hbi_adapter_init_model ::
  "(nat \<Rightarrow> u64) \<Rightarrow> ('s, 'c, 'al) hbi_model_adapter ptr \<Rightarrow> hbi_load_session ptr \<Rightarrow> 'al ptr \<Rightarrow> hbi_model_descriptor ptr \<Rightarrow>
     hbi_model_statistics ptr \<Rightarrow> 's \<Rightarrow> (hbi_status \<times> hbi_model_descriptor ptr \<times> hbi_model_statistics ptr \<times> 's) option" where
  "hbi_adapter_init_model now adapter session allocator out_descriptor out_stats s0 =
     (case (adapter, session, allocator, out_descriptor) of
        (Some a, Some ses, Some al, Some _) \<Rightarrow>
          (case (ma_init a, ma_validate_metadata a, ma_build_descriptor a, ma_register_tensors a) of
             (Some init, Some validate, Some describe, Some register) \<Rightarrow>
               let d0 = Some zero_descriptor;
                   md = hbi_load_session_metadata (Some ses);
                   manifest = hbi_load_session_manifest (Some ses);
                   (st1, s1) = init (Some ses) (Some al) s0;
                   stats1 = zero_statistics\<lparr>init_time_ns := now 1 - now 0\<rparr>;
                   report = (\<lambda>stats. map_option (\<lambda>_. stats) out_stats)
               in if st1 \<noteq> HBI_OK then Some (st1, d0, report stats1, s1)
                  else
                    let (st2, s2) = validate md s1 in
                    if st2 \<noteq> HBI_OK then Some (st2, d0, report stats1, s2)
                    else
                      let (st3, d3, s3) = describe md d0 s2 in
                      if st3 \<noteq> HBI_OK then Some (st3, d3, report stats1, s3)
                      else
                        (case register manifest d3 s3 of
                           None \<Rightarrow> None
                         | Some (st4, s4) \<Rightarrow>
                             if st4 \<noteq> HBI_OK then Some (st4, d3, report stats1, s4)
                             else Some (HBI_OK, d3,
                               report (stats1\<lparr>tensors_registered := of_nat (hbi_model_manifest_count manifest)\<rparr>), s4))
           | _ \<Rightarrow> None)
      | _ \<Rightarrow> Some (HBI_ERR_INVALID_ARG, out_descriptor, out_stats, s0))"

section \<open>Model contexts\<close>

text \<open>
  A model context at its address, without the borrowed pointers to its allocator and its adapter;
  \<open>'p\<close> is the adapter's private state.
\<close>

record 'p hbi_model_context =
  mc_descriptor :: hbi_model_descriptor
  mc_stats :: hbi_model_statistics
  mc_private_data :: "'p ptr"
  mc_private_data_size :: u64
  mc_initialized :: bool

definition sizeof_model_context :: u64 where "sizeof_model_context = 208"

text \<open>The textual keys of a model's metadata.\<close>

definition metadata_text :: "hbi_model_metadata \<Rightarrow> string \<Rightarrow> string ptr" where
  "metadata_text md key = map_option text_of (hbi_model_metadata_get (Some md) (Some (ascii key)))"

text \<open>\<open>parse_uint32\<close> of the adapters; \<open>strtol\<close> works on a 64-bit \<open>long\<close>, and the cast keeps its low 32 bits.\<close>

definition parse_uint32 :: "string ptr \<Rightarrow> u32 option" where
  "parse_uint32 s =
     (case s of
        None \<Rightarrow> None
      | Some t \<Rightarrow>
          if t = [] then None
          else (case strtoll t of
                  None \<Rightarrow> None
                | Some (v, r) \<Rightarrow> if r \<noteq> [] \<or> v < 0 then None else Some (word_of_int v)))"

text \<open>\<open>parse_uint32\<close> leaves its target alone when it fails.\<close>

definition parse_into :: "hbi_model_metadata \<Rightarrow> string \<Rightarrow> u32 \<Rightarrow> u32" where
  "parse_into md key old = (case parse_uint32 (metadata_text md key) of None \<Rightarrow> old | Some v \<Rightarrow> v)"

definition set_layers :: "hbi_layer_type list \<Rightarrow> hbi_model_descriptor ptr \<Rightarrow> hbi_model_descriptor ptr" where
  "set_layers lts d = foldl hbi_descriptor_set_layer d lts"

section \<open>The layer mask is a set\<close>

lemma layer_value_inj: "layer_value a = layer_value b \<longleftrightarrow> a = b"
  by (cases a; cases b) simp_all

lemma layer_value_less: "a \<noteq> HBI_LAYER_COUNT \<Longrightarrow> layer_value a < 8"
  by (cases a) simp_all

lemma mask_bit: "(w :: u32) AND 2 ^ n \<noteq> 0 \<longleftrightarrow> bit w n"
  by (simp add: bit_iff_and_push_bit_not_eq_0)

lemma has_layer_bit:
  "hbi_descriptor_has_layer (Some d) lt \<longleftrightarrow>
     lt \<noteq> HBI_LAYER_INVALID \<and> lt \<noteq> HBI_LAYER_COUNT \<and> bit (layer_type_mask d) (layer_value lt)"
  by (simp add: hbi_descriptor_has_layer_def mask_bit)

lemma set_layer_has:
  "hbi_descriptor_has_layer (hbi_descriptor_set_layer (Some d) lt) lt' \<longleftrightarrow>
     hbi_descriptor_has_layer (Some d) lt' \<or> lt' = lt \<and> lt \<noteq> HBI_LAYER_INVALID \<and> lt \<noteq> HBI_LAYER_COUNT"
  using layer_value_less [of lt] layer_value_less [of lt'] layer_value_inj [of lt' lt]
  by (auto simp: hbi_descriptor_set_layer_def has_layer_bit bit_simps)

lemma set_layers_has:
  assumes "HBI_LAYER_INVALID \<notin> set lts" and "HBI_LAYER_COUNT \<notin> set lts"
  shows "\<exists>d'. set_layers lts (Some d) = Some d' \<and>
     (\<forall>lt. hbi_descriptor_has_layer (Some d') lt \<longleftrightarrow> hbi_descriptor_has_layer (Some d) lt \<or> lt \<in> set lts)"
  using assms
proof (induction lts arbitrary: d)
  case (Cons l lts)
  obtain d1 where d1: "hbi_descriptor_set_layer (Some d) l = Some d1"
    by (cases "hbi_descriptor_set_layer (Some d) l") (auto simp: hbi_descriptor_set_layer_def split: if_splits)
  show ?case using Cons.IH [of d1] Cons.prems set_layer_has [of d l] d1 by (auto simp: set_layers_def)
qed (simp add: set_layers_def)

section \<open>The registry contract\<close>

interpretation adpr: keyed_registry "\<lambda>r. r" "\<lambda>r a. hbi_adapter_register r (Some a)" ma_name HBI_ADAPTER_REGISTRY_MAX
  by unfold_locales (auto simp: hbi_adapter_register_def list_ex_iff split: if_splits)

lemma register_complete:
  assumes "hbi_adapter_register r (Some a) = (HBI_OK, r')"
  shows "required_fields a" and "ma_name a \<noteq> None"
  using assms by (auto simp: hbi_adapter_register_def split: if_splits)

lemma adapter_accepted_found:
  assumes "adpr.reg_inv r" and "hbi_adapter_register r (Some a) = (HBI_OK, r')"
  shows "hbi_adapter_find (foldl (\<lambda>r k. snd (hbi_adapter_register r (Some k))) r' as) (ma_name a) = Some a"
  using adpr.accepted_is_found [OF assms, of as] register_complete(2) [OF assms(2)]
  by (auto simp: hbi_adapter_find_def)

section \<open>The pipeline as a sequence of steps\<close>

text \<open>Steps that run in order until one of them fails.\<close>

fun run_steps :: "('w \<Rightarrow> (hbi_status \<times> 'w) option) list \<Rightarrow> 'w \<Rightarrow> (hbi_status \<times> 'w) option" where
  "run_steps [] w = Some (HBI_OK, w)"
| "run_steps (f # fs) w =
     (case f w of None \<Rightarrow> None | Some (st, w') \<Rightarrow> if st \<noteq> HBI_OK then Some (st, w') else run_steps fs w')"

definition model_steps ::
  "('s, 'c, 'al) hbi_model_adapter \<Rightarrow> hbi_load_session \<Rightarrow> 'al \<Rightarrow>
     (hbi_model_descriptor ptr \<times> 's \<Rightarrow> (hbi_status \<times> hbi_model_descriptor ptr \<times> 's) option) list" where
  "model_steps a ses al =
     [\<lambda>(d, s). (case the (ma_init a) (Some ses) (Some al) s of (st, s') \<Rightarrow> Some (st, d, s')),
      \<lambda>(d, s). (case the (ma_validate_metadata a) (Some (ls_metadata ses)) s of (st, s') \<Rightarrow> Some (st, d, s')),
      \<lambda>(d, s). Some (the (ma_build_descriptor a) (Some (ls_metadata ses)) d s),
      \<lambda>(d, s). map_option (\<lambda>(st, s'). (st, d, s')) (the (ma_register_tensors a) (Some (ls_manifest ses)) d s)]"

definition model_stats :: "(nat \<Rightarrow> u64) \<Rightarrow> hbi_load_session \<Rightarrow> hbi_status \<Rightarrow> hbi_model_statistics" where
  "model_stats now ses st = zero_statistics\<lparr>init_time_ns := now 1 - now 0,
     tensors_registered := (if st = HBI_OK then of_nat (length (mf_entries (ls_manifest ses))) else 0)\<rparr>"

lemma init_model_steps:
  assumes "required_fields a"
  shows "hbi_adapter_init_model now (Some a) (Some ses) (Some al) (Some d) out s =
     map_option (\<lambda>(st, d', s'). (st, d', map_option (\<lambda>_. model_stats now ses st) out, s'))
       (run_steps (model_steps a ses al) (Some zero_descriptor, s))"
proof -
  obtain i v b r where a: "ma_init a = Some i" "ma_validate_metadata a = Some v" "ma_build_descriptor a = Some b"
    "ma_register_tensors a = Some r"
    using assms by (auto simp: required_fields_def)
  show ?thesis
    by (auto simp: hbi_adapter_init_model_def model_steps_def model_stats_def a Let_def zero_statistics_def
        hbi_load_session_metadata_def hbi_load_session_manifest_def hbi_model_manifest_count_def split: prod.splits option.splits)
qed

definition register_adapters ::
  "('s, 'c, 'al) adapter_registry \<Rightarrow> ('s, 'c, 'al) hbi_model_adapter list \<Rightarrow> ('s, 'c, 'al) adapter_registry" where
  "register_adapters r as = foldl (\<lambda>r a. snd (hbi_adapter_register r (Some a))) r as"

lemma register_adapters_inv: "adpr.reg_inv (register_adapters [] as)"
  unfolding register_adapters_def by (rule adpr.register_all_inv) (simp add: adpr.reg_inv_def)

text \<open>
  C37. Once an adapter has been accepted, a model whose metadata names it is handed to that adapter,
  whatever is registered before and afterwards, and the initialisation pipeline on it never calls a
  NULL callback: it is exactly the sequence init, validate metadata, build descriptor, register
  tensors on the zeroed descriptor, stopping at the first callback that fails with its status, and
  the reported statistics count the tensors of the manifest only on success.\<close>

theorem adapter_dispatch:
  assumes "hbi_adapter_register (register_adapters [] before) (Some a) = (HBI_OK, r)"
    and "ma_name a = Some name" and "name \<noteq> []"
    and "hbi_model_metadata_get (Some (ls_metadata ses)) (Some (ascii ''architecture'')) = Some (ascii name)"
  shows "hbi_adapter_resolve (register_adapters r after) (Some ses) = Inr a \<and>
     hbi_adapter_init_model now (Some a) (Some ses) (Some al) (Some d) out s =
       map_option (\<lambda>(st, d', s'). (st, d', map_option (\<lambda>_. model_stats now ses st) out, s'))
         (run_steps (model_steps a ses al) (Some zero_descriptor, s))"
  using adapter_accepted_found [OF register_adapters_inv assms(1), of after] assms(2-4)
    init_model_steps [OF register_complete(1) [OF assms(1)]]
  by (simp add: hbi_adapter_resolve_def hbi_load_session_metadata_def register_adapters_def)

end
