(* ===== verification/Adapter_Mock.thy ===== *)
theory Adapter_Mock
  imports Adapter
begin

text \<open>
  The mock adapter (\<open>src/src/adapter/adapter_mock.c\<close>), the smallest complete adapter: its callbacks, its
  registration, and what a client of the framework gets from it.

  The state of the callbacks is a record of the two global variables of the source and the live model
  contexts by address. An allocator is given by the address of its next block, 0 when it fails.
\<close>

section \<open>State\<close>

record mock_private =
  mp_hidden_size :: u32
  mp_num_layers :: u32
  mp_num_heads :: u32
  mp_vocab_size :: u32
  mp_initialized :: bool

definition zero_mock_private :: mock_private where
  "zero_mock_private = \<lparr>mp_hidden_size = 0, mp_num_layers = 0, mp_num_heads = 0, mp_vocab_size = 0, mp_initialized = False\<rparr>"

record mock_world =
  g_mock_stats :: hbi_model_statistics
  g_mock_state :: mock_private
  mock_contexts :: "nat \<rightharpoonup> unit hbi_model_context"

section \<open>Callbacks\<close>

definition mock_init :: "hbi_load_session ptr \<Rightarrow> nat ptr \<Rightarrow> mock_world \<Rightarrow> hbi_status \<times> mock_world" where
  "mock_init session allocator w =
     (let w1 = w\<lparr>g_mock_state := zero_mock_private, g_mock_stats := zero_statistics\<rparr> in
      case session of
        None \<Rightarrow> (HBI_ERR_INVALID_ARG, w1)
      | Some _ \<Rightarrow> (HBI_OK, w1\<lparr>g_mock_state := (g_mock_state w1)\<lparr>mp_initialized := True\<rparr>\<rparr>))"

definition mock_required_keys :: "string list" where
  "mock_required_keys = [''hidden_size'', ''num_attention_heads'', ''num_layers'', ''vocab_size'']"

fun mock_check_keys :: "hbi_model_metadata \<Rightarrow> string list \<Rightarrow> hbi_status" where
  "mock_check_keys md [] = HBI_OK"
| "mock_check_keys md (k # ks) =
     (case metadata_text md k of
        None \<Rightarrow> HBI_ERR_NOT_FOUND
      | Some v \<Rightarrow>
          (case parse_uint32 (Some v) of None \<Rightarrow> HBI_ERR_CORRUPT | Some _ \<Rightarrow> mock_check_keys md ks))"

definition mock_validate_metadata :: "hbi_model_metadata ptr \<Rightarrow> mock_world \<Rightarrow> hbi_status \<times> mock_world" where
  "mock_validate_metadata metadata w =
     (case metadata of
        None \<Rightarrow> (HBI_ERR_INVALID_ARG, w)
      | Some md \<Rightarrow>
          if metadata_text md ''architecture'' \<noteq> Some ''mock'' then (HBI_ERR_NOT_FOUND, w)
          else (mock_check_keys md mock_required_keys, w))"

definition mock_build_descriptor ::
  "hbi_model_metadata ptr \<Rightarrow> hbi_model_descriptor ptr \<Rightarrow> mock_world \<Rightarrow> hbi_status \<times> hbi_model_descriptor ptr \<times> mock_world" where
  "mock_build_descriptor metadata out w =
     (case (metadata, out) of
        (Some md, Some _) \<Rightarrow>
          let d1 = zero_descriptor\<lparr>architecture_name := take (HBI_ADAPTER_NAME_MAX - 1) ''mock'',
                     d_architecture := HBI_ADAPTER_ARCH_TRANSFORMER_DENSE,
                     hidden_size := parse_into md ''hidden_size'' 0,
                     num_attention_heads := parse_into md ''num_attention_heads'' 0,
                     num_layers := parse_into md ''num_layers'' 0,
                     vocab_size := parse_into md ''vocab_size'' 0\<rparr>;
              d2 = d1\<lparr>num_kv_heads := num_attention_heads d1, intermediate_size := hidden_size d1 * 4,
                     max_seq_length := 2048, attention_variant := HBI_ATTENTION_MHA,
                     norm_type := HBI_NORM_RMSNORM, d_activation := HBI_ADAPTER_ACT_SILU\<rparr>;
              d3 = set_layers [HBI_LAYER_EMBEDDING, HBI_LAYER_ATTENTION, HBI_LAYER_FEED_FORWARD,
                     HBI_LAYER_NORMALIZATION, HBI_LAYER_OUTPUT_HEAD, HBI_LAYER_RESIDUAL] (Some d2);
              p = (g_mock_state w)\<lparr>mp_hidden_size := hidden_size d2, mp_num_layers := num_layers d2,
                     mp_num_heads := num_attention_heads d2, mp_vocab_size := vocab_size d2\<rparr>
          in (HBI_OK, d3, w\<lparr>g_mock_state := p\<rparr>)
      | _ \<Rightarrow> (HBI_ERR_INVALID_ARG, out, w))"

text \<open>\<open>slots\<close> are the two table entries that the nodes are written to.\<close>

definition mock_build_graph ::
  "hbi_node \<times> hbi_node \<Rightarrow> hbi_graph_builder ptr \<Rightarrow> hbi_model_descriptor ptr \<Rightarrow> mock_world \<Rightarrow>
     (hbi_status \<times> hbi_graph_builder ptr \<times> mock_world) option" where
  "mock_build_graph slots builder descriptor w =
     (case (builder, descriptor) of
        (Some b, Some d) \<Rightarrow>
          (case hbi_graph_add_input (Some b) (Some ''input_ids'') (Some (shape_of_dims [1, uint (hidden_size d)])) HBI_DTYPE_FP32 of
             Inl st \<Rightarrow> Some (st, builder, w)
           | Inr (input_id, b1) \<Rightarrow>
               (case hbi_graph_add_node (Some b1) (fst slots) (Some ''mock_embedding'') HBI_KERNEL_OP_COPY (Some zero_params) (Some [input_id]) 1 1 of
                  (st1, b2, outs1) \<Rightarrow>
                    if st1 \<noteq> HBI_OK then Some (st1, b2, w)
                    else
                      (case hbi_graph_add_node b2 (snd slots) (Some ''mock_norm'') HBI_KERNEL_OP_COPY (Some zero_params) (Some outs1) 1 1 of
                         (st2, b3, outs2) \<Rightarrow>
                           if st2 \<noteq> HBI_OK then Some (st2, b3, w)
                           else Some (HBI_OK, b3, w\<lparr>g_mock_stats := (g_mock_stats w)\<lparr>graph_nodes := 2, graph_values := 3\<rparr>\<rparr>))))
      | _ \<Rightarrow> Some (HBI_ERR_INVALID_ARG, builder, w))"

definition mock_register_tensors ::
  "hbi_model_manifest ptr \<Rightarrow> hbi_model_descriptor ptr \<Rightarrow> mock_world \<Rightarrow> (hbi_status \<times> mock_world) option" where
  "mock_register_tensors manifest descriptor w =
     (case (manifest, descriptor) of
        (Some m, Some d) \<Rightarrow>
          (case hbi_model_manifest_find (Some m) (Some (ascii ''model.embed_tokens.weight'')) of
             None \<Rightarrow> Some (HBI_ERR_NOT_FOUND, w)
           | Some _ \<Rightarrow> Some (HBI_OK, w\<lparr>g_mock_stats := (g_mock_stats w)
               \<lparr>tensors_registered := of_nat (hbi_model_manifest_count (Some m))\<rparr>\<rparr>))
      | _ \<Rightarrow> Some (HBI_ERR_INVALID_ARG, w))"

definition mock_create_context ::
  "hbi_model_descriptor ptr \<Rightarrow> nat ptr \<Rightarrow> mock_world \<Rightarrow> (hbi_status \<times> nat ptr \<times> mock_world) option" where
  "mock_create_context descriptor allocator w =
     (case (descriptor, allocator) of
        (Some d, Some addr) \<Rightarrow>
          if addr = 0 then Some (HBI_ERR_OOM, None, w)
          else Some (HBI_OK, Some addr, w\<lparr>
            mock_contexts := (mock_contexts w)(addr \<mapsto> \<lparr>mc_descriptor = d, mc_stats = g_mock_stats w,
              mc_private_data = None, mc_private_data_size = 0, mc_initialized = True\<rparr>),
            g_mock_stats := (g_mock_stats w)\<lparr>adapter_memory_bytes := adapter_memory_bytes (g_mock_stats w) + sizeof_model_context\<rparr>\<rparr>)
      | _ \<Rightarrow> Some (HBI_ERR_INVALID_ARG, None, w))"

text \<open>Destroying a context that is not live is undefined.\<close>

definition mock_destroy_context :: "nat ptr \<Rightarrow> mock_world \<Rightarrow> mock_world option" where
  "mock_destroy_context context w =
     (case context of
        None \<Rightarrow> Some w
      | Some addr \<Rightarrow>
          if mock_contexts w addr = None then None
          else Some (w\<lparr>mock_contexts := (mock_contexts w)(addr := None)\<rparr>))"

definition mock_get_capabilities :: u32 where
  "mock_get_capabilities = HBI_CAP_SUPPORTS_BATCHED_INFERENCE OR HBI_CAP_SUPPORTS_QUANTIZED_WEIGHTS"

definition mock_get_statistics :: "bool \<Rightarrow> mock_world \<Rightarrow> hbi_model_statistics outcome" where
  "mock_get_statistics out w = (if \<not> out then Inl HBI_ERR_INVALID_ARG else Inr (g_mock_stats w))"

definition mock_shutdown :: "mock_world \<Rightarrow> mock_world" where
  "mock_shutdown w = w\<lparr>g_mock_state := zero_mock_private, g_mock_stats := zero_statistics\<rparr>"

definition g_mock_adapter :: "hbi_node \<times> hbi_node \<Rightarrow> (mock_world, nat, nat) hbi_model_adapter" where
  "g_mock_adapter slots = \<lparr>ma_name = Some ''mock'', ma_architecture = HBI_ADAPTER_ARCH_GENERIC,
     ma_init = Some mock_init, ma_validate_metadata = Some mock_validate_metadata,
     ma_build_descriptor = Some mock_build_descriptor, ma_build_graph = Some (mock_build_graph slots),
     ma_register_tensors = Some mock_register_tensors, ma_create_context = Some mock_create_context,
     ma_destroy_context = Some mock_destroy_context, ma_get_capabilities = Some mock_get_capabilities,
     ma_get_statistics = Some mock_get_statistics, ma_shutdown = Some mock_shutdown\<rparr>"

definition hbi_adapter_mock_register ::
  "hbi_node \<times> hbi_node \<Rightarrow> (mock_world, nat, nat) adapter_registry \<Rightarrow> hbi_status \<times> (mock_world, nat, nat) adapter_registry" where
  "hbi_adapter_mock_register slots reg = hbi_adapter_register reg (Some (g_mock_adapter slots))"

definition hbi_adapter_mock_get :: "hbi_node \<times> hbi_node \<Rightarrow> (mock_world, nat, nat) hbi_model_adapter" where
  "hbi_adapter_mock_get slots = g_mock_adapter slots"

section \<open>What the adapter delivers\<close>

lemma mock_registers: "hbi_adapter_register [] (Some (g_mock_adapter slots)) = (HBI_OK, [g_mock_adapter slots])"
  by (simp add: hbi_adapter_register_def g_mock_adapter_def required_fields_def HBI_ADAPTER_REGISTRY_MAX_def)

text \<open>The graph that the statistics count: two nodes and three values behind those of the builder.\<close>

lemma mock_graph_counts:
  assumes "length (b_nodes b) + 2 \<le> HBI_GRAPH_MAX_NODES" and "length (b_values b) + 3 \<le> HBI_GRAPH_MAX_VALUES"
  shows "\<exists>b'. mock_build_graph slots (Some b) (Some d) w =
       Some (HBI_OK, Some b', w\<lparr>g_mock_stats := (g_mock_stats w)\<lparr>graph_nodes := 2, graph_values := 3\<rparr>\<rparr>) \<and>
     length (b_nodes b') = length (b_nodes b) + 2 \<and> length (b_values b') = length (b_values b) + 3"
  using assms
  by (simp add: mock_build_graph_def hbi_graph_add_input_def add_value_def hbi_graph_add_node_def Let_def
      infer_output_shape_def HBI_KERNEL_MAX_INPUTS_def HBI_KERNEL_MAX_OUTPUTS_def dtype_valid_iff nth_append)

definition demo_metadata :: hbi_model_metadata where
  "demo_metadata = \<lparr>md_pairs = [(ascii ''architecture'', ascii ''mock''), (ascii ''hidden_size'', ascii ''8''),
     (ascii ''num_attention_heads'', ascii ''2''), (ascii ''num_layers'', ascii ''1''), (ascii ''vocab_size'', ascii ''16'')],
     md_capacity = 32\<rparr>"

definition demo_session :: hbi_load_session where
  "demo_session = \<lparr>ls_manifest = \<lparr>mf_entries = [\<lparr>te_name = ascii ''model.embed_tokens.weight'', te_shape = shape_of_dims [16, 8],
       te_dtype = HBI_DTYPE_FP32, te_file_offset = 0, te_byte_size = 512, te_required_alignment = 1, te_shard_index = 0,
       te_residency = HBI_RESIDENCY_DEFAULT\<rparr>], mf_capacity = 64\<rparr>, ls_metadata = demo_metadata,
     ls_stats = \<lparr>ld_metadata_parse_time_ns = 0, ld_validation_time_ns = 0, ld_total_load_time_ns = 0,
       ld_tensors_registered = 0, ld_bytes_indexed = 0, ld_validation_warnings = 0, ld_validation_errors = 0\<rparr>,
     ls_options = None, ls_detected_format = HBI_MODEL_FORMAT_UNKNOWN, ls_handler = None, ls_state = HBI_LOAD_STATE_COMPLETE\<rparr>"

definition demo_world :: mock_world where
  "demo_world = \<lparr>g_mock_stats = zero_statistics, g_mock_state = zero_mock_private, mock_contexts = Map.empty\<rparr>"

text \<open>The mock adapter takes the demonstration model and its pipeline succeeds.\<close>

lemma demo_pipeline_OK:
  "map_option fst (run_steps (model_steps (g_mock_adapter (demo_slot, demo_slot)) demo_session (0 :: nat)) (Some zero_descriptor, demo_world))
     = Some HBI_OK"
  by code_simp

theorem adapter_dispatch_witness:
  "hbi_adapter_resolve [g_mock_adapter (demo_slot, demo_slot)] (Some demo_session) = Inr (g_mock_adapter (demo_slot, demo_slot)) \<and>
   map_option fst (hbi_adapter_init_model (\<lambda>i. of_nat i) (Some (g_mock_adapter (demo_slot, demo_slot))) (Some demo_session) (Some 0)
     (Some zero_descriptor) None demo_world) = Some HBI_OK"
  using adapter_dispatch [of "[]" "g_mock_adapter (demo_slot, demo_slot)" "[g_mock_adapter (demo_slot, demo_slot)]" "''mock''"
      demo_session "[]" "\<lambda>i. of_nat i" 0 zero_descriptor None demo_world] mock_registers demo_pipeline_OK
  by (simp add: register_adapters_def g_mock_adapter_def demo_session_def demo_metadata_def hbi_model_metadata_get_def split: prod.splits)

end
