(* ===== verification/Gpt_Oss.thy ===== *)
theory Gpt_Oss
  imports Adapter Kv "HOL-Library.Multiset"
begin

text \<open>
  The GPT-OSS adapter (\<open>src/src/adapter/adapter_gpt_oss.c\<close>) apart from its forward pass: metadata,
  descriptor, graph construction, the check of a model's tensors, the life of a context, and the
  binding of weights.

  \<^item> The type \<open>'f\<close> of the values of \<open>float\<close> is a parameter; \<open>num\<close> says which texts \<open>strtod\<close> converts
    completely, and to which value.
  \<^item> The state of the callbacks is a record of the two global variables, the live contexts by
    address, the set of live blocks of the allocator, and the memory the KV cache starts from.
  \<^item> An allocator answers the \<open>i\<close>-th request of a call for a number of bytes with an address, 0 when it
    fails. Freeing an address that is not live, and a division by a zero number of heads, are
    undefined in C and \<open>None\<close> here.
\<close>

unbundle bit_operations_syntax

section \<open>State\<close>

definition GPT_OSS_NAME :: string where "GPT_OSS_NAME = ''gpt_oss''"
definition HBI_GPT_OSS_MAX_LAYERS :: u32 where "HBI_GPT_OSS_MAX_LAYERS = 256"

record 'f gpt_oss_global_state =
  gs_rms_norm_eps :: 'f
  gs_rope_theta :: 'f
  gs_initialized :: bool

record gpt_oss_layer_weights =
  q_proj :: hbi_tensor
  k_proj :: hbi_tensor
  v_proj :: hbi_tensor
  o_proj :: hbi_tensor
  input_norm :: hbi_tensor
  post_norm :: hbi_tensor
  gate_proj :: hbi_tensor
  up_proj :: hbi_tensor
  down_proj :: hbi_tensor

text \<open>
  The private context. \<open>cx_self\<close> and \<open>cx_kv_self\<close> are the addresses of the struct itself and of the KV
  manager; \<open>cx_scratch\<close> holds the nine scratch pointers \<open>scratch_a\<close>, \<open>scratch_b\<close>, \<open>scratch_c\<close>, \<open>scratch_d\<close>,
  \<open>attn_q\<close>, \<open>attn_k\<close>, \<open>attn_v\<close>, \<open>attn_out\<close>, \<open>logits\<close>, in this order.
\<close>

record 'f gpt_oss_context =
  cx_self :: nat
  embed_tokens :: hbi_tensor
  final_norm :: hbi_tensor
  lm_head :: hbi_tensor
  cx_layers_ptr :: nat
  cx_layers :: "gpt_oss_layer_weights list"
  cx_num_layers :: u32
  cx_hidden_size :: u32
  cx_num_q_heads :: u32
  cx_num_kv_heads :: u32
  cx_head_dim :: u32
  cx_intermediate_size :: u32
  cx_vocab_size :: u32
  cx_rms_norm_eps :: 'f
  cx_rope_theta :: 'f
  cx_scratch :: "nat list"
  cx_kv_self :: nat
  cx_kv_manager :: "hbi_kv_manager ptr"
  cx_kv_handle :: nat
  cx_initialized :: bool

definition zero_layer :: gpt_oss_layer_weights where
  "zero_layer = \<lparr>q_proj = zero_tensor, k_proj = zero_tensor, v_proj = zero_tensor, o_proj = zero_tensor,
     input_norm = zero_tensor, post_norm = zero_tensor, gate_proj = zero_tensor, up_proj = zero_tensor,
     down_proj = zero_tensor\<rparr>"

record 'f gpt_world =
  g_gpt_oss_state :: "'f gpt_oss_global_state"
  g_gpt_oss_stats :: hbi_model_statistics
  g_contexts :: "nat \<rightharpoonup> 'f gpt_oss_context hbi_model_context"
  g_live :: "nat set"
  g_mem :: memory

section \<open>Metadata\<close>

definition parse_float :: "(string \<Rightarrow> 'f option) \<Rightarrow> string ptr \<Rightarrow> 'f \<Rightarrow> 'f" where
  "parse_float num s old =
     (case s of
        None \<Rightarrow> old
      | Some t \<Rightarrow> if t = [] then old else (case num t of None \<Rightarrow> old | Some v \<Rightarrow> v))"

text \<open>\<open>zero\<close>, \<open>eps\<close> and \<open>theta\<close> are the floats \<open>0.0f\<close>, \<open>GPT_OSS_DEFAULT_EPS\<close> and \<open>GPT_OSS_DEFAULT_ROPE_THETA\<close>.\<close>

definition gpt_oss_init ::
  "(string \<Rightarrow> 'f option) \<Rightarrow> 'f \<Rightarrow> 'f \<Rightarrow> 'f \<Rightarrow> hbi_load_session ptr \<Rightarrow> 'f gpt_world \<Rightarrow> hbi_status \<times> 'f gpt_world" where
  "gpt_oss_init num zero eps theta session w =
     (let w1 = w\<lparr>g_gpt_oss_state := \<lparr>gs_rms_norm_eps = zero, gs_rope_theta = zero, gs_initialized = False\<rparr>,
                 g_gpt_oss_stats := zero_statistics\<rparr> in
      case session of
        None \<Rightarrow> (HBI_ERR_INVALID_ARG, w1)
      | Some ses \<Rightarrow>
          (case hbi_load_session_metadata (Some ses) of
             None \<Rightarrow> (HBI_OK, w1\<lparr>g_gpt_oss_state := \<lparr>gs_rms_norm_eps = eps, gs_rope_theta = theta, gs_initialized = True\<rparr>\<rparr>)
           | Some md \<Rightarrow>
               (HBI_OK, w1\<lparr>g_gpt_oss_state := \<lparr>
                  gs_rms_norm_eps = parse_float num (metadata_text md ''rms_norm_eps'') eps,
                  gs_rope_theta = parse_float num (metadata_text md ''rope_theta'') theta,
                  gs_initialized = True\<rparr>\<rparr>)))"

definition gpt_oss_required :: "string list" where
  "gpt_oss_required = [''hidden_size'', ''intermediate_size'', ''num_attention_heads'', ''num_key_value_heads'',
     ''num_hidden_layers'', ''vocab_size'', ''max_position_embeddings'']"

fun gpt_oss_check_keys :: "hbi_model_metadata \<Rightarrow> string list \<Rightarrow> hbi_status" where
  "gpt_oss_check_keys md [] = HBI_OK"
| "gpt_oss_check_keys md (k # ks) =
     (case metadata_text md k of
        None \<Rightarrow> HBI_ERR_NOT_FOUND
      | Some v \<Rightarrow>
          (case parse_uint32 (Some v) of
             None \<Rightarrow> HBI_ERR_CORRUPT
           | Some n \<Rightarrow> if n = 0 then HBI_ERR_CORRUPT else gpt_oss_check_keys md ks))"

definition gpt_oss_validate_metadata :: "hbi_model_metadata ptr \<Rightarrow> 'f gpt_world \<Rightarrow> hbi_status \<times> 'f gpt_world" where
  "gpt_oss_validate_metadata metadata w =
     (case metadata of
        None \<Rightarrow> (HBI_ERR_INVALID_ARG, w)
      | Some md \<Rightarrow>
          if metadata_text md ''architecture'' \<noteq> Some GPT_OSS_NAME then (HBI_ERR_NOT_FOUND, w)
          else (gpt_oss_check_keys md gpt_oss_required, w))"

definition gpt_oss_build_descriptor ::
  "hbi_model_metadata ptr \<Rightarrow> hbi_model_descriptor ptr \<Rightarrow> 'f gpt_world \<Rightarrow> hbi_status \<times> hbi_model_descriptor ptr \<times> 'f gpt_world" where
  "gpt_oss_build_descriptor metadata out w =
     (case (metadata, out) of
        (Some md, Some _) \<Rightarrow>
          let d0 = zero_descriptor\<lparr>architecture_name := take (HBI_ADAPTER_NAME_MAX - 1) GPT_OSS_NAME,
                     d_architecture := HBI_ADAPTER_ARCH_TRANSFORMER_DENSE\<rparr>;
              hidden = parse_into md ''hidden_size'' 0;
              intermed = parse_into md ''intermediate_size'' 0;
              q_heads = parse_into md ''num_attention_heads'' 0;
              kv_heads = parse_into md ''num_key_value_heads'' 0;
              layers = parse_into md ''num_hidden_layers'' 0;
              vocab = parse_into md ''vocab_size'' 0;
              max_seq = parse_into md ''max_position_embeddings'' 0
          in if layers > HBI_GPT_OSS_MAX_LAYERS then (HBI_ERR_CORRUPT, Some d0, w)
             else
               let kv = (if kv_heads > 0 then kv_heads else q_heads);
                   d1 = d0\<lparr>hidden_size := hidden, intermediate_size := intermed, num_attention_heads := q_heads,
                          num_kv_heads := kv, num_layers := layers, vocab_size := vocab, max_seq_length := max_seq,
                          num_experts := 0, num_experts_active := 0, moe_layer_stride := 0,
                          attention_variant := (if kv < q_heads then HBI_ATTENTION_GQA else HBI_ATTENTION_MHA),
                          norm_type := HBI_NORM_RMSNORM, d_activation := HBI_ADAPTER_ACT_SWIGLU\<rparr>
               in (HBI_OK, set_layers [HBI_LAYER_EMBEDDING, HBI_LAYER_NORMALIZATION, HBI_LAYER_ATTENTION,
                     HBI_LAYER_FEED_FORWARD, HBI_LAYER_RESIDUAL, HBI_LAYER_OUTPUT_HEAD] (Some d1), w)
      | _ \<Rightarrow> (HBI_ERR_INVALID_ARG, out, w))"

section \<open>Graph construction\<close>

text \<open>
  A call of \<open>hbi_graph_add_node\<close> with one output, as a step on the builder that yields the id of the
  output or a status; the table entries that the nodes are written to are \<open>slot\<close>.
\<close>

type_synonym 'a graph_step = "hbi_graph_builder \<Rightarrow> 'a outcome \<times> hbi_graph_builder"

definition gbind :: "'a graph_step \<Rightarrow> ('a \<Rightarrow> 'b graph_step) \<Rightarrow> 'b graph_step" where
  "gbind m f b = (case m b of (Inl st, b') \<Rightarrow> (Inl st, b') | (Inr x, b') \<Rightarrow> f x b')"

definition greturn :: "'a \<Rightarrow> 'a graph_step" where
  "greturn x b = (Inr x, b)"

definition add_op ::
  "(nat \<Rightarrow> hbi_node) \<Rightarrow> string \<Rightarrow> hbi_kernel_op \<Rightarrow> hbi_kernel_params \<Rightarrow> nat list \<Rightarrow> nat graph_step" where
  "add_op slot name op p ins b =
     (case hbi_graph_add_node (Some b) (slot (length (b_nodes b))) (Some name) op (Some p) (Some ins) (length ins) 1 of
        (st, b', outs) \<Rightarrow> (if st \<noteq> HBI_OK then Inl st else Inr (hd outs), the b'))"

definition node_name :: "nat \<Rightarrow> string \<Rightarrow> string" where
  "node_name layer block = take 63 (''l'' @ show_nat layer @ ''.'' @ block)"

definition build_layer_graph :: "(nat \<Rightarrow> hbi_node) \<Rightarrow> nat \<Rightarrow> nat \<Rightarrow> nat graph_step" where
  "build_layer_graph slot layer in_id =
     (let p = zero_params in
      gbind (add_op slot (node_name layer ''pre_norm'') HBI_KERNEL_OP_RMSNORM p [in_id]) (\<lambda>tmp0.
      gbind (add_op slot (node_name layer ''q_proj'') HBI_KERNEL_OP_MATMUL p [tmp0]) (\<lambda>q_out.
      gbind (add_op slot (node_name layer ''k_proj'') HBI_KERNEL_OP_MATMUL p [tmp0]) (\<lambda>k_out.
      gbind (add_op slot (node_name layer ''v_proj'') HBI_KERNEL_OP_MATMUL p [tmp0]) (\<lambda>v_out.
      gbind (add_op slot (node_name layer ''rope_q'') HBI_KERNEL_OP_ROPE p [q_out]) (\<lambda>q_rope.
      gbind (add_op slot (node_name layer ''rope_k'') HBI_KERNEL_OP_ROPE p [k_out]) (\<lambda>k_rope.
      gbind (add_op slot (node_name layer ''attn'') HBI_KERNEL_OP_ATTENTION p [q_rope, k_rope, v_out]) (\<lambda>attn_out.
      gbind (add_op slot (node_name layer ''o_proj'') HBI_KERNEL_OP_MATMUL p [attn_out]) (\<lambda>o_out.
      gbind (add_op slot (node_name layer ''res1'') HBI_KERNEL_OP_ELEMENTWISE (p\<lparr>elementwise := HBI_ELEMENTWISE_ADD\<rparr>) [in_id, o_out]) (\<lambda>res1_out.
      gbind (add_op slot (node_name layer ''post_norm'') HBI_KERNEL_OP_RMSNORM p [res1_out]) (\<lambda>pnorm_out.
      gbind (add_op slot (node_name layer ''gate_proj'') HBI_KERNEL_OP_MATMUL p [pnorm_out]) (\<lambda>gate_out.
      gbind (add_op slot (node_name layer ''up_proj'') HBI_KERNEL_OP_MATMUL p [pnorm_out]) (\<lambda>up_out.
      gbind (add_op slot (node_name layer ''silu'') HBI_KERNEL_OP_ACTIVATION (p\<lparr>activation := HBI_ACTIVATION_SILU\<rparr>) [gate_out]) (\<lambda>silu_out.
      gbind (add_op slot (node_name layer ''swiglu'') HBI_KERNEL_OP_ELEMENTWISE (p\<lparr>elementwise := HBI_ELEMENTWISE_MUL\<rparr>) [silu_out, up_out]) (\<lambda>swiglu_out.
      gbind (add_op slot (node_name layer ''down_proj'') HBI_KERNEL_OP_MATMUL p [swiglu_out]) (\<lambda>down_out.
        add_op slot (node_name layer ''res2'') HBI_KERNEL_OP_ELEMENTWISE (p\<lparr>elementwise := HBI_ELEMENTWISE_ADD\<rparr>) [res1_out, down_out]))))))))))))))))"

fun build_layers :: "(nat \<Rightarrow> hbi_node) \<Rightarrow> nat list \<Rightarrow> nat \<Rightarrow> nat graph_step" where
  "build_layers slot [] cur = greturn cur"
| "build_layers slot (l # ls) cur = gbind (build_layer_graph slot l cur) (build_layers slot ls)"

definition add_input :: "string \<Rightarrow> hbi_shape \<Rightarrow> hbi_dtype \<Rightarrow> nat graph_step" where
  "add_input name sh dt b =
     (case hbi_graph_add_input (Some b) (Some name) (Some sh) dt of Inl st \<Rightarrow> (Inl st, b) | Inr (i, b') \<Rightarrow> (Inr i, b'))"

definition gpt_oss_graph :: "(nat \<Rightarrow> hbi_node) \<Rightarrow> hbi_model_descriptor \<Rightarrow> nat graph_step" where
  "gpt_oss_graph slot d =
     gbind (add_input ''token_ids'' (shape_of_dims [1]) HBI_DTYPE_INT8) (\<lambda>tok_id.
     gbind (add_input ''hidden'' (shape_of_dims [uint (hidden_size d)]) HBI_DTYPE_FP32) (\<lambda>embed_out.
     gbind (build_layers slot [0..<unat (num_layers d)] embed_out) (\<lambda>cur.
     gbind (add_op slot ''final_norm'' HBI_KERNEL_OP_RMSNORM zero_params [cur]) (\<lambda>fnorm_out.
       add_op slot ''lm_head'' HBI_KERNEL_OP_MATMUL zero_params [fnorm_out]))))"

definition gpt_oss_build_graph ::
  "(nat \<Rightarrow> hbi_node) \<Rightarrow> (nat \<Rightarrow> u64) \<Rightarrow> hbi_graph_builder ptr \<Rightarrow> hbi_model_descriptor ptr \<Rightarrow> 'f gpt_world \<Rightarrow>
     (hbi_status \<times> hbi_graph_builder ptr \<times> 'f gpt_world) option" where
  "gpt_oss_build_graph slot now builder desc w =
     (case (builder, desc) of
        (Some b, Some d) \<Rightarrow>
          if num_attention_heads d = 0 then None
          else
            (case gpt_oss_graph slot d b of
               (Inl st, b') \<Rightarrow> Some (st, Some b', w)
             | (Inr _, b') \<Rightarrow>
                 let n = 2 + num_layers d * 14 in
                 Some (HBI_OK, Some b', w\<lparr>g_gpt_oss_stats := (g_gpt_oss_stats w)\<lparr>
                   graph_build_time_ns := now 1 - now 0, graph_nodes := n, graph_values := n + 2\<rparr>\<rparr>))
      | _ \<Rightarrow> Some (HBI_ERR_INVALID_ARG, builder, w))"

section \<open>Tensors of a model\<close>

definition layer_tensor_name :: "nat \<Rightarrow> string \<Rightarrow> string" where
  "layer_tensor_name layer suffix = take (HBI_TENSOR_NAME_MAX - 1) (''model.layers.'' @ show_nat layer @ ''.'' @ suffix)"

definition require_tensor :: "hbi_model_manifest \<Rightarrow> string \<Rightarrow> hbi_tensor_entry outcome" where
  "require_tensor m name =
     (case hbi_model_manifest_find (Some m) (Some (ascii name)) of None \<Rightarrow> Inl HBI_ERR_NOT_FOUND | Some e \<Rightarrow> Inr e)"

definition check_shape_2d :: "hbi_tensor_entry \<Rightarrow> int \<Rightarrow> int \<Rightarrow> hbi_status" where
  "check_shape_2d e rows cols =
     (if rank (te_shape e) \<noteq> 2 then HBI_ERR_CORRUPT
      else if dims (te_shape e) ! 0 \<noteq> rows \<or> dims (te_shape e) ! 1 \<noteq> cols then HBI_ERR_CORRUPT else HBI_OK)"

definition check_shape_1d :: "hbi_tensor_entry \<Rightarrow> int \<Rightarrow> hbi_status" where
  "check_shape_1d e n =
     (if rank (te_shape e) \<noteq> 1 then HBI_ERR_CORRUPT
      else if dims (te_shape e) ! 0 \<noteq> n then HBI_ERR_CORRUPT else HBI_OK)"

text \<open>One lookup with its check, and a sequence of them up to the first that fails.\<close>

definition need_2d :: "hbi_model_manifest \<Rightarrow> string \<Rightarrow> int \<Rightarrow> int \<Rightarrow> hbi_status" where
  "need_2d m name rows cols =
     (case require_tensor m name of Inl st \<Rightarrow> st | Inr e \<Rightarrow> check_shape_2d e rows cols)"

definition need_1d :: "hbi_model_manifest \<Rightarrow> string \<Rightarrow> int \<Rightarrow> hbi_status" where
  "need_1d m name n = (case require_tensor m name of Inl st \<Rightarrow> st | Inr e \<Rightarrow> check_shape_1d e n)"

fun first_error :: "hbi_status list \<Rightarrow> hbi_status" where
  "first_error [] = HBI_OK"
| "first_error (st # sts) = (if st \<noteq> HBI_OK then st else first_error sts)"

definition layer_checks :: "hbi_model_manifest \<Rightarrow> u32 \<Rightarrow> u32 \<Rightarrow> u32 \<Rightarrow> u32 \<Rightarrow> nat \<Rightarrow> hbi_status list" where
  "layer_checks m H QHD KHD IS layer =
     [need_1d m (layer_tensor_name layer ''input_layernorm.weight'') (uint H),
      need_1d m (layer_tensor_name layer ''post_attention_layernorm.weight'') (uint H),
      need_2d m (layer_tensor_name layer ''self_attn.q_proj.weight'') (uint QHD) (uint H),
      need_2d m (layer_tensor_name layer ''self_attn.k_proj.weight'') (uint KHD) (uint H),
      need_2d m (layer_tensor_name layer ''self_attn.v_proj.weight'') (uint KHD) (uint H),
      need_2d m (layer_tensor_name layer ''self_attn.o_proj.weight'') (uint H) (uint QHD),
      need_2d m (layer_tensor_name layer ''mlp.gate_proj.weight'') (uint IS) (uint H),
      need_2d m (layer_tensor_name layer ''mlp.up_proj.weight'') (uint IS) (uint H),
      need_2d m (layer_tensor_name layer ''mlp.down_proj.weight'') (uint H) (uint IS)]"

definition gpt_oss_register_tensors ::
  "hbi_model_manifest ptr \<Rightarrow> hbi_model_descriptor ptr \<Rightarrow> 'f gpt_world \<Rightarrow> (hbi_status \<times> 'f gpt_world) option" where
  "gpt_oss_register_tensors manifest desc w =
     (case (manifest, desc) of
        (Some m, Some d) \<Rightarrow>
          if num_attention_heads d = 0 then None
          else
            let H = hidden_size d; QH = num_attention_heads d; KH = num_kv_heads d; HD = H div QH;
                IS = intermediate_size d; V = vocab_size d;
                st = first_error ([need_2d m ''model.embed_tokens.weight'' (uint V) (uint H),
                       need_1d m ''model.norm.weight'' (uint H),
                       need_2d m ''lm_head.weight'' (uint V) (uint H)] @
                       concat (map (layer_checks m H (QH * HD) (KH * HD) IS) [0..<unat (num_layers d)]))
            in if st \<noteq> HBI_OK then Some (st, w)
               else Some (HBI_OK, w\<lparr>g_gpt_oss_stats := (g_gpt_oss_stats w)
                 \<lparr>tensors_registered := of_nat (hbi_model_manifest_count (Some m))\<rparr>\<rparr>)
      | _ \<Rightarrow> Some (HBI_ERR_INVALID_ARG, w))"

section \<open>Contexts\<close>

text \<open>
  What the allocator and the platform answer during a call: the address of each block by the number
  of the request and its size, whether the mutex of the KV manager and the page of the KV context are
  created, the buffers of its key and value tensors, and the address of its handle.
\<close>

record gpt_allocator =
  ga_alloc :: "nat \<Rightarrow> u64 \<Rightarrow> nat"
  ga_mutex_ok :: bool
  ga_page_ok :: bool
  ga_kbuf :: nat
  ga_vbuf :: nat
  ga_handle :: nat

definition sizeof_gpt_oss_context :: u64 where "sizeof_gpt_oss_context = 952"
definition sizeof_layer_weights :: u64 where "sizeof_layer_weights = 2376"
definition sizeof_kv_manager :: u64 where "sizeof_kv_manager = 8264"

definition alloc_block :: "gpt_allocator \<Rightarrow> nat \<Rightarrow> u64 \<Rightarrow> nat set \<Rightarrow> nat \<times> nat set" where
  "alloc_block al i sz live = (let p = ga_alloc al i sz in (p, if p = 0 then live else insert p live))"

definition free_block :: "nat \<Rightarrow> nat set \<Rightarrow> nat set option" where
  "free_block p live = (if p = 0 then Some live else if p \<in> live then Some (live - {p}) else None)"

fun free_all :: "nat list \<Rightarrow> nat set \<Rightarrow> nat set option" where
  "free_all [] live = Some live"
| "free_all (p # ps) live = (case free_block p live of None \<Rightarrow> None | Some l \<Rightarrow> free_all ps l)"

text \<open>The scratch allocations, up to the first that fails; the pointers behind it stay NULL.\<close>

fun alloc_scratch :: "gpt_allocator \<Rightarrow> nat \<Rightarrow> u32 list \<Rightarrow> nat set \<Rightarrow> bool \<times> nat list \<times> nat set" where
  "alloc_scratch al i [] live = (True, [], live)"
| "alloc_scratch al i (n # ns) live =
     (case alloc_block al i (ucast n * 4) live of
        (p, live1) \<Rightarrow>
          if p = 0 then (False, replicate (Suc (length ns)) 0, live1)
          else (case alloc_scratch al (Suc i) ns live1 of (ok, ps, live2) \<Rightarrow> (ok, p # ps, live2)))"

definition scratch_sizes :: "hbi_model_descriptor \<Rightarrow> u32 list" where
  "scratch_sizes d =
     (let H = hidden_size d; QH = num_attention_heads d; KH = num_kv_heads d; HD = H div QH;
          IS = intermediate_size d; V = vocab_size d
      in [H, H, IS, IS, QH * HD, KH * HD, KH * HD, QH * HD, V])"

text \<open>\<open>ptrs\<close> are the scratch pointers and the layer array, then the two structs are freed.\<close>

definition context_cleanup ::
  "hbi_status \<Rightarrow> nat list \<Rightarrow> nat \<Rightarrow> nat \<Rightarrow> nat \<Rightarrow> hbi_kv_manager ptr \<Rightarrow> nat set \<Rightarrow> 'f gpt_world \<Rightarrow>
     (hbi_status \<times> nat ptr \<times> 'f gpt_world) option" where
  "context_cleanup st ptrs kv_self cx fx manager live w =
     (case free_all ptrs live of
        None \<Rightarrow> None
      | Some l1 \<Rightarrow>
          (case (case manager of
                   None \<Rightarrow> Some l1
                 | Some m \<Rightarrow> (case hbi_kv_manager_destroy m of None \<Rightarrow> None | Some _ \<Rightarrow> free_block kv_self l1)) of
             None \<Rightarrow> None
           | Some l2 \<Rightarrow> map_option (\<lambda>l3. (st, None, w\<lparr>g_live := l3\<rparr>)) (free_all [cx, fx] l2)))"

definition context_memory :: "hbi_model_descriptor \<Rightarrow> u64" where
  "context_memory d = sizeof_gpt_oss_context + ucast (sum_list (scratch_sizes d)) * 4 + ucast (num_layers d) * sizeof_layer_weights"

definition new_gpt_context ::
  "'f gpt_oss_global_state \<Rightarrow> hbi_model_descriptor \<Rightarrow> nat \<Rightarrow> nat list \<Rightarrow> nat \<Rightarrow> nat \<Rightarrow> hbi_kv_manager \<Rightarrow> nat \<Rightarrow> 'f gpt_oss_context" where
  "new_gpt_context g d cx scratch layers kv_self m handle =
     \<lparr>cx_self = cx, embed_tokens = zero_tensor, final_norm = zero_tensor, lm_head = zero_tensor,
      cx_layers_ptr = layers, cx_layers = replicate (unat (num_layers d)) zero_layer, cx_num_layers = num_layers d,
      cx_hidden_size = hidden_size d, cx_num_q_heads = num_attention_heads d, cx_num_kv_heads = num_kv_heads d,
      cx_head_dim = hidden_size d div num_attention_heads d, cx_intermediate_size = intermediate_size d,
      cx_vocab_size = vocab_size d, cx_rms_norm_eps = gs_rms_norm_eps g, cx_rope_theta = gs_rope_theta g,
      cx_scratch = scratch, cx_kv_self = kv_self, cx_kv_manager = Some m, cx_kv_handle = handle, cx_initialized = True\<rparr>"

definition kv_cache_shape :: "hbi_model_descriptor \<Rightarrow> hbi_shape" where
  "kv_cache_shape d = shape_of_dims [uint (max_seq_length d), uint (num_kv_heads d), uint (hidden_size d div num_attention_heads d)]"

definition gpt_oss_create_context ::
  "hbi_model_descriptor ptr \<Rightarrow> gpt_allocator ptr \<Rightarrow> 'f gpt_world \<Rightarrow> (hbi_status \<times> nat ptr \<times> 'f gpt_world) option" where
  "gpt_oss_create_context desc allocator w =
     (case (desc, allocator) of
        (Some d, Some al) \<Rightarrow>
          let (fx, l1) = alloc_block al 0 sizeof_model_context (g_live w) in
          if fx = 0 then Some (HBI_ERR_OOM, None, w\<lparr>g_live := l1\<rparr>)
          else
            let (cx, l2) = alloc_block al 1 sizeof_gpt_oss_context l1 in
            if cx = 0 then map_option (\<lambda>l. (HBI_ERR_OOM, None, w\<lparr>g_live := l\<rparr>)) (free_block fx l2)
            else if num_attention_heads d = 0 then None
            else
              let (ok, scratch, l3) = alloc_scratch al 2 (scratch_sizes d) l2 in
              if \<not> ok then context_cleanup HBI_ERR_OOM (scratch @ [0]) 0 cx fx None l3 w
              else
                let (lp, l4) = alloc_block al 11 (ucast (num_layers d) * sizeof_layer_weights) l3 in
                if lp = 0 then context_cleanup HBI_ERR_OOM (scratch @ [0]) 0 cx fx None l4 w
                else
                  let (kp, l5) = alloc_block al 12 sizeof_kv_manager l4 in
                  (case hbi_kv_manager_create True (kp \<noteq> 0) (ga_mutex_ok al) (g_mem w) of
                     Inl st \<Rightarrow>
                       (case free_block kp l5 of
                          None \<Rightarrow> None
                        | Some l6 \<Rightarrow> context_cleanup st (scratch @ [lp]) 0 cx fx None l6 w)
                   | Inr m \<Rightarrow>
                       (case hbi_kv_context_create (hbi_kv_allocator_contiguous_allocate (ga_page_ok al) (ga_kbuf al) (ga_vbuf al))
                               (ga_handle al) m (max_seq_length d) HBI_DTYPE_FP32 (kv_cache_shape d) (kv_cache_shape d) of
                          (st, m1) \<Rightarrow>
                            if st \<noteq> HBI_OK then context_cleanup st (scratch @ [lp]) kp cx fx (Some m1) l5 w
                            else
                              Some (HBI_OK, Some fx, w\<lparr>g_live := l5,
                                g_contexts := (g_contexts w)(fx \<mapsto> \<lparr>mc_descriptor = d, mc_stats = g_gpt_oss_stats w,
                                  mc_private_data = Some (new_gpt_context (g_gpt_oss_state w) d cx scratch lp kp m1 (ga_handle al)),
                                  mc_private_data_size = sizeof_gpt_oss_context, mc_initialized = True\<rparr>),
                                g_gpt_oss_stats := (g_gpt_oss_stats w)\<lparr>adapter_memory_bytes :=
                                  adapter_memory_bytes (g_gpt_oss_stats w) + context_memory d\<rparr>\<rparr>)))
      | _ \<Rightarrow> Some (HBI_ERR_INVALID_ARG, None, w))"

definition destroy_kv :: "'f gpt_oss_context \<Rightarrow> nat set \<Rightarrow> nat set option" where
  "destroy_kv ctx live =
     (case cx_kv_manager ctx of
        None \<Rightarrow> Some live
      | Some m \<Rightarrow>
          (case (if cx_kv_handle ctx \<noteq> 0 then hbi_kv_context_destroy m (cx_kv_handle ctx) else Some m) of
             None \<Rightarrow> None
           | Some m1 \<Rightarrow>
               (case hbi_kv_manager_destroy m1 of None \<Rightarrow> None | Some _ \<Rightarrow> free_block (cx_kv_self ctx) live)))"

definition gpt_oss_destroy_context :: "nat ptr \<Rightarrow> 'f gpt_world \<Rightarrow> 'f gpt_world option" where
  "gpt_oss_destroy_context context w =
     (case context of
        None \<Rightarrow> Some w
      | Some fx \<Rightarrow>
          (case g_contexts w fx of
             None \<Rightarrow> None
           | Some fctx \<Rightarrow>
               (case (case mc_private_data fctx of
                        None \<Rightarrow> Some (g_live w)
                      | Some ctx \<Rightarrow>
                          (case free_all (cx_scratch ctx @ [cx_layers_ptr ctx]) (g_live w) of
                             None \<Rightarrow> None
                           | Some l1 \<Rightarrow>
                               (case destroy_kv ctx l1 of None \<Rightarrow> None | Some l2 \<Rightarrow> free_block (cx_self ctx) l2))) of
                  None \<Rightarrow> None
                | Some l3 \<Rightarrow>
                    map_option (\<lambda>l4. w\<lparr>g_live := l4, g_contexts := (g_contexts w)(fx := None)\<rparr>) (free_block fx l3))))"

definition gpt_oss_get_capabilities :: u32 where
  "gpt_oss_get_capabilities =
     HBI_CAP_SUPPORTS_BATCHED_INFERENCE OR HBI_CAP_SUPPORTS_QUANTIZED_WEIGHTS OR HBI_CAP_SUPPORTS_LONG_CONTEXT"

definition gpt_oss_get_statistics :: "bool \<Rightarrow> 'f gpt_world \<Rightarrow> hbi_model_statistics outcome" where
  "gpt_oss_get_statistics out w = (if \<not> out then Inl HBI_ERR_INVALID_ARG else Inr (g_gpt_oss_stats w))"

definition gpt_oss_shutdown :: "'f \<Rightarrow> 'f gpt_world \<Rightarrow> 'f gpt_world" where
  "gpt_oss_shutdown zero w = w\<lparr>g_gpt_oss_state := \<lparr>gs_rms_norm_eps = zero, gs_rope_theta = zero, gs_initialized = False\<rparr>,
     g_gpt_oss_stats := zero_statistics\<rparr>"

definition g_gpt_oss_adapter ::
  "(string \<Rightarrow> 'f option) \<Rightarrow> 'f \<Rightarrow> 'f \<Rightarrow> 'f \<Rightarrow> (nat \<Rightarrow> hbi_node) \<Rightarrow> (nat \<Rightarrow> u64) \<Rightarrow> ('f gpt_world, nat, gpt_allocator) hbi_model_adapter" where
  "g_gpt_oss_adapter num zero eps theta slot now = \<lparr>ma_name = Some GPT_OSS_NAME,
     ma_architecture = HBI_ADAPTER_ARCH_TRANSFORMER_DENSE,
     ma_init = Some (\<lambda>session _. gpt_oss_init num zero eps theta session),
     ma_validate_metadata = Some gpt_oss_validate_metadata, ma_build_descriptor = Some gpt_oss_build_descriptor,
     ma_build_graph = Some (gpt_oss_build_graph slot now), ma_register_tensors = Some gpt_oss_register_tensors,
     ma_create_context = Some gpt_oss_create_context, ma_destroy_context = Some gpt_oss_destroy_context,
     ma_get_capabilities = Some gpt_oss_get_capabilities, ma_get_statistics = Some gpt_oss_get_statistics,
     ma_shutdown = Some (gpt_oss_shutdown zero)\<rparr>"

section \<open>Binding weights\<close>








section \<open>The graph of the model is refused\<close>






section \<open>Contexts are released completely\<close>


text \<open>Pointers that the requests from number \<open>i\<close> on returned, or NULL.\<close>

definition requested :: "gpt_allocator \<Rightarrow> nat \<Rightarrow> nat list \<Rightarrow> bool" where
  "requested al i ps \<longleftrightarrow> (\<forall>k < length ps. ps ! k = 0 \<or> (\<exists>sz. ps ! k = ga_alloc al (i + k) sz))"

lemma requested_Nil [simp]: "requested al i []"
  by (simp add: requested_def)



































end
