(* ===== verification/Gpt_Forward.thy ===== *)
theory Gpt_Forward
  imports Complex_Main Gpt_Oss "HOL-Library.Monad_Syntax"
begin

text \<open>
  The forward pass of the GPT-OSS adapter (\<open>src/src/adapter/adapter_gpt_oss.c\<close>): the scalar routines and
  \<open>hbi_adapter_gpt_oss_forward\<close>.

  \<^item> The types \<open>'f\<close> and \<open>'d\<close> of the values of \<open>float\<close> and \<open>double\<close>, their arithmetic and the functions of
    the mathematical library are parameters, collected in a record.
  \<^item> A buffer of floats is a list; the float heap maps the address of a buffer to its contents. An access
    behind the end of a buffer is undefined in C and \<open>None\<close> here, and so is a division by zero. The buffer of
    the scores, allocated and freed inside a pass, is an argument.
  \<^item> Products of sizes that the source computes in \<open>uint32_t\<close> are words; index arithmetic in \<open>size_t\<close> is
    on \<open>nat\<close>, because its operands are 32-bit.
\<close>

section \<open>Floating point\<close>

record ('f, 'd) fops =
  f_zero :: 'f
  f_one :: 'f
  f_low :: 'f
  f_add :: "'f \<Rightarrow> 'f \<Rightarrow> 'f"
  f_sub :: "'f \<Rightarrow> 'f \<Rightarrow> 'f"
  f_mul :: "'f \<Rightarrow> 'f \<Rightarrow> 'f"
  f_div :: "'f \<Rightarrow> 'f \<Rightarrow> 'f"
  f_neg :: "'f \<Rightarrow> 'f"
  f_gt :: "'f \<Rightarrow> 'f \<Rightarrow> bool"
  f_sqrt :: "'f \<Rightarrow> 'f"
  f_exp :: "'f \<Rightarrow> 'f"
  f_cos :: "'f \<Rightarrow> 'f"
  f_sin :: "'f \<Rightarrow> 'f"
  f_pow :: "'f \<Rightarrow> 'f \<Rightarrow> 'f"
  f_of_nat :: "nat \<Rightarrow> 'f"
  d_zero :: 'd
  d_of_f :: "'f \<Rightarrow> 'd"
  d_of_nat :: "nat \<Rightarrow> 'd"
  d_add :: "'d \<Rightarrow> 'd \<Rightarrow> 'd"
  d_mul :: "'d \<Rightarrow> 'd \<Rightarrow> 'd"
  d_div :: "'d \<Rightarrow> 'd \<Rightarrow> 'd"
  d_sqrt :: "'d \<Rightarrow> 'd"
  f_of_d :: "'d \<Rightarrow> 'f"



section \<open>Scalar routines\<close>



text \<open>One rotation of the loop of \<open>ref_rope_head\<close> on the head that starts at \<open>base\<close>.\<close>

definition rope_pair :: "('f, 'd) fops \<Rightarrow> nat \<Rightarrow> nat \<Rightarrow> nat \<Rightarrow> 'f \<Rightarrow> 'f list \<Rightarrow> nat \<Rightarrow> 'f list" where
  "rope_pair F base hdim pos theta x i =
     (let freq = f_div F (f_of_nat F pos) (f_pow F theta (f_div F (f_of_nat F (2 * i)) (f_of_nat F hdim)));
          c = f_cos F freq; s = f_sin F freq;
          x0 = x ! (base + i); x1 = x ! (base + i + hdim div 2)
      in x[base + i := f_sub F (f_mul F x0 c) (f_mul F x1 s),
           base + i + hdim div 2 := f_add F (f_mul F x0 s) (f_mul F x1 c)])"





definition softmax :: "('f, 'd) fops \<Rightarrow> 'f list \<Rightarrow> 'f list" where
  "softmax F ss =
     (let mx = foldl (\<lambda>mx s. if f_gt F s mx then s else mx) (f_low F) ss;
          es = map (\<lambda>s. f_exp F (f_sub F s mx)) ss;
          inv_sum = f_div F (f_one F) (foldl (f_add F) (f_zero F) es)
      in map (\<lambda>e. f_mul F e inv_sum) es)"






section \<open>The pass\<close>











section \<open>Reference transformer\<close>

text \<open>Vectors are lists and matrices are lists of rows.\<close>

definition chunk :: "nat \<Rightarrow> nat \<Rightarrow> 'f list \<Rightarrow> 'f list" where
  "chunk i n xs = take n (drop (i * n) xs)"

definition rows :: "nat \<Rightarrow> nat \<Rightarrow> 'f list \<Rightarrow> 'f list list" where
  "rows M K W = map (\<lambda>m. chunk m K W) [0..<M]"

definition dot_v :: "('f, 'd) fops \<Rightarrow> 'f list \<Rightarrow> 'f list \<Rightarrow> 'f" where
  "dot_v F xs ys = foldl (\<lambda>acc (a, b). f_add F acc (f_mul F a b)) (f_zero F) (zip xs ys)"

definition linear_v :: "('f, 'd) fops \<Rightarrow> 'f list list \<Rightarrow> 'f list \<Rightarrow> 'f list" where
  "linear_v F W x = map (dot_v F x) W"





text \<open>Causal attention of the query heads over the rows of keys and values, one row per position.\<close>

definition head_v :: "('f, 'd) fops \<Rightarrow> nat \<Rightarrow> nat \<Rightarrow> 'f list \<Rightarrow> 'f list list \<Rightarrow> 'f list list \<Rightarrow> 'f list" where
  "head_v F hdim g q Ks Vs =
     (let scale = f_div F (f_one F) (f_sqrt F (f_of_nat F hdim));
          ws = softmax F (map (\<lambda>K. f_mul F (dot_v F q (chunk g hdim K)) scale) Ks)
      in map (\<lambda>d. foldl (\<lambda>acc (w, V). f_add F acc (f_mul F w (chunk g hdim V ! d))) (f_zero F) (zip ws Vs)) [0..<hdim])"

definition attend_v :: "('f, 'd) fops \<Rightarrow> nat \<Rightarrow> nat \<Rightarrow> nat \<Rightarrow> 'f list \<Rightarrow> 'f list list \<Rightarrow> 'f list list \<Rightarrow> 'f list" where
  "attend_v F QH KH hdim q Ks Vs = concat (map (\<lambda>h. head_v F hdim (h div (QH div KH)) (chunk h hdim q) Ks Vs) [0..<QH])"

section \<open>The scalar routines are the reference ones\<close>












lemma length_linear_v [simp]: "length (linear_v F W x) = length W"
  by (simp add: linear_v_def)

lemma length_rows [simp]: "length (rows M K W) = M"
  by (simp add: rows_def)

lemma length_rope_pair [simp]: "length (rope_pair F b hdim pos theta x i) = length x"
  by (simp add: rope_pair_def Let_def)

lemma length_rope_fold [simp]: "length (foldl (rope_pair F b hdim pos theta) x is) = length x"
  by (induction "is" arbitrary: x) simp_all









section \<open>Attention over the cache\<close>

lemma length_head_v [simp]: "length (head_v F hdim g q Ks Vs) = hdim"
  by (simp add: head_v_def Let_def)

lemma length_softmax [simp]: "length (softmax F ss) = length ss"
  by (simp add: softmax_def Let_def)










section \<open>A block\<close>


















lemma length_attend_v [simp]: "length (attend_v F n g hdim q Ks Vs) = n * hdim"
  by (simp add: attend_v_def length_concat comp_def sum_list_triv)





section \<open>All blocks\<close>








section \<open>The pass\<close>














section \<open>Decoding a sequence\<close>










section \<open>A small model\<close>



























end
