(* ===== verification/Spec2Isabelle.thy ===== *)
theory Spec2Isabelle
  imports Graph Scheduler Planner Kv Tokenizer Quant Safetensors Config Threadpool Executor Adapter_Mock Gpt_Forward
begin

text \<open>
  \<^bold>\<open>Hummingbird: a verification development.\<close>

  Hummingbird (\<open>src/\<close>) is an inference runtime in C. A model file is turned into a manifest of
  tensors, an adapter builds an execution graph over tensor descriptors, the scheduler orders the
  graph into stages, the memory planner places the intermediate values in one pool, and kernels are
  resolved and dispatched for the nodes; a KV cache keeps the attention state of each context and
  the tokenizer translates between text and token ids. Everything rests on the allocators of the
  memory module and on the status and error conventions of the common module.

  \<^bold>\<open>Conventions.\<close> Definitions are executable translations of the C functions named in their theory.
  A pointer that the source compares with NULL is an \<open>option\<close> (\<open>'a ptr\<close>); an out-parameter is the
  value of a successful \<open>outcome\<close>; an operation that changes state returns the status and the new
  state, on failures too. \<open>size_t\<close>, \<open>uint32_t\<close> and bytes are words where the source wraps or
  guards against wrapping, otherwise \<open>nat\<close>; \<open>int64_t\<close> is \<open>int\<close> with its range written out. The
  success of an allocation is an argument. Loops without a syntactic bound (the Kahn loop of the
  scheduler, the first-fit search of the planner, the capacity loops of the tokenizer) are
  \<open>partial_function (option)\<close> definitions, in which not returning is \<open>None\<close>, and the theorems say
  that they return; the recursive graph visit has fuel, bounded by the number of nodes. Mutexes and
  atomics are not modelled: the operations they protect are atomic steps (in \<open>Threadpool\<close>, steps of
  concurrent threads).

  \<^bold>\<open>Theories.\<close>
  \<^item> \<open>Hb_Prelude\<close>: results, integer ranges, words, alignment and list facts that the components share.
  \<^item> \<open>Common\<close> (\<open>src/src/common\<close>): status codes, the thread-local error record, alignment helpers.
  \<^item> \<open>Tensor_Shape\<close>, \<open>Tensor\<close> (\<open>src/src/tensor\<close>): element types, shapes, broadcasting, strides; the
    tensor descriptor over a byte memory with allocation, views, copies, quantization metadata and
    validation. Shown: contiguous strides are a bijection, packed sizes are exact, broadcasting is
    the NumPy rule, validated tensors and all chains of views stay inside their buffers, clones are
    deep copies.
  \<^item> \<open>Memory\<close> (\<open>src/src/memory\<close>): the system allocator with its headers, statistics and leak list, and
    the arena. Shown: statistics are exact, blocks are aligned and inside their allocation, arena
    blocks never overlap.
  \<^item> \<open>Registry\<close>: the contract of the runtime's registries as locales, interpreted by \<open>Kernel\<close>,
    \<open>Tokenizer\<close>, \<open>Model\<close> and \<open>Adapter\<close>. \<open>Fifo\<close>: the contract of a bounded queue, interpreted by \<open>Scheduler\<close>.
  \<^item> \<open>Kernel\<close> (\<open>src/src/kernel\<close>): workspaces, the kernel registry, resolution and dispatch.
  \<^item> \<open>Topo\<close>: cycles and topological orders of a dependency function, shared by \<open>Graph\<close> and \<open>Scheduler\<close>.
  \<^item> \<open>Graph\<close> (\<open>src/src/graph\<close>): the builder, shape inference and the depth-first topological sort, which
    terminates and succeeds exactly on acyclic graphs.
  \<^item> \<open>Device\<close> (\<open>src/src/device\<close>), \<open>Scheduler\<close> (\<open>src/src/scheduler\<close>): device discovery; the ring-buffer
    queue and the staged plan, valid and earliest exactly for acyclic graphs.
  \<^item> \<open>Planner\<close> (\<open>src/src/planner\<close>): liveness and first-fit placement; values that are live together never
    share a byte, and the pool stays close to the naive total.
  \<^item> \<open>Executor\<close> (\<open>src/src/executor\<close>): execution contexts and the run of a graph. The end of the chain
    from builder over memory plan to kernels: sharing the pool never changes a result.
  \<^item> \<open>Kv\<close> (\<open>src/src/kv\<close>): contexts and pages of the KV cache; exact statistics, single destruction, and a
    cursor that refines its specification.
  \<^item> \<open>Utf8\<close>, \<open>Token_Sequence\<close>, \<open>Vocabulary\<close>, \<open>Tokenizer\<close> (\<open>src/src/tokenizer\<close>): encoding and decoding of
    UTF-8, the growable id array as a list, the open-addressing hash table as a partial map, the
    registry, and the round trip of text through the tokenizer manager.
  \<^item> \<open>Config\<close> (\<open>src/src/config\<close>): the typed configuration; values keep their type and bounds, and the
    order in which file and environment are loaded does not matter.
  \<^item> \<open>Threadpool\<close> (\<open>src/src/threadpool\<close>): the worker pool as interleaved steps of worker and client
    threads; every accepted task runs exactly once, and no wakeup is lost.
  \<^item> \<open>Quant\<close> (\<open>src/src/quant\<close>): dequantization on bit patterns, equal to the IEEE 754 meaning of the data.
  \<^item> \<open>Json\<close> (\<open>src/src/json\<close>): the parser, total under every allocation failure, and inverse to a
    canonical printer.
  \<^item> \<open>Model\<close>, \<open>Safetensors\<close> (\<open>src/src/model\<close>): the format registry, manifest, metadata and loading
    pipeline; the safetensors handler on top of \<open>Json\<close>, through a locale for format parsers. Shown:
    metadata is a map, loaded tensors lie inside their file, written files load back.
  \<^item> \<open>Cstring\<close>: the conversions between texts and numbers of the C library that components use.
  \<^item> \<open>Adapter\<close>, \<open>Adapter_Mock\<close>, \<open>Gpt_Oss\<close> (\<open>src/src/adapter\<close>): model descriptors, the adapter registry and the
    initialisation pipeline; the mock adapter; the life of the GPT-OSS adapter and its contexts. Shown: a
    model reaches the adapter it names, contexts are created and destroyed without a leak under every
    allocation failure, and the graph builder refuses the graph of GPT-OSS.
  \<^item> \<open>Gpt_Forward\<close> (\<open>src/src/adapter/adapter_gpt_oss.c\<close>): the forward pass of GPT-OSS over an arbitrary
    floating-point arithmetic. Shown: decoding a sequence stays inside its buffers and computes the
    transformer whose blocks share one KV cache, which for a model with one block is the causal
    transformer on the whole sequence, and for models with more blocks is not.

  \<^bold>\<open>Not modelled.\<close> The compute kernels of the CPU and GPU backends, operating-system calls, the weight
  streaming, the runtime sessions, and functions that only release memory; the manifest lists every
  part with its status.
\<close>

end
